(* ===== verification/Nexa_Host.thy ===== *)
theory Nexa_Host
  imports Nexa_Prelude
begin

text \<open>
  The host-pattern rule of \<open>crates/nexapipe-proto/src/host.rs\<close>, which the server's routes,
  a client's allow list and the client library all apply: folding of names and patterns,
  the match itself, the refusal of patterns that cannot be meant, and the split of an
  authority into host and port. The locale \<open>host_rule\<close> states what a user of the rule may
  rely on; it is interpreted on the definitions below.
\<close>

section \<open>Definitions\<close>

definition is_dot :: "char \<Rightarrow> bool" where
  "is_dot c \<longleftrightarrow> c = CHR ''.''"

definition is_bracket :: "char \<Rightarrow> bool" where
  "is_bracket c \<longleftrightarrow> c = CHR ''['' \<or> c = CHR '']''"

definition normalize_host :: "string \<Rightarrow> string" where
  "normalize_host host =
     (let host = trim_end_matches is_dot host;
          host = trim_matches is_bracket host
      in if list_ex is_ascii_uppercase host then to_ascii_lowercase host else host)"

definition normalize_pattern :: "string \<Rightarrow> string" where
  "normalize_pattern pattern =
     (let folded = normalize_host pattern
      in if folded = ''*'' \<and> pattern \<noteq> ''*'' then to_ascii_lowercase pattern else folded)"

definition host_matches :: "string \<Rightarrow> string \<Rightarrow> bool" where
  "host_matches pattern host =
     (case strip_prefix ''*'' pattern of
        None \<Rightarrow> pattern = host
      | Some rest \<Rightarrow>
          if rest = [] then True
          else (case strip_prefix ''.'' rest of
                  None \<Rightarrow> False
                | Some suf \<Rightarrow>
                    (case strip_suffix suf host of
                       None \<Rightarrow> False
                     | Some pre \<Rightarrow> ends_with ''.'' pre)))"

text \<open>
  The reasons \<open>pattern_error\<close> gives, one per message, with the strings the message quotes.
\<close>

datatype pattern_fault =
    EmptyPattern
  | LeadingDot string string
  | CatchAllSpelling string
  | LooseWildcard string

definition pattern_error :: "string \<Rightarrow> pattern_fault option" where
  "pattern_error pattern =
     (if pattern = [] then Some EmptyPattern
      else if trim_end_matches is_dot pattern = [] then Some EmptyPattern
      else (case strip_prefix ''.'' pattern of
        Some (c # rest) \<Rightarrow> Some (LeadingDot pattern (c # rest))
      | _ \<Rightarrow>
        if CHR ''*'' \<in> set pattern \<and> pattern \<noteq> ''*'' \<and> normalize_host pattern = ''*''
        then Some (CatchAllSpelling pattern)
        else
          (case strip_prefix ''*'' pattern of
             None \<Rightarrow> None
           | Some rest \<Rightarrow>
               (case strip_prefix ''.'' rest of
                  None \<Rightarrow> if rest = [] then None else Some (LooseWildcard pattern)
                | Some suf \<Rightarrow> if suf \<noteq> [] then None else Some (LooseWildcard pattern)))))"

definition host_matches_any :: "string list \<Rightarrow> string \<Rightarrow> bool" where
  "host_matches_any patterns host =
     (let host = normalize_host host
      in list_ex (\<lambda>pattern. host_matches (normalize_pattern pattern) host) patterns)"

definition host_and_port :: "string \<Rightarrow> string \<times> u16 option" where
  "host_and_port host =
     (if starts_with ''['' host then
        (case find_char CHR '']'' host of
           Some end \<Rightarrow>
             (take (Suc end) host,
              Option.bind (strip_prefix '':'' (drop (Suc end) host)) parse_u16)
         | None \<Rightarrow> (host, None))
      else
        (case split_once CHR '':'' host of
           Some (name, port) \<Rightarrow> (name, parse_u16 port)
         | None \<Rightarrow> (host, None)))"

section \<open>The interface of the rule\<close>

text \<open>
  What the users of the rule rely on: folding a pattern never produces the catch-all unless
  the catch-all was written, the catch-all takes every name, and any other pattern takes only
  its own spelling or names with a dot in them.
\<close>

locale host_rule =
  fixes fold_name :: "string \<Rightarrow> string"
    and fold_pattern :: "string \<Rightarrow> string"
    and matches :: "string \<Rightarrow> string \<Rightarrow> bool"
  assumes fold_pattern_star: "fold_pattern p = ''*'' \<longleftrightarrow> p = ''*''"
    and matches_star: "matches ''*'' h"
    and matches_narrow: "matches f h \<Longrightarrow> f \<noteq> ''*'' \<Longrightarrow> h = f \<or> CHR ''.'' \<in> set h"
    and fold_name_plain: "set h \<subseteq> {CHR ''x''} \<Longrightarrow> fold_name h = h"
begin

lemma unmatched_name:
  assumes "''*'' \<notin> set ps"
  shows "\<exists>h. \<forall>p \<in> set ps. \<not> matches (fold_pattern p) (fold_name h)"
proof -
  define n where "n = Suc (sum_list (map (length \<circ> fold_pattern) ps))"
  define h where "h = replicate n CHR ''x''"
  have h: "fold_name h = h"
    by (rule fold_name_plain) (auto simp: h_def)
  have "\<not> matches (fold_pattern p) (fold_name h)" if p: "p \<in> set ps" for p
  proof
    assume m: "matches (fold_pattern p) (fold_name h)"
    from p assms have "fold_pattern p \<noteq> ''*''"
      using fold_pattern_star by auto
    with m h have "h = fold_pattern p \<or> CHR ''.'' \<in> set h"
      using matches_narrow by metis
    moreover have "CHR ''.'' \<notin> set h"
      by (auto simp: h_def)
    moreover have "length (fold_pattern p) < length h"
      using member_le_sum_list [of "length (fold_pattern p)" "map (length \<circ> fold_pattern) ps"] p
      by (force simp: h_def n_def)
    ultimately show False by auto
  qed
  then show ?thesis by blast
qed

lemma every_name_iff:
  "(\<forall>h. \<exists>p \<in> set ps. matches (fold_pattern p) (fold_name h)) \<longleftrightarrow> ''*'' \<in> set ps"
proof
  assume "\<forall>h. \<exists>p \<in> set ps. matches (fold_pattern p) (fold_name h)"
  then show "''*'' \<in> set ps"
    using unmatched_name [of ps] by blast
next
  assume "''*'' \<in> set ps"
  then show "\<forall>h. \<exists>p \<in> set ps. matches (fold_pattern p) (fold_name h)"
    using fold_pattern_star matches_star by metis
qed

end

section \<open>Folding\<close>

lemma ascii_lower_star [simp]: "ascii_lower c = CHR ''*'' \<longleftrightarrow> c = CHR ''*''"
  by (rule ascii_lower_eq_punct) (simp_all add: is_ascii_uppercase_def)

lemma ascii_lower_dot [simp]: "ascii_lower c = CHR ''.'' \<longleftrightarrow> c = CHR ''.''"
  by (rule ascii_lower_eq_punct) (simp_all add: is_ascii_uppercase_def)

lemma to_ascii_lowercase_star [simp]: "to_ascii_lowercase s = ''*'' \<longleftrightarrow> s = ''*''"
  by (auto simp: to_ascii_lowercase_def)

lemma normalize_host_lower:
  "normalize_host h = to_ascii_lowercase (trim_matches is_bracket (trim_end_matches is_dot h))"
  by (auto simp: normalize_host_def Let_def to_ascii_lowercase_id)

lemma normalize_host_no_upper: "\<not> list_ex is_ascii_uppercase (normalize_host h)"
  by (simp add: normalize_host_lower)

lemma normalize_pattern_star: "normalize_pattern p = ''*'' \<longleftrightarrow> p = ''*''"
proof -
  have "normalize_host ''*'' = ''*''" by code_simp
  then show ?thesis by (auto simp: normalize_pattern_def Let_def)
qed

lemma normalize_host_plain:
  assumes "set h \<subseteq> {CHR ''x''}"
  shows "normalize_host h = h"
proof -
  from assms have h: "h = replicate (length h) CHR ''x''"
    by (subst replicate_length_same) auto
  have "\<not> list_ex is_ascii_uppercase h"
    by (subst h) (simp add: list_ex_iff is_ascii_uppercase_def)
  moreover have "trim_end_matches is_dot h = h" "trim_matches is_bracket h = h"
    by (subst (2) h, subst h, simp add: trim_end_matches_def trim_matches_def
          trim_start_matches_def is_dot_def is_bracket_def)+
  ultimately show ?thesis by (simp add: normalize_host_def)
qed

section \<open>Matching\<close>

lemma host_matches_exact: "\<not> prefix ''*'' p \<Longrightarrow> host_matches p h \<longleftrightarrow> p = h"
  by (auto simp: host_matches_def str_simps split: option.splits)

lemma host_matches_wildcard: "host_matches (''*.'' @ d) h \<longleftrightarrow> (\<exists>l. h = l @ ''.'' @ d)"
proof -
  have "host_matches (''*.'' @ d) h \<longleftrightarrow> (\<exists>pre. h = pre @ d \<and> suffix ''.'' pre)"
    by (auto simp: host_matches_def ends_with_iff strip_suffix_Some split: option.splits)
  also have "\<dots> \<longleftrightarrow> (\<exists>l. h = l @ ''.'' @ d)"
    by (auto simp: suffix_def)
  finally show ?thesis .
qed

lemma host_matches_star: "host_matches ''*'' h"
  by (simp add: host_matches_def)

lemma host_matches_loose: "c \<noteq> CHR ''.'' \<Longrightarrow> \<not> host_matches (CHR ''*'' # c # r) h"
  by (simp add: host_matches_def)

lemmas host_matches_cases =
  host_matches_exact host_matches_wildcard host_matches_star host_matches_loose

lemma host_matches_iff:
  "host_matches p h \<longleftrightarrow>
     p = ''*'' \<or>
     (\<exists>d l. p = ''*.'' @ d \<and> h = l @ ''.'' @ d) \<or>
     (\<not> prefix ''*'' p \<and> p = h)"
proof (cases "prefix ''*'' p")
  case False
  then show ?thesis by (auto simp: host_matches_exact)
next
  case True
  then obtain r where p: "p = CHR ''*'' # r" by (auto simp: prefix_def)
  show ?thesis
  proof (cases r)
    case Nil
    with p show ?thesis by (simp add: host_matches_star)
  next
    case (Cons c d)
    with p show ?thesis
      using host_matches_wildcard [of d h] host_matches_loose [of c d h]
      by (cases "c = CHR ''.''") auto
  qed
qed

lemma host_matches_narrow:
  "host_matches f h \<Longrightarrow> f \<noteq> ''*'' \<Longrightarrow> h = f \<or> CHR ''.'' \<in> set h"
  by (auto simp: host_matches_iff)

interpretation nexa_host: host_rule normalize_host normalize_pattern host_matches
  by unfold_locales
    (auto simp: normalize_pattern_star host_matches_star normalize_host_plain
          dest: host_matches_narrow)

lemma host_matches_any_iff:
  "host_matches_any ps h \<longleftrightarrow> (\<exists>p \<in> set ps. host_matches (normalize_pattern p) (normalize_host h))"
  by (simp add: host_matches_any_def list_ex_iff)

section \<open>Configured patterns\<close>

lemma set_normalize_host: "set (normalize_host h) \<subseteq> ascii_lower ` set h"
proof -
  have "set (trim_matches is_bracket (trim_end_matches is_dot h)) \<subseteq> set h"
    by (auto simp: trim_matches_def trim_end_matches_def trim_start_matches_def
             dest!: set_dropWhileD)
  then show ?thesis
    by (auto simp: normalize_host_lower to_ascii_lowercase_def)
qed

lemma normalize_host_star_mem: "normalize_host p = ''*'' \<Longrightarrow> CHR ''*'' \<in> set p"
proof -
  assume "normalize_host p = ''*''"
  then have "CHR ''*'' \<in> ascii_lower ` set p"
    using set_normalize_host [of p] by auto
  then obtain c where "c \<in> set p" and "ascii_lower c = CHR ''*''"
    by (metis imageE)
  then show ?thesis by simp
qed

lemma trim_dots_Nil: "trim_end_matches is_dot p = [] \<longleftrightarrow> set p \<subseteq> {CHR ''.''}"
  by (auto simp: trim_end_matches_def is_dot_def)

lemma pattern_error_leading_dot: "pattern_error (CHR ''.'' # p) \<noteq> None"
  by (cases p) (auto simp: pattern_error_def trim_dots_Nil)

lemma pattern_error_other:
  assumes "c \<noteq> CHR ''.''"
  shows "pattern_error (c # r) = None \<longleftrightarrow>
     (c # r = ''*'' \<or> normalize_host (c # r) \<noteq> ''*'') \<and>
     (c = CHR ''*'' \<longrightarrow> r = [] \<or> (\<exists>d. d \<noteq> [] \<and> r = CHR ''.'' # d))"
proof -
  have t: "trim_end_matches is_dot (c # r) \<noteq> []"
    using assms by (auto simp: trim_dots_Nil)
  have d: "strip_prefix ''.'' (c # r) = None"
    using assms by simp
  show ?thesis
    using normalize_host_star_mem [of "c # r"] assms
    by (auto simp: pattern_error_def t d strip_prefix_Some strip_prefix_None prefix_def
             split: option.splits if_splits)
qed

section \<open>Authorities\<close>

lemma host_and_port_prefix: "prefix (fst (host_and_port h)) h"
proof (cases "starts_with ''['' h")
  case True
  then show ?thesis
    by (auto simp: host_and_port_def take_is_prefix split: option.splits)
next
  case False
  then show ?thesis
    by (auto simp: host_and_port_def split_once_Some split: option.splits)
qed

lemma split_once_append: "d \<notin> set a \<Longrightarrow> split_once d (a @ d # b) = Some (a, b)"
  by (simp add: split_once_Some)

lemma find_char_append: "d \<notin> set a \<Longrightarrow> find_char d (a @ d # b) = Some (length a)"
  by (simp add: find_char_Some)

section \<open>Properties\<close>

text \<open>
  C35: the matching rule is exactly the documented one. A pattern is the catch-all, or a dotted
  wildcard that takes the names ending in a dot and its suffix, or a name that takes
  itself; nothing else matches, and the apex of a wildcard is not under it.
\<close>

theorem host_matches_rule:
  "host_matches p h \<longleftrightarrow>
     p = ''*'' \<or>
     (\<exists>d l. p = ''*.'' @ d \<and> h = l @ ''.'' @ d) \<or>
     (\<not> prefix ''*'' p \<and> p = h)"
  by (rule host_matches_iff)

text \<open>
  A list of configured patterns admits every host if and only if the catch-all is written in it
  literally. No other spelling, and no combination of names and wildcards, folds into
  admitting everything.
\<close>

theorem host_list_admits_all_iff:
  "(\<forall>h. host_matches_any ps h) \<longleftrightarrow> ''*'' \<in> set ps"
  unfolding host_matches_any_iff by (rule nexa_host.every_name_iff)

text \<open>
  The configuration check accepts exactly the catch-all, the dotted wildcards with a suffix,
  and the names that start with neither a star nor a dot, and among these never a
  spelling that would fold into the catch-all.
\<close>

theorem pattern_error_accepts_iff:
  "pattern_error p = None \<longleftrightarrow>
     p = ''*'' \<or>
     (normalize_host p \<noteq> ''*'' \<and>
      ((\<exists>d. d \<noteq> [] \<and> p = ''*.'' @ d) \<or> (p \<noteq> [] \<and> \<not> prefix ''*'' p \<and> \<not> prefix ''.'' p)))"
proof (cases p)
  case Nil
  then show ?thesis by (simp add: pattern_error_def)
next
  case (Cons c r)
  have star: "normalize_host ''*'' = ''*''" by code_simp
  show ?thesis
  proof (cases "c = CHR ''.''")
    case True
    with Cons show ?thesis using pattern_error_leading_dot [of r] by simp
  next
    case False
    with Cons star show ?thesis by (auto simp: pattern_error_other)
  qed
qed

text \<open>
  An authority is split where a port can only follow: after the first colon of a plain name,
  and after the closing bracket of an IPv6 literal, whose own colons belong to the
  address. A literal whose bracket is never closed is left whole.
\<close>

theorem host_and_port_splits:
  assumes "CHR '':'' \<notin> set h" and "\<not> prefix ''['' h" and "CHR '']'' \<notin> set a"
  shows "host_and_port (h @ '':'' @ p) = (h, parse_u16 p) \<and>
     host_and_port h = (h, None) \<and>
     host_and_port (''['' @ a @ '']:'' @ p) = (''['' @ a @ '']'', parse_u16 p) \<and>
     host_and_port (''['' @ a @ '']'') = (''['' @ a @ '']'', None) \<and>
     host_and_port (''['' @ a) = (''['' @ a, None)"
proof (intro conjI)
  have n: "\<not> starts_with ''['' (h @ '':'' @ p)" "\<not> starts_with ''['' h"
    using assms(2) by (auto simp: starts_with_iff prefix_def append_eq_Cons_conv)
  have s: "split_once CHR '':'' h = None"
    using assms(1) by (simp add: split_once_None)
  show "host_and_port (h @ '':'' @ p) = (h, parse_u16 p)"
    using n(1) split_once_append [OF assms(1), of p] by (simp add: host_and_port_def)
  show "host_and_port h = (h, None)"
    by (simp add: host_and_port_def n s)
  have f: "find_char CHR '']'' (a @ CHR '']'' # q) = Some (length a)" for q
    using assms(3) by (simp add: find_char_append)
  show "host_and_port (''['' @ a @ '']:'' @ p) = (''['' @ a @ '']'', parse_u16 p)"
    by (simp add: host_and_port_def f starts_with_iff)
  show "host_and_port (''['' @ a @ '']'') = (''['' @ a @ '']'', None)"
    by (simp add: host_and_port_def f starts_with_iff)
  show "host_and_port (''['' @ a) = (''['' @ a, None)"
    using assms(3) find_char_None [of "CHR '']''" a] by (simp add: host_and_port_def starts_with_iff)
qed

theorem host_and_port_splits_witness:
  "CHR '':'' \<notin> set ''api.test'' \<and> \<not> prefix ''['' ''api.test'' \<and> CHR '']'' \<notin> set ''::1'' \<and>
   host_and_port ''api.test:8443'' = (''api.test'', Some 8443) \<and>
   host_and_port ''[::1]:8443'' = (''[::1]'', Some 8443)"
proof -
  have "parse_u16 ''8443'' = Some 8443" by (simp add: parse_u16_def parse_nat_def digit_value_def)
  then show ?thesis
    using host_and_port_splits [of "''api.test''" "''::1''" "''8443''"] by simp
qed

section \<open>A fold that is not idempotent\<close>

text \<open>
  Trailing dots are trimmed before the brackets are, so a dot inside the brackets survives one
  fold and is lost by the next, and the refused spelling of the catch-all that keeps
  its own shape does match such a name.
\<close>

lemma normalize_host_not_idempotent:
  "normalize_host ''[a.]'' = ''a.'' \<and> normalize_host (normalize_host ''[a.]'') = ''a'' \<and>
   host_matches_any [''*.''] ''[a.]''"
  by code_simp

end
