(* ===== verification/Nexa_L4_Wire.thy ===== *)
theory Nexa_L4_Wire
  imports Nexa_Prelude
begin

text \<open>
  The wire format of the L4 tunnel, \<open>crates/nexapipe-proto/src/preface.rs\<close> and
  \<open>crates/nexapipe-proto/src/udp.rs\<close>: the preface a client opens a stream with, the status
  byte the server answers, and the length-prefixed frames that carry datagrams. The
  locale \<open>stream_framing\<close> is the contract both formats offer to a reader of a byte
  stream; it is interpreted on the two decoders.
\<close>

section \<open>Errors\<close>

datatype proto_error =
    NotAPreface
  | UnsupportedVersion u8
  | UnknownProto u8
  | InvalidHost
  | InvalidPort
  | PayloadTooLarge

section \<open>The preface\<close>

definition PREFACE_MAGIC :: u8 where "PREFACE_MAGIC = 0x05"
definition PREFACE_VERSION :: u8 where "PREFACE_VERSION = 0x01"
definition MAX_HOST_LEN :: nat where "MAX_HOST_LEN = 255"
definition MAX_PREFACE_LEN :: nat where "MAX_PREFACE_LEN = 4 + MAX_HOST_LEN + 2"

definition is_l4_preface :: "u8 \<Rightarrow> bool" where
  "is_l4_preface first_byte \<longleftrightarrow> first_byte = PREFACE_MAGIC"

datatype l4_proto = Tcp | Udp

fun l4_proto_as_byte :: "l4_proto \<Rightarrow> u8" where
  "l4_proto_as_byte Tcp = 0x01"
| "l4_proto_as_byte Udp = 0x02"

definition l4_proto_from_byte :: "u8 \<Rightarrow> l4_proto option" where
  "l4_proto_from_byte byte =
     (if byte = 0x01 then Some Tcp else if byte = 0x02 then Some Udp else None)"

fun l4_proto_name :: "l4_proto \<Rightarrow> string" where
  "l4_proto_name Tcp = ''TCP''"
| "l4_proto_name Udp = ''UDP''"

datatype status = StOk | StNoRoute | StBackendFailed | StTooManyFlows | StBadPreface | StUnknown

fun status_as_byte :: "status \<Rightarrow> u8" where
  "status_as_byte StOk = 0x00"
| "status_as_byte StNoRoute = 0x01"
| "status_as_byte StBackendFailed = 0x02"
| "status_as_byte StTooManyFlows = 0x03"
| "status_as_byte StBadPreface = 0x04"
| "status_as_byte StUnknown = 0xFF"

definition status_from_byte :: "u8 \<Rightarrow> status" where
  "status_from_byte byte =
     (if byte = 0x00 then StOk
      else if byte = 0x01 then StNoRoute
      else if byte = 0x02 then StBackendFailed
      else if byte = 0x03 then StTooManyFlows
      else if byte = 0x04 then StBadPreface
      else StUnknown)"

definition status_is_ok :: "status \<Rightarrow> bool" where
  "status_is_ok s = (case s of StOk \<Rightarrow> True | _ \<Rightarrow> False)"

fun status_describe :: "status \<Rightarrow> string" where
  "status_describe StOk = ''ok''"
| "status_describe StNoRoute = ''no tcp/udp route for this host and port''"
| "status_describe StBackendFailed = ''could not reach the route's backend''"
| "status_describe StTooManyFlows = ''too many flows on this connection''"
| "status_describe StBadPreface = ''malformed L4 preface''"
| "status_describe StUnknown = ''unrecognised status byte''"

record preface =
  pf_proto :: l4_proto
  pf_host :: string
  pf_port :: u16

definition is_valid_host :: "string \<Rightarrow> bool" where
  "is_valid_host host \<longleftrightarrow>
     host \<noteq> [] \<and> length host \<le> MAX_HOST_LEN \<and> list_all is_ascii_graphic (as_bytes host)"

definition preface_encoded_len :: "preface \<Rightarrow> nat" where
  "preface_encoded_len p = 4 + length (pf_host p) + 2"

definition preface_encode :: "preface \<Rightarrow> bytes \<Rightarrow> proto_error + bytes" where
  "preface_encode p out =
     (if \<not> is_valid_host (pf_host p) then Inl InvalidHost
      else if pf_port p = 0 then Inl InvalidPort
      else Inr (out @ [PREFACE_MAGIC, PREFACE_VERSION, l4_proto_as_byte (pf_proto p),
                       of_nat (length (pf_host p))]
                    @ as_bytes (pf_host p) @ be16 (pf_port p)))"

definition preface_to_bytes :: "preface \<Rightarrow> proto_error + bytes" where
  "preface_to_bytes p = preface_encode p []"

definition preface_decode :: "bytes \<Rightarrow> proto_error + (preface \<times> nat) option" where
  "preface_decode buf =
     (case buf of
        [] \<Rightarrow> Inr None
      | first # _ \<Rightarrow>
        if \<not> is_l4_preface first then Inl NotAPreface
        else if length buf < 4 then Inr None
        else if buf ! 1 \<noteq> PREFACE_VERSION then Inl (UnsupportedVersion (buf ! 1))
        else
          rbind (ok_or (UnknownProto (buf ! 2)) (l4_proto_from_byte (buf ! 2))) (\<lambda>proto.
          let host_len = unat (buf ! 3) in
          if host_len = 0 then Inl InvalidHost
          else
            let total = 4 + host_len + 2 in
            if length buf < total then Inr None
            else
              rbind (ok_or InvalidHost (from_utf8 (take host_len (drop 4 buf)))) (\<lambda>host.
              if \<not> is_valid_host host then Inl InvalidHost
              else
                let port = of_be16 (buf ! (4 + host_len)) (buf ! (5 + host_len)) in
                if port = 0 then Inl InvalidPort
                else Inr (Some (\<lparr>pf_proto = proto, pf_host = to_ascii_lowercase host,
                                 pf_port = port\<rparr>, total)))))"

section \<open>Datagram frames\<close>

definition MAX_UDP_PAYLOAD :: nat where "MAX_UDP_PAYLOAD = 65507"
definition FRAME_HEADER_LEN :: nat where "FRAME_HEADER_LEN = 2"

definition encode_frame :: "bytes \<Rightarrow> bytes \<Rightarrow> proto_error + bytes" where
  "encode_frame payload out =
     (if length payload > MAX_UDP_PAYLOAD then Inl PayloadTooLarge
      else Inr (out @ be16 (of_nat (length payload)) @ payload))"

definition encode_frame_to_vec :: "bytes \<Rightarrow> proto_error + bytes" where
  "encode_frame_to_vec payload = encode_frame payload []"

definition payload_fits_datagram :: "bytes \<Rightarrow> bool" where
  "payload_fits_datagram payload \<longleftrightarrow> length payload \<le> MAX_UDP_PAYLOAD"

datatype frame = Incomplete | Ready (frame_payload: bytes) (frame_consumed: nat)

definition decode_frame :: "bytes \<Rightarrow> frame" where
  "decode_frame buf =
     (if length buf < FRAME_HEADER_LEN then Incomplete
      else
        let len = unat (of_be16 (buf ! 0) (buf ! 1));
            total = FRAME_HEADER_LEN + len
        in if length buf < total then Incomplete
           else Ready (take (total - FRAME_HEADER_LEN) (drop FRAME_HEADER_LEN buf)) total)"

section \<open>The contract of a framed stream\<close>

text \<open>
  A reader of a byte stream sees a buffer that grows. It needs two things of a decoder: a complete
  item at the front is found and its length reported whatever follows it, and a
  buffer that ends inside an item is reported as incomplete.
\<close>

locale stream_framing =
  fixes enc :: "'a \<Rightarrow> bytes"
    and dec :: "bytes \<Rightarrow> 'e + ('b \<times> nat) option"
    and canon :: "'a \<Rightarrow> 'b"
    and valid :: "'a \<Rightarrow> bool"
  assumes dec_complete: "valid x \<Longrightarrow> dec (enc x @ rest) = Inr (Some (canon x, length (enc x)))"
    and dec_incomplete: "valid x \<Longrightarrow> strict_prefix bs (enc x) \<Longrightarrow> dec bs = Inr None"
begin

lemma dec_arrival:
  assumes "valid x" and "prefix buf (enc x @ rest)"
  shows "dec buf =
    (if length buf < length (enc x) then Inr None else Inr (Some (canon x, length (enc x))))"
proof (cases "length buf < length (enc x)")
  case True
  with assms(2) have "strict_prefix buf (enc x)"
    by (auto simp: strict_prefix_def prefix_append)
  with assms(1) True show ?thesis by (simp add: dec_incomplete)
next
  case False
  with assms(2) obtain r where "buf = enc x @ r"
    by (metis append_eq_append_conv2 linorder_not_less prefix_append prefix_def
        prefix_length_prefix)
  with assms(1) False show ?thesis by (simp add: dec_complete)
qed

lemma enc_unambiguous:
  assumes "valid x" and "valid y" and "enc x @ r = enc y @ s"
  shows "canon x = canon y \<and> enc x = enc y \<and> r = s"
proof -
  have "dec (enc x @ r) = dec (enc y @ s)"
    using assms(3) by simp
  with assms(1,2) have "canon x = canon y" and "length (enc x) = length (enc y)"
    by (simp_all add: dec_complete)
  with assms(3) show ?thesis by simp
qed

end

section \<open>Encoded prefaces\<close>

definition preface_ok :: "preface \<Rightarrow> bool" where
  "preface_ok p \<longleftrightarrow> is_valid_host (pf_host p) \<and> pf_port p \<noteq> 0"

definition preface_bytes :: "preface \<Rightarrow> bytes" where
  "preface_bytes p =
     [PREFACE_MAGIC, PREFACE_VERSION, l4_proto_as_byte (pf_proto p), of_nat (length (pf_host p))]
       @ as_bytes (pf_host p) @ be16 (pf_port p)"

definition preface_canon :: "preface \<Rightarrow> preface" where
  "preface_canon p = p\<lparr>pf_host := to_ascii_lowercase (pf_host p)\<rparr>"

lemma preface_to_bytes_eq: "preface_to_bytes p = Inr bs \<longleftrightarrow> preface_ok p \<and> bs = preface_bytes p"
  by (auto simp: preface_to_bytes_def preface_encode_def preface_ok_def preface_bytes_def)

lemma length_preface_bytes: "length (preface_bytes p) = preface_encoded_len p"
  by (simp add: preface_bytes_def preface_encoded_len_def)

lemma l4_proto_from_as_byte [simp]: "l4_proto_from_byte (l4_proto_as_byte q) = Some q"
  by (cases q) (simp_all add: l4_proto_from_byte_def)

lemma l4_proto_from_byte_Some: "l4_proto_from_byte b = Some q \<longleftrightarrow> b = l4_proto_as_byte q"
  by (cases q) (auto simp: l4_proto_from_byte_def)

lemma valid_host_length:
  "is_valid_host h \<Longrightarrow> unat (of_nat (length h) :: u8) = length h \<and> 0 < length h"
  by (auto simp: is_valid_host_def MAX_HOST_LEN_def unat_of_nat)

lemma valid_host_str_ok: "is_valid_host h \<Longrightarrow> str_ok h"
  by (auto simp: is_valid_host_def str_ok_def intro: utf8_valid_graphic)

lemma valid_host_lower: "is_valid_host h \<Longrightarrow> is_valid_host (to_ascii_lowercase h)"
  by (cases h) (auto simp: is_valid_host_def to_ascii_lowercase_def as_bytes_def list_all_iff graphic_lower)

lemma preface_header_nth [simp]:
  "preface_bytes p ! 0 = PREFACE_MAGIC"
  "preface_bytes p ! Suc 0 = PREFACE_VERSION"
  "preface_bytes p ! 2 = l4_proto_as_byte (pf_proto p)"
  "preface_bytes p ! 3 = of_nat (length (pf_host p))"
  by (simp_all add: preface_bytes_def)

text \<open>The body of the decoder once the four header bytes are there.\<close>

lemma preface_decode_body:
  assumes "4 \<le> length buf" and "buf ! 0 = PREFACE_MAGIC" and "buf ! 1 = PREFACE_VERSION"
    and "buf ! 2 = l4_proto_as_byte q" and "unat (buf ! 3) = n" and "0 < n"
  shows "preface_decode buf =
    (if length buf < 4 + n + 2 then Inr None
     else rbind (ok_or InvalidHost (from_utf8 (take n (drop 4 buf)))) (\<lambda>host.
       if \<not> is_valid_host host then Inl InvalidHost
       else if of_be16 (buf ! (4 + n)) (buf ! (5 + n)) = 0 then Inl InvalidPort
       else Inr (Some (\<lparr>pf_proto = q, pf_host = to_ascii_lowercase host,
              pf_port = of_be16 (buf ! (4 + n)) (buf ! (5 + n))\<rparr>, 4 + n + 2))))"
proof -
  from assms(1,2) obtain r where "buf = PREFACE_MAGIC # r"
    by (cases buf) auto
  with assms show ?thesis
    by (simp add: preface_decode_def is_l4_preface_def Let_def cong: if_cong)
qed

lemma preface_decode_complete:
  assumes "preface_ok p"
  shows "preface_decode (preface_bytes p @ rest) =
    Inr (Some (preface_canon p, length (preface_bytes p)))"
proof -
  let ?h = "pf_host p" and ?buf = "preface_bytes p @ rest"
  have h: "is_valid_host ?h" and port: "pf_port p \<noteq> 0"
    using assms by (auto simp: preface_ok_def)
  have hb: "take (length ?h) (drop 4 ?buf) = as_bytes ?h"
    by (simp add: preface_bytes_def)
  have pb: "of_be16 (?buf ! (4 + length ?h)) (?buf ! (5 + length ?h)) = pf_port p"
    by (simp add: preface_bytes_def nth_append be16_def codec_simps)
  have "preface_decode ?buf = Inr (Some (\<lparr>pf_proto = pf_proto p,
      pf_host = to_ascii_lowercase ?h, pf_port = pf_port p\<rparr>, 4 + length ?h + 2))"
    by (subst preface_decode_body [where q = "pf_proto p" and n = "length ?h"])
      (use valid_host_length [OF h] valid_host_str_ok [OF h] h port hb pb in
        \<open>auto simp: preface_bytes_def\<close>)
  then show ?thesis
    by (simp add: preface_canon_def length_preface_bytes preface_encoded_len_def)
qed

lemma preface_decode_incomplete:
  assumes "preface_ok p" and "strict_prefix bs (preface_bytes p)"
  shows "preface_decode bs = Inr None"
proof -
  let ?h = "pf_host p"
  have h: "is_valid_host ?h"
    using assms(1) by (simp add: preface_ok_def)
  from assms(2) have lt: "length bs < 4 + length ?h + 2"
    using prefix_length_less [OF assms(2)] by (simp add: length_preface_bytes preface_encoded_len_def)
  have nth: "bs ! i = preface_bytes p ! i" if "i < length bs" for i
    using assms(2) that by (auto intro: prefix_nth_eq)
  show ?thesis
  proof (cases "length bs < 4")
    case True
    show ?thesis
    proof (cases bs)
      case Nil
      then show ?thesis by (simp add: preface_decode_def)
    next
      case (Cons b r)
      with nth [of 0] True show ?thesis by (simp add: preface_decode_def is_l4_preface_def)
    qed
  next
    case False
    then have "bs \<noteq> []" by auto
    with False have "bs ! 0 = PREFACE_MAGIC" "bs ! 1 = PREFACE_VERSION"
      "bs ! 2 = l4_proto_as_byte (pf_proto p)" "bs ! 3 = of_nat (length ?h)"
      using nth [of 0] nth [of 1] nth [of 2] nth [of 3] by auto
    with False lt valid_host_length [OF h] show ?thesis
      by (subst preface_decode_body [where q = "pf_proto p" and n = "length ?h"]) auto
  qed
qed

interpretation preface_framing:
  stream_framing preface_bytes preface_decode preface_canon preface_ok
  by unfold_locales (auto intro: preface_decode_complete preface_decode_incomplete)

section \<open>Decoded prefaces\<close>

lemma preface_decode_None_bound:
  assumes "preface_decode buf = Inr None"
  shows "length buf < MAX_PREFACE_LEN"
proof -
  have "unat (buf ! 3) < 256"
    using unsigned_less [of "buf ! 3"] by simp
  with assms show ?thesis
    by (auto simp: preface_decode_def MAX_PREFACE_LEN_def MAX_HOST_LEN_def Let_def
             split: list.splits if_splits)
qed

lemma split_at_header:
  assumes "4 + n + 2 \<le> length buf"
  shows "buf = [buf ! 0, buf ! 1, buf ! 2, buf ! 3] @ take n (drop 4 buf)
    @ [buf ! (4 + n), buf ! (5 + n)] @ drop (6 + n) buf"
proof -
  from assms obtain b0 b1 b2 b3 r where buf: "buf = b0 # b1 # b2 # b3 # r"
    by (auto simp: Suc_le_length_iff numeral_eq_Suc)
  with assms have "drop n r = r ! n # r ! Suc n # drop (Suc (Suc n)) r"
    by (simp add: Cons_nth_drop_Suc)
  then have "take n r @ r ! n # r ! Suc n # drop (Suc (Suc n)) r = r"
    by (metis append_take_drop_id)
  then show ?thesis by (simp add: buf numeral_eq_Suc)
qed

lemma preface_decode_Some:
  assumes "preface_decode buf = Inr (Some (p, n))"
  shows "\<exists>p0 rest. preface_ok p0 \<and> buf = preface_bytes p0 @ rest \<and> p = preface_canon p0 \<and>
    n = length (preface_bytes p0)"
proof -
  let ?n = "unat (buf ! 3)"
  have len: "4 \<le> length buf" and hd: "buf ! 0 = PREFACE_MAGIC" "buf ! 1 = PREFACE_VERSION"
    and n0: "0 < ?n"
    using assms by (auto simp: preface_decode_def is_l4_preface_def Let_def
                         split: list.splits if_splits)
  obtain q where q: "buf ! 2 = l4_proto_as_byte q"
    using assms by (auto simp: preface_decode_def Let_def l4_proto_from_byte_Some
                         split: list.splits if_splits)
  note body = preface_decode_body [OF len hd q refl n0]
  let ?port = "of_be16 (buf ! (4 + ?n)) (buf ! (5 + ?n))"
  from assms obtain host where host: "from_utf8 (take ?n (drop 4 buf)) = Some host"
    and vh: "is_valid_host host" and port: "?port \<noteq> 0" and tot: "4 + ?n + 2 \<le> length buf"
    and p: "p = \<lparr>pf_proto = q, pf_host = to_ascii_lowercase host, pf_port = ?port\<rparr>"
    and n: "n = 4 + ?n + 2"
    by (auto simp: body split: if_splits)
  define p0 where "p0 = \<lparr>pf_proto = q, pf_host = host, pf_port = ?port\<rparr>"
  from host have hb: "take ?n (drop 4 buf) = as_bytes host"
    by (simp add: from_utf8_Some)
  from hb tot have hl: "length host = ?n"
    by (metis (no_types) add.commute add_le_imp_le_diff add_leD1 length_as_bytes length_drop
        length_take min.absorb2)
  have "buf = preface_bytes p0 @ drop (6 + ?n) buf"
    by (subst split_at_header [OF tot])
      (simp add: preface_bytes_def p0_def hd [simplified] q hb hl be16_of_be16)
  moreover have "preface_ok p0"
    using vh port by (simp add: preface_ok_def p0_def)
  moreover have "p = preface_canon p0"
    by (simp add: p preface_canon_def p0_def)
  moreover have "n = length (preface_bytes p0)"
    by (simp add: n length_preface_bytes preface_encoded_len_def p0_def hl)
  ultimately show ?thesis by blast
qed

section \<open>Frames\<close>

definition frame_bytes :: "bytes \<Rightarrow> bytes" where
  "frame_bytes payload = be16 (of_nat (length payload)) @ payload"

definition frame_result :: "bytes \<Rightarrow> unit + (bytes \<times> nat) option" where
  "frame_result buf =
     Inr (case decode_frame buf of Incomplete \<Rightarrow> None | Ready payload n \<Rightarrow> Some (payload, n))"

lemma encode_frame_to_vec_eq:
  "encode_frame_to_vec payload = Inr bs \<longleftrightarrow> payload_fits_datagram payload \<and> bs = frame_bytes payload"
  by (auto simp: encode_frame_to_vec_def encode_frame_def payload_fits_datagram_def frame_bytes_def)

lemma length_frame_bytes [simp]: "length (frame_bytes payload) = FRAME_HEADER_LEN + length payload"
  by (simp add: frame_bytes_def FRAME_HEADER_LEN_def)

lemma frame_len_field:
  assumes "length payload < 65536" and "2 \<le> length buf" and "prefix buf (frame_bytes payload @ rest)"
  shows "unat (of_be16 (buf ! 0) (buf ! 1)) = length payload"
proof -
  have "buf ! i = (frame_bytes payload @ rest) ! i" if "i < 2" for i
    using assms(2,3) that by (intro prefix_nth_eq) auto
  from this [of 0] this [of 1]
  have "of_be16 (buf ! 0) (buf ! 1) = of_nat (length payload)"
    by (simp add: frame_bytes_def be16_def codec_simps)
  with assms(1) show ?thesis by (simp add: unat_of_nat)
qed

lemma decode_frame_arrival:
  assumes "length payload < 65536" and "prefix buf (frame_bytes payload @ rest)"
  shows "decode_frame buf =
    (if length buf < FRAME_HEADER_LEN + length payload then Incomplete
     else Ready payload (FRAME_HEADER_LEN + length payload))"
proof (cases "length buf < 2")
  case True
  then show ?thesis by (simp add: decode_frame_def FRAME_HEADER_LEN_def)
next
  case False
  with assms have len: "unat (of_be16 (buf ! 0) (buf ! 1)) = length payload"
    by (intro frame_len_field) auto
  have "take (length payload) (drop 2 buf) = payload" if "2 + length payload \<le> length buf"
  proof -
    from assms(2) obtain s where s: "frame_bytes payload @ rest = buf @ s"
      by (auto simp: prefix_def)
    have "take (length payload) (drop 2 (buf @ s)) = payload"
      by (simp add: frame_bytes_def flip: s)
    with that show ?thesis by simp
  qed
  with False len show ?thesis
    by (simp add: decode_frame_def FRAME_HEADER_LEN_def Let_def)
qed

interpretation udp_framing:
  stream_framing frame_bytes frame_result "\<lambda>payload. payload" "\<lambda>payload. length payload < 65536"
proof (unfold_locales, goal_cases)
  case (1 payload rest)
  then show ?case
    by (simp add: frame_result_def decode_frame_arrival [where rest = rest])
next
  case (2 payload buf)
  from 2(2) have "prefix buf (frame_bytes payload @ [])" and "length buf < length (frame_bytes payload)"
    by (rule strict_prefix_append, rule prefix_length_less)
  with 2(1) show ?case
    by (simp add: frame_result_def decode_frame_arrival [where rest = "[]"])
qed

lemma decode_frame_Ready:
  assumes "decode_frame buf = Ready payload n"
  shows "n = FRAME_HEADER_LEN + length payload \<and> n \<le> length buf \<and> length payload < 65536 \<and>
    buf = frame_bytes payload @ drop n buf"
proof -
  let ?len = "unat (of_be16 (buf ! 0) (buf ! 1))"
  have len: "2 + ?len \<le> length buf" and n: "n = 2 + ?len" and p: "payload = take ?len (drop 2 buf)"
    using assms by (auto simp: decode_frame_def FRAME_HEADER_LEN_def Let_def split: if_splits)
  from len obtain b0 b1 r where buf: "buf = b0 # b1 # r" and r: "?len \<le> length r"
    by (auto simp: Suc_le_length_iff)
  have lp: "length payload = ?len"
    using len p by simp
  have "?len < 65536"
    using unsigned_less [of "of_be16 (buf ! 0) (buf ! 1)"] by simp
  moreover have "be16 (of_nat (length payload)) = [b0, b1]"
    by (simp add: lp buf be16_of_be16)
  moreover have "r = payload @ drop ?len r"
    by (simp add: p buf)
  ultimately show ?thesis
    using len by (simp add: n lp frame_bytes_def FRAME_HEADER_LEN_def buf)
qed

section \<open>Properties\<close>

text \<open>
  A preface that encodes is decoded from the front of whatever follows it, to the same
  protocol and port and to the host in lower case, with exactly the bytes the encoder
  wrote reported as consumed; every strict prefix of it asks for more bytes, and its length is
  within the bound the server reads with.
\<close>

theorem preface_round_trip:
  assumes "preface_to_bytes p = Inr bs"
  shows "preface_decode (bs @ rest) =
      Inr (Some (p\<lparr>pf_host := to_ascii_lowercase (pf_host p)\<rparr>, length bs)) \<and>
    (strict_prefix part bs \<longrightarrow> preface_decode part = Inr None) \<and>
    length bs = preface_encoded_len p \<and> length bs \<le> MAX_PREFACE_LEN"
proof -
  have ok: "preface_ok p" and bs: "bs = preface_bytes p"
    using assms by (simp_all add: preface_to_bytes_eq)
  have "length bs \<le> MAX_PREFACE_LEN"
    using ok by (simp add: bs length_preface_bytes preface_encoded_len_def preface_ok_def
        is_valid_host_def MAX_PREFACE_LEN_def)
  with ok show ?thesis
    by (simp add: bs preface_framing.dec_complete preface_framing.dec_incomplete
        length_preface_bytes preface_canon_def)
qed

theorem preface_round_trip_witness:
  "preface_to_bytes \<lparr>pf_proto = Tcp, pf_host = ''DB.x'', pf_port = 5432\<rparr> =
     Inr [5, 1, 1, 4, 0x44, 0x42, 0x2E, 0x78, 0x15, 0x38] \<and>
   preface_decode ([5, 1, 1, 4, 0x44, 0x42, 0x2E, 0x78, 0x15, 0x38] @ [0x53]) =
     Inr (Some (\<lparr>pf_proto = Tcp, pf_host = ''db.x'', pf_port = 5432\<rparr>, 10)) \<and>
   preface_decode [5, 1, 1, 4, 0x44] = Inr None"
proof -
  let ?p = "\<lparr>pf_proto = Tcp, pf_host = ''DB.x'', pf_port = 5432\<rparr>"
    and ?bs = "[5, 1, 1, 4, 0x44, 0x42, 0x2E, 0x78, 0x15, 0x38] :: bytes"
  have enc: "preface_to_bytes ?p = Inr ?bs"
    by code_simp
  have low: "to_ascii_lowercase ''DB.x'' = ''db.x''"
    by code_simp
  have cut: "strict_prefix [5, 1, 1, 4, 0x44] ?bs"
    by (simp add: strict_prefix_def)
  show ?thesis
    using preface_round_trip [OF enc, of "[0x53]" "[5, 1, 1, 4, 0x44]"] enc low cut by simp
qed

text \<open>
  The decoder accepts nothing but encodings. When it reports a preface of \<open>n\<close> bytes,
  those bytes are what the encoder writes for some preface with the same protocol and port,
  the reported host is that host in lower case and is itself a valid host, and the port is not
  zero.
\<close>

theorem preface_decode_sound:
  assumes "preface_decode buf = Inr (Some (p, n))"
  shows "(\<exists>h. preface_to_bytes (p\<lparr>pf_host := h\<rparr>) = Inr (take n buf) \<and> pf_host p = to_ascii_lowercase h) \<and>
    n \<le> length buf \<and> n \<le> MAX_PREFACE_LEN \<and> is_valid_host (pf_host p) \<and> pf_port p \<noteq> 0"
proof -
  obtain p0 rest where ok: "preface_ok p0" and buf: "buf = preface_bytes p0 @ rest"
    and p: "p = preface_canon p0" and n: "n = length (preface_bytes p0)"
    using preface_decode_Some [OF assms] by blast
  have "p\<lparr>pf_host := pf_host p0\<rparr> = p0"
    by (simp add: p preface_canon_def)
  with ok have "preface_to_bytes (p\<lparr>pf_host := pf_host p0\<rparr>) = Inr (take n buf)"
    by (simp add: preface_to_bytes_eq n buf)
  moreover have "pf_host p = to_ascii_lowercase (pf_host p0)" "pf_port p \<noteq> 0" "n \<le> length buf"
    using ok by (simp_all add: p preface_canon_def preface_ok_def buf n)
  moreover have "is_valid_host (pf_host p)"
    using ok by (simp add: p preface_canon_def preface_ok_def valid_host_lower)
  moreover have "n \<le> MAX_PREFACE_LEN"
    using ok by (simp add: n length_preface_bytes preface_encoded_len_def preface_ok_def
        is_valid_host_def MAX_PREFACE_LEN_def)
  ultimately show ?thesis
    by blast
qed

theorem preface_decode_sound_witness:
  "preface_decode [5, 1, 2, 1, 0x41, 0, 9, 7] =
     Inr (Some (\<lparr>pf_proto = Udp, pf_host = ''a'', pf_port = 9\<rparr>, 7)) \<and>
   is_valid_host ''a''"
proof -
  have dec: "preface_decode [5, 1, 2, 1, 0x41, 0, 9, 7] =
      Inr (Some (\<lparr>pf_proto = Udp, pf_host = ''a'', pf_port = 9\<rparr>, 7))"
    by code_simp
  then show ?thesis
    using preface_decode_sound [OF dec] by simp
qed

end
