(* ===== verification/Nexa_Tls.thy ===== *)
theory Nexa_Tls
  imports Nexa_Prelude
begin

text \<open>
  The name inside a TLS \<open>ClientHello\<close>, \<open>crates/nexapipe-proto/src/tls.rs\<close>: the
  bounds-checked \<open>Cursor\<close> and the parser that walks the record with it. The
  specification it is compared with reads the same name off an abstract hello.
\<close>

section \<open>The cursor\<close>

record cursor =
  cur_data :: bytes
  cur_pos :: nat

definition cur_new :: "bytes \<Rightarrow> cursor" where
  "cur_new data = \<lparr>cur_data = data, cur_pos = 0\<rparr>"

definition cur_u8 :: "cursor \<Rightarrow> (u8 \<times> cursor) option" where
  "cur_u8 c =
     (if cur_pos c < length (cur_data c)
      then Some (cur_data c ! cur_pos c, c\<lparr>cur_pos := cur_pos c + 1\<rparr>)
      else None)"

definition cur_u16 :: "cursor \<Rightarrow> (u16 \<times> cursor) option" where
  "cur_u16 c = do {
     (high, c) \<leftarrow> cur_u8 c;
     (low, c) \<leftarrow> cur_u8 c;
     Some (push_bit 8 (ucast high) OR ucast low, c)
   }"

definition cur_take :: "nat \<Rightarrow> cursor \<Rightarrow> (bytes \<times> cursor) option" where
  "cur_take len c =
     (let end = cur_pos c + len in
      if end \<le> length (cur_data c)
      then Some (take len (drop (cur_pos c) (cur_data c)), c\<lparr>cur_pos := end\<rparr>)
      else None)"

definition cur_skip :: "nat \<Rightarrow> cursor \<Rightarrow> cursor option" where
  "cur_skip len c = map_option snd (cur_take len c)"

definition cur_remaining :: "cursor \<Rightarrow> nat" where
  "cur_remaining c = length (cur_data c) - cur_pos c"

lemma cur_u8_progress: "cur_u8 c = Some (v, c') \<Longrightarrow> cur_remaining c' < cur_remaining c"
  by (auto simp: cur_u8_def cur_remaining_def split: if_splits)

lemma cur_u16_progress: "cur_u16 c = Some (v, c') \<Longrightarrow> cur_remaining c' < cur_remaining c"
  by (auto simp: cur_u16_def bind_eq_Some_conv dest!: cur_u8_progress)

lemma cur_take_progress: "cur_take n c = Some (v, c') \<Longrightarrow> cur_remaining c' \<le> cur_remaining c"
  by (auto simp: cur_take_def cur_remaining_def Let_def split: if_splits)

lemmas cur_progress = cur_u8_progress cur_u16_progress cur_take_progress

section \<open>The parser\<close>

definition TLS_HANDSHAKE :: u8 where "TLS_HANDSHAKE = 0x16"
definition HANDSHAKE_CLIENT_HELLO :: u8 where "HANDSHAKE_CLIENT_HELLO = 0x01"
definition EXT_SERVER_NAME :: u16 where "EXT_SERVER_NAME = 0x0000"
definition NAME_TYPE_HOST :: u8 where "NAME_TYPE_HOST = 0x00"
definition MAX_HOST_NAME_LEN :: nat where "MAX_HOST_NAME_LEN = 253"

definition is_tls_handshake :: "u8 \<Rightarrow> bool" where
  "is_tls_handshake first_byte \<longleftrightarrow> first_byte = TLS_HANDSHAKE"

definition is_presentable_host_name :: "string \<Rightarrow> bool" where
  "is_presentable_host_name name \<longleftrightarrow>
     name \<noteq> [] \<and> length name \<le> MAX_HOST_NAME_LEN \<and>
     list_all (\<lambda>b. 0x21 \<le> b \<and> b \<le> 0x7E) (as_bytes name)"

text \<open>How a loop over a list ends: the function returns, or the list is used up.\<close>

datatype sni_flow = Return "string option" | FellThrough

function sni_names :: "cursor \<Rightarrow> sni_flow" where
  "sni_names list =
     (if 3 \<le> cur_remaining list then
        (case cur_u8 list of
           None \<Rightarrow> Return None
         | Some (name_type, list1) \<Rightarrow>
        (case cur_u16 list1 of
           None \<Rightarrow> Return None
         | Some (name_len, list2) \<Rightarrow>
        (case cur_take (unat name_len) list2 of
           None \<Rightarrow> Return None
         | Some (name, list3) \<Rightarrow>
             if name_type \<noteq> NAME_TYPE_HOST then sni_names list3
             else Return (case from_utf8 name of
                            None \<Rightarrow> None
                          | Some n \<Rightarrow> if is_presentable_host_name n then Some n else None))))
      else FellThrough)"
  by pat_completeness auto
termination
  by (relation "measure cur_remaining") (auto dest!: cur_progress)

declare sni_names.simps [simp del]

function sni_extensions :: "cursor \<Rightarrow> string option" where
  "sni_extensions extensions =
     (if 4 \<le> cur_remaining extensions then
        (case cur_u16 extensions of
           None \<Rightarrow> None
         | Some (ext_type, extensions1) \<Rightarrow>
        (case cur_u16 extensions1 of
           None \<Rightarrow> None
         | Some (ext_len, extensions2) \<Rightarrow>
        (case cur_take (unat ext_len) extensions2 of
           None \<Rightarrow> None
         | Some (ext_data, extensions3) \<Rightarrow>
             if ext_type = EXT_SERVER_NAME then
               (case cur_skip 2 (cur_new ext_data) of
                  None \<Rightarrow> None
                | Some list \<Rightarrow>
                    (case sni_names list of
                       Return r \<Rightarrow> r
                     | FellThrough \<Rightarrow> sni_extensions extensions3))
             else sni_extensions extensions3)))
      else None)"
  by pat_completeness auto
termination
  by (relation "measure cur_remaining") (auto dest!: cur_progress)

declare sni_extensions.simps [simp del]

definition sni_record :: "bytes \<Rightarrow> string option" where
  "sni_record bytes = do {
     record \<leftarrow> cur_skip 5 (cur_new bytes);
     (msg_type, record) \<leftarrow> cur_u8 record;
     if msg_type \<noteq> HANDSHAKE_CLIENT_HELLO then None
     else do {
       record \<leftarrow> cur_skip 3 record;
       record \<leftarrow> cur_skip 2 record;
       record \<leftarrow> cur_skip 32 record;
       (session_id_len, record) \<leftarrow> cur_u8 record;
       record \<leftarrow> cur_skip (unat session_id_len) record;
       (cipher_suites_len, record) \<leftarrow> cur_u16 record;
       record \<leftarrow> cur_skip (unat cipher_suites_len) record;
       (compression_len, record) \<leftarrow> cur_u8 record;
       record \<leftarrow> cur_skip (unat compression_len) record;
       (extensions_len, record) \<leftarrow> cur_u16 record;
       (extensions, record) \<leftarrow> cur_take (unat extensions_len) record;
       sni_extensions (cur_new extensions)
     }
   }"

definition extract_sni :: "bytes \<Rightarrow> string option" where
  "extract_sni data = do {
     (content_type, header) \<leftarrow> cur_u8 (cur_new data);
     if content_type \<noteq> TLS_HANDSHAKE then None
     else do {
       header \<leftarrow> cur_skip 2 header;
       (record_len, header) \<leftarrow> cur_u16 header;
       let record_end = 5 + unat record_len in
       if length data < record_end then None
       else sni_record (take record_end data)
     }
   }"

section \<open>The cursor at a position\<close>

definition cur_at :: "bytes \<Rightarrow> bytes \<Rightarrow> cursor" where
  "cur_at done todo = \<lparr>cur_data = done @ todo, cur_pos = length done\<rparr>"

lemma cur_new_at: "cur_new bs = cur_at [] bs"
  by (simp add: cur_new_def cur_at_def)

lemma cur_u8_at [codec_simps]:
  "cur_u8 (cur_at d []) = None"
  "cur_u8 (cur_at d (b # bs)) = Some (b, cur_at (d @ [b]) bs)"
  by (simp_all add: cur_u8_def cur_at_def)

lemma cur_u16_at [codec_simps]:
  "cur_u16 (cur_at d (h # l # bs)) = Some (of_be16 h l, cur_at (d @ [h, l]) bs)"
  by (simp add: cur_u16_def cur_u8_at of_be16_def)

lemma cur_u16_at_None [codec_simps]:
  "cur_u16 (cur_at d []) = None" "cur_u16 (cur_at d [b]) = None"
  by (simp_all add: cur_u16_def cur_u8_at)

lemma cur_take_at [codec_simps]:
  "cur_take n (cur_at d bs) =
     (if n \<le> length bs then Some (take n bs, cur_at (d @ take n bs) (drop n bs)) else None)"
  by (simp add: cur_take_def cur_at_def Let_def)

lemma cur_skip_at [codec_simps]:
  "cur_skip n (cur_at d bs) = (if n \<le> length bs then Some (cur_at (d @ take n bs) (drop n bs)) else None)"
  by (simp add: cur_skip_def cur_take_at)

lemma cur_remaining_at [codec_simps]: "cur_remaining (cur_at d bs) = length bs"
  by (simp add: cur_remaining_def cur_at_def)

section \<open>What a reported name is\<close>

lemma cur_u8_data: "cur_u8 c = Some (v, c') \<Longrightarrow> cur_data c' = cur_data c"
  by (auto simp: cur_u8_def split: if_splits)

lemma cur_u16_data: "cur_u16 c = Some (v, c') \<Longrightarrow> cur_data c' = cur_data c"
  by (auto simp: cur_u16_def bind_eq_Some_conv dest!: cur_u8_data)

lemma cur_take_data:
  "cur_take n c = Some (v, c') \<Longrightarrow> cur_data c' = cur_data c \<and> sublist v (cur_data c)"
  by (auto simp: cur_take_def Let_def sublist_slice split: if_splits)

lemma cur_skip_data: "cur_skip n c = Some c' \<Longrightarrow> cur_data c' = cur_data c"
  by (auto simp: cur_skip_def dest!: cur_take_data)

lemmas cur_data_simps = cur_u8_data cur_u16_data cur_take_data cur_skip_data

lemma sni_names_sound:
  "sni_names list = Return (Some n) \<Longrightarrow>
     is_presentable_host_name n \<and> sublist (as_bytes n) (cur_data list)"
proof (induction list rule: sni_names.induct)
  case (1 list)
  from "1.prems" obtain t l1 len l2 name l3 where
    c: "cur_u8 list = Some (t, l1)" "cur_u16 l1 = Some (len, l2)"
       "cur_take (unat len) l2 = Some (name, l3)" and r: "3 \<le> cur_remaining list"
    and res: "(if t \<noteq> NAME_TYPE_HOST then sni_names l3
      else Return (case from_utf8 name of None \<Rightarrow> None
        | Some n \<Rightarrow> if is_presentable_host_name n then Some n else None)) = Return (Some n)"
    by (subst (asm) sni_names.simps) (auto split: if_splits option.splits)
  have d: "cur_data l3 = cur_data list" "sublist name (cur_data list)"
    using cur_u8_data [OF c(1)] cur_u16_data [OF c(2)] cur_take_data [OF c(3)] by auto
  show ?case
  proof (cases "t = NAME_TYPE_HOST")
    case True
    with res d(2) show ?thesis
      by (auto simp: from_utf8_Some split: option.splits if_splits)
  next
    case False
    with "1.IH" [OF r c(1) refl c(2) refl c(3) refl False] res d show ?thesis
      by simp
  qed
qed

lemma sni_extensions_sound:
  "sni_extensions e = Some n \<Longrightarrow>
     is_presentable_host_name n \<and> sublist (as_bytes n) (cur_data e)"
proof (induction e rule: sni_extensions.induct)
  case (1 e)
  from "1.prems" obtain t e1 len e2 ext e3 where
    c: "cur_u16 e = Some (t, e1)" "cur_u16 e1 = Some (len, e2)"
       "cur_take (unat len) e2 = Some (ext, e3)" and r: "4 \<le> cur_remaining e"
    and res: "(if t = EXT_SERVER_NAME then
               (case cur_skip 2 (cur_new ext) of
                  None \<Rightarrow> None
                | Some list \<Rightarrow>
                    (case sni_names list of
                       Return r \<Rightarrow> r
                     | FellThrough \<Rightarrow> sni_extensions e3))
             else sni_extensions e3) = Some n"
    by (subst (asm) sni_extensions.simps) (simp split: if_splits option.splits prod.splits)
  have d: "cur_data e3 = cur_data e" "sublist ext (cur_data e)"
    using cur_u16_data [OF c(1)] cur_u16_data [OF c(2)] cur_take_data [OF c(3)] by auto
  show ?case
  proof (cases "t = EXT_SERVER_NAME")
    case False
    with "1.IH"(2) [OF r c(1) refl c(2) refl c(3) refl False] res d show ?thesis
      by simp
  next
    case True
    with res obtain l where l: "cur_skip 2 (cur_new ext) = Some l"
      and res': "(case sni_names l of Return r \<Rightarrow> r | FellThrough \<Rightarrow> sni_extensions e3) = Some n"
      by (auto split: option.splits)
    have dl: "cur_data l = ext"
      using cur_skip_data [OF l] by (simp add: cur_new_def)
    show ?thesis
    proof (cases "sni_names l")
      case (Return r)
      with res' sni_names_sound [of l n] d(2) dl show ?thesis
        by (auto intro: sublist_order.order_trans)
    next
      case FellThrough
      with "1.IH"(1) [OF r c(1) refl c(2) refl c(3) refl True l FellThrough] res' d show ?thesis
        by simp
    qed
  qed
qed

lemma sni_record_sound:
  assumes "sni_record bs = Some n"
  shows "is_presentable_host_name n \<and> sublist (as_bytes n) bs"
proof -
  from assms obtain ext where "sublist ext bs" and "sni_extensions (cur_new ext) = Some n"
    by (auto simp: sni_record_def bind_eq_Some_conv cur_new_def
             dest!: cur_data_simps split: if_splits)
  with sni_extensions_sound show ?thesis
    by (fastforce simp: cur_new_def intro: sublist_order.order_trans)
qed

section \<open>What the parser looks at\<close>

lemma extract_sni_record:
  "extract_sni data =
     (if 5 \<le> length data \<and> data ! 0 = TLS_HANDSHAKE \<and>
         5 + unat (of_be16 (data ! 3) (data ! 4)) \<le> length data
      then sni_record (take (5 + unat (of_be16 (data ! 3) (data ! 4))) data)
      else None)"
proof -
  consider (short) "length data < 5" | (long) a b c d e r where "data = a # b # c # d # e # r"
    by (cases "length data < 5") (auto simp: not_less Suc_le_length_iff numeral_eq_Suc)
  then show ?thesis
  proof cases
    case short
    then consider "data = []" | a where "data = [a]" | a b where "data = [a, b]"
      | a b c where "data = [a, b, c]" | a b c d where "data = [a, b, c, d]"
      by (cases data rule: remdups_adj.cases; cases "tl (tl data)" rule: remdups_adj.cases)
         (auto simp: numeral_eq_Suc)
    then show ?thesis
      by cases (auto simp: extract_sni_def cur_new_at codec_simps)
  next
    case long
    then show ?thesis
      by (auto simp: extract_sni_def cur_new_at codec_simps Let_def)
  qed
qed

section \<open>An abstract hello\<close>

text \<open>
  What a hello says, before it is bytes. A server-name extension carries the two bytes of list
  length, which the parser steps over, and a list of typed names; an extension of any other
  type carries bytes.
\<close>

datatype hello_item = ServerName bytes "(u8 \<times> bytes) list" | OtherExt u16 bytes

record hello =
  h_record_version :: bytes
  h_msg_len :: bytes
  h_client_version :: bytes
  h_random :: bytes
  h_session_id :: bytes
  h_cipher_suites :: bytes
  h_compression :: bytes
  h_extensions :: "hello_item list"

definition vec16 :: "bytes \<Rightarrow> bytes" where
  "vec16 bs = be16 (of_nat (length bs)) @ bs"

definition name_bytes :: "u8 \<times> bytes \<Rightarrow> bytes" where
  "name_bytes n = fst n # vec16 (snd n)"

fun ext_payload :: "hello_item \<Rightarrow> bytes" where
  "ext_payload (ServerName ll ns) = ll @ concat (map name_bytes ns)"
| "ext_payload (OtherExt t d) = d"

fun ext_type_of :: "hello_item \<Rightarrow> u16" where
  "ext_type_of (ServerName ll ns) = EXT_SERVER_NAME"
| "ext_type_of (OtherExt t d) = t"

definition ext_bytes :: "hello_item \<Rightarrow> bytes" where
  "ext_bytes e = be16 (ext_type_of e) @ vec16 (ext_payload e)"

definition hello_body :: "hello \<Rightarrow> bytes" where
  "hello_body h =
     HANDSHAKE_CLIENT_HELLO # h_msg_len h @ h_client_version h @ h_random h @
     of_nat (length (h_session_id h)) # h_session_id h @ vec16 (h_cipher_suites h) @
     of_nat (length (h_compression h)) # h_compression h @
     vec16 (concat (map ext_bytes (h_extensions h)))"

definition hello_bytes :: "hello \<Rightarrow> bytes" where
  "hello_bytes h = TLS_HANDSHAKE # h_record_version h @ vec16 (hello_body h)"

fun ext_wf :: "hello_item \<Rightarrow> bool" where
  "ext_wf (ServerName ll ns) \<longleftrightarrow>
     length ll = 2 \<and> list_all (\<lambda>n. length (snd n) < 65536) ns \<and>
     length (ext_payload (ServerName ll ns)) < 65536"
| "ext_wf (OtherExt t d) \<longleftrightarrow> t \<noteq> EXT_SERVER_NAME \<and> length d < 65536"

definition hello_wf :: "hello \<Rightarrow> bool" where
  "hello_wf h \<longleftrightarrow>
     length (h_record_version h) = 2 \<and> length (h_msg_len h) = 3 \<and>
     length (h_client_version h) = 2 \<and> length (h_random h) = 32 \<and>
     length (h_session_id h) < 256 \<and> length (h_cipher_suites h) < 65536 \<and>
     length (h_compression h) < 256 \<and> length (concat (map ext_bytes (h_extensions h))) < 65536 \<and>
     list_all ext_wf (h_extensions h) \<and> length (hello_body h) < 65536"

text \<open>The name a hello asks for: the first host name of its server-name extensions, if it is one.\<close>

definition presentable_name :: "bytes \<Rightarrow> string option" where
  "presentable_name bs =
     (case from_utf8 bs of
        None \<Rightarrow> None
      | Some n \<Rightarrow> if is_presentable_host_name n then Some n else None)"

fun hello_host_names :: "hello_item \<Rightarrow> bytes list" where
  "hello_host_names (ServerName ll ns) = map snd (filter (\<lambda>n. fst n = NAME_TYPE_HOST) ns)"
| "hello_host_names (OtherExt t d) = []"

definition hello_sni :: "hello \<Rightarrow> string option" where
  "hello_sni h =
     (case concat (map hello_host_names (h_extensions h)) of
        [] \<Rightarrow> None
      | n # _ \<Rightarrow> presentable_name n)"

lemma unat_of_nat16: "n < 65536 \<Longrightarrow> unat (of_nat n :: u16) = n"
  by (simp add: unat_of_nat)

lemma unat_of_nat8: "n < 256 \<Longrightarrow> unat (of_nat n :: u8) = n"
  by (simp add: unat_of_nat)

lemma cur_u16_be16 [codec_simps]: "cur_u16 (cur_at d (be16 w @ bs)) = Some (w, cur_at (d @ be16 w) bs)"
  by (simp add: be16_def cur_u16_at of_be16_be16)

lemma sni_names_step:
  assumes "length (snd n) < 65536"
  shows "sni_names (cur_at d (name_bytes n @ bs)) =
    (if fst n = NAME_TYPE_HOST then Return (presentable_name (snd n))
     else sni_names (cur_at (d @ name_bytes n) bs))"
  using assms
  by (subst sni_names.simps)
     (simp add: codec_simps name_bytes_def vec16_def unat_of_nat16 presentable_name_def)

lemma sni_names_spec:
  assumes "list_all (\<lambda>n. length (snd n) < 65536) ns"
  shows "sni_names (cur_at d (concat (map name_bytes ns))) =
    (case map snd (filter (\<lambda>n. fst n = NAME_TYPE_HOST) ns) of
       [] \<Rightarrow> FellThrough
     | n # _ \<Rightarrow> Return (presentable_name n))"
  using assms
proof (induction ns arbitrary: d)
  case Nil
  then show ?case by (subst sni_names.simps) (simp add: codec_simps)
next
  case (Cons n ns)
  then show ?case by (simp add: sni_names_step)
qed

lemma sni_extensions_step:
  assumes "length p < 65536"
  shows "sni_extensions (cur_at d (be16 t @ vec16 p @ bs)) =
    (if t = EXT_SERVER_NAME then
       (case cur_skip 2 (cur_at [] p) of
          None \<Rightarrow> None
        | Some list \<Rightarrow>
            (case sni_names list of
               Return r \<Rightarrow> r
             | FellThrough \<Rightarrow> sni_extensions (cur_at (d @ be16 t @ vec16 p) bs)))
     else sni_extensions (cur_at (d @ be16 t @ vec16 p) bs))"
  using assms
  by (subst sni_extensions.simps)
     (simp add: codec_simps vec16_def unat_of_nat16 cur_new_at cong: if_cong split: sni_flow.split)

lemma sni_extensions_spec:
  assumes "list_all ext_wf es"
  shows "sni_extensions (cur_at d (concat (map ext_bytes es))) =
    (case concat (map hello_host_names es) of [] \<Rightarrow> None | n # _ \<Rightarrow> presentable_name n)"
  using assms
proof (induction es arbitrary: d)
  case Nil
  then show ?case by (subst sni_extensions.simps) (simp add: codec_simps)
next
  case (Cons e es)
  have len: "length (ext_payload e) < 65536"
    using Cons.prems by (cases e) auto
  show ?case
  proof (cases e)
    case (ServerName ll ns)
    with Cons.prems have "cur_skip 2 (cur_at [] (ext_payload e)) =
        Some (cur_at ll (concat (map name_bytes ns)))"
      and ns: "list_all (\<lambda>n. length (snd n) < 65536) ns"
      by (simp_all add: codec_simps)
    with Cons ServerName len show ?thesis
      by (cases "map snd (filter (\<lambda>n. fst n = NAME_TYPE_HOST) ns)")
         (simp_all add: ext_bytes_def sni_extensions_step sni_names_spec [OF ns])
  next
    case (OtherExt t bs)
    with Cons len show ?thesis
      by (simp add: ext_bytes_def sni_extensions_step)
  qed
qed

lemma sni_record_spec:
  assumes wf: "hello_wf h"
  shows "sni_record (hello_bytes h) = hello_sni h"
proof -
  have skip: "cur_skip n (cur_at d (xs @ ys)) = Some (cur_at (d @ xs) ys)" if "length xs = n" for n d xs ys
    using that by (simp add: codec_simps)
  have take: "cur_take n (cur_at d xs) = Some (xs, cur_at (d @ xs) [])" if "length xs = n" for n d xs
    using that by (simp add: codec_simps)
  have head: "cur_skip 5 (cur_new (hello_bytes h)) =
      Some (cur_at (TLS_HANDSHAKE # h_record_version h @ be16 (of_nat (length (hello_body h))))
             (hello_body h))"
    using wf skip [of "TLS_HANDSHAKE # h_record_version h @ be16 (of_nat (length (hello_body h)))" 5 "[]"]
    by (simp add: cur_new_at hello_bytes_def vec16_def hello_wf_def)
  define es where "es = concat (map ext_bytes (h_extensions h))"
  have "sni_extensions (cur_at [] es) = hello_sni h"
    using wf by (simp add: es_def hello_wf_def hello_sni_def sni_extensions_spec)
  then show ?thesis
    using wf
    by (simp add: sni_record_def head)
       (simp add: hello_body_def vec16_def skip take cur_u8_at cur_u16_be16 unat_of_nat8
          unat_of_nat16 hello_wf_def cur_new_at flip: es_def)
qed

lemma extract_sni_hello_bytes:
  assumes "hello_wf h"
  shows "extract_sni (hello_bytes h @ rest) = hello_sni h"
proof -
  let ?b = "hello_body h"
  from assms have "length ?b < 65536" "length (h_record_version h) = 2"
    by (simp_all add: hello_wf_def)
  then obtain v0 v1 where v: "h_record_version h = [v0, v1]"
    by (auto simp: numeral_2_eq_2 length_Suc_conv)
  have len: "unat (of_be16 ((hello_bytes h @ rest) ! 3) ((hello_bytes h @ rest) ! 4)) = length ?b"
    using \<open>length ?b < 65536\<close>
    by (simp add: hello_bytes_def v vec16_def be16_def of_be16_be16 unat_of_nat16)
  have tk: "take (5 + length ?b) (hello_bytes h @ rest) = hello_bytes h"
    and "5 + length ?b \<le> length (hello_bytes h @ rest)"
    and "(hello_bytes h @ rest) ! 0 = TLS_HANDSHAKE"
    by (simp_all add: hello_bytes_def v vec16_def eval_nat_numeral)
  then show ?thesis
    by (simp only: extract_sni_record len tk sni_record_spec [OF assms]) simp
qed

section \<open>Properties\<close>

text \<open>
  C24: the parser reads the name a well-formed hello asks for, whatever follows the record: the first
  host name in its server-name extensions, past entries of other types and other
  extensions, and no name when that one is not presentable.
\<close>

theorem extract_sni_of_hello:
  assumes "hello_wf h"
  shows "extract_sni (hello_bytes h @ rest) = hello_sni h"
  using assms by (rule extract_sni_hello_bytes)

text \<open>
  The answer is about the record alone. Once the record is complete, appending bytes to the buffer
  or cutting it at the end of the record changes nothing, and an incomplete record has no
  name.
\<close>

theorem extract_sni_only_record:
  assumes "5 \<le> length data"
  shows "if 5 + unat (of_be16 (data ! 3) (data ! 4)) \<le> length data
    then extract_sni (data @ rest) = extract_sni data \<and>
      extract_sni (take (5 + unat (of_be16 (data ! 3) (data ! 4))) data) = extract_sni data
    else extract_sni data = None"
proof -
  have nth: "(data @ rest) ! i = data ! i" if "i < 5" for i
    using assms that by (simp add: nth_append)
  show ?thesis
    using assms by (auto simp: extract_sni_record nth)
qed

text \<open>
  A name the parser reports is printable: between 1 and 253 bytes, each of them graphic ASCII, so no
  control character reaches a log line, and it stood in the record as it is reported.
\<close>

theorem extract_sni_presentable:
  assumes "extract_sni data = Some name"
  shows "name \<noteq> [] \<and> length name \<le> 253 \<and> list_all is_ascii_graphic (as_bytes name) \<and>
    sublist (as_bytes name) data"
proof -
  from assms obtain k where "sni_record (take k data) = Some name"
    by (auto simp: extract_sni_record split: if_splits)
  from sni_record_sound [OF this] have "is_presentable_host_name name" "sublist (as_bytes name) (take k data)"
    by auto
  moreover have "sublist (take k data) data"
    by simp
  ultimately show ?thesis
    by (auto simp: is_presentable_host_name_def MAX_HOST_NAME_LEN_def is_ascii_graphic_def
        list_all_iff intro: sublist_order.order_trans)
qed

section \<open>Witnesses\<close>

text \<open>
  A hello whose server-name list has an entry of another type in front of the host name \<open>a.b\<close>,
  behind an extension of another type.
\<close>

definition sample_hello :: hello where
  "sample_hello =
     \<lparr>h_record_version = [3, 1], h_msg_len = [0, 0, 0], h_client_version = [3, 3],
      h_random = replicate 32 7, h_session_id = [1, 2], h_cipher_suites = [0x13, 1],
      h_compression = [0],
      h_extensions = [OtherExt 10 [9], ServerName [0, 0] [(5, [1, 2]), (0, [0x61, 0x2E, 0x62])]]\<rparr>"

lemma sample_hello_wf: "hello_wf sample_hello"
  by (simp add: hello_wf_def sample_hello_def hello_body_def ext_bytes_def name_bytes_def vec16_def
      EXT_SERVER_NAME_def)

lemma sample_hello_sni: "hello_sni sample_hello = Some ''a.b''"
  by code_simp

theorem extract_sni_of_hello_witness:
  "hello_wf sample_hello \<and> extract_sni (hello_bytes sample_hello @ [1, 2, 3]) = Some ''a.b''"
  using sample_hello_wf extract_sni_of_hello [OF sample_hello_wf] by (simp add: sample_hello_sni)

theorem extract_sni_only_record_witness:
  "5 \<le> length ([0x16, 3, 1, 0, 1, 1] :: bytes) \<and>
   extract_sni ([0x16, 3, 1, 0, 1, 1] @ [7]) = extract_sni [0x16, 3, 1, 0, 1, 1]"
  using extract_sni_only_record [of "[0x16, 3, 1, 0, 1, 1]" "[7]"] by (simp add: of_be16_def)

theorem extract_sni_presentable_witness:
  "length ''a.b'' \<le> 253 \<and> list_all is_ascii_graphic (as_bytes ''a.b'')"
proof -
  have "extract_sni (hello_bytes sample_hello) = Some ''a.b''"
    using extract_sni_hello_bytes [OF sample_hello_wf, of "[]"] by (simp add: sample_hello_sni)
  from extract_sni_presentable [OF this] show ?thesis
    by blast
qed

end
