(* ===== verification/Nexa_Alpn.thy ===== *)
theory Nexa_Alpn
  imports Nexa_Prelude
begin

text \<open>
  The protocol a connection carries and the ALPN names that say so,
  \<open>crates/nexapipe-proto/src/alpn.rs\<close> and \<open>crates/nexapipe-proto/src/protocol.rs\<close>.
  The negotiation itself belongs to QUIC and is a parameter of the property.
\<close>

definition ALPN_NEXAPIPE :: bytes where "ALPN_NEXAPIPE = as_bytes ''nexapipe''"
definition ALPN_NEXAPIPE_LEGACY :: bytes where "ALPN_NEXAPIPE_LEGACY = 0x05 # as_bytes ''nexapipe''"
definition ALPN_NEXAPIPE_ALL :: "bytes list" where
  "ALPN_NEXAPIPE_ALL = [ALPN_NEXAPIPE, ALPN_NEXAPIPE_LEGACY]"

definition ALPN_HTTP :: bytes where "ALPN_HTTP = as_bytes ''nexapipe/http''"
definition ALPN_L4 :: bytes where "ALPN_L4 = as_bytes ''nexapipe/l4''"
definition ALPN_TLS :: bytes where "ALPN_TLS = as_bytes ''nexapipe/tls''"

datatype protocol = PHttp | PL4 | PTls | PLegacy

fun protocol_alpn :: "protocol \<Rightarrow> bytes" where
  "protocol_alpn PHttp = ALPN_HTTP"
| "protocol_alpn PL4 = ALPN_L4"
| "protocol_alpn PTls = ALPN_TLS"
| "protocol_alpn PLegacy = ALPN_NEXAPIPE"

definition protocol_from_alpn :: "bytes \<Rightarrow> protocol option" where
  "protocol_from_alpn alpn =
     (if alpn = ALPN_HTTP then Some PHttp
      else if alpn = ALPN_L4 then Some PL4
      else if alpn = ALPN_TLS then Some PTls
      else if alpn = ALPN_NEXAPIPE then Some PLegacy
      else if alpn = ALPN_NEXAPIPE_LEGACY then Some PLegacy
      else None)"

fun protocol_name :: "protocol \<Rightarrow> string" where
  "protocol_name PHttp = ''http''"
| "protocol_name PL4 = ''l4''"
| "protocol_name PTls = ''tls''"
| "protocol_name PLegacy = ''legacy''"

definition accepted_alpns :: "bytes list" where
  "accepted_alpns = map protocol_alpn [PHttp, PL4, PTls] @ ALPN_NEXAPIPE_ALL"

definition offered_alpns :: "protocol \<Rightarrow> bytes list" where
  "offered_alpns p = protocol_alpn p # filter (\<lambda>alpn. alpn \<noteq> protocol_alpn p) ALPN_NEXAPIPE_ALL"

lemma alpns_differ:
  "distinct [ALPN_HTTP, ALPN_L4, ALPN_TLS, ALPN_NEXAPIPE, ALPN_NEXAPIPE_LEGACY]"
  by code_simp

lemma protocol_alpn_round_trip: "protocol_from_alpn (protocol_alpn p) = Some p"
  using alpns_differ by (cases p) (auto simp: protocol_from_alpn_def)

lemma accepted_alpns_known: "alpn \<in> set accepted_alpns \<longleftrightarrow> protocol_from_alpn alpn \<noteq> None"
  by (auto simp: accepted_alpns_def ALPN_NEXAPIPE_ALL_def protocol_from_alpn_def)

text \<open>
  With a negotiation that picks the first name of the accept side the peer also offers, a client
  that offers the list of a protocol gets that protocol's name, a peer of the older vintage
  gets the generic protocol, and whatever is negotiated names a protocol of this build, while a
  peer that offers none of the accepted names negotiates nothing.
\<close>

theorem alpn_negotiation:
  assumes "\<And>accepted offered. pick accepted offered = List.find (\<lambda>alpn. alpn \<in> set offered) accepted"
  shows "pick accepted_alpns (offered_alpns p) = Some (protocol_alpn p) \<and>
    protocol_from_alpn (protocol_alpn p) = Some p \<and>
    pick accepted_alpns [ALPN_NEXAPIPE_LEGACY] = Some ALPN_NEXAPIPE_LEGACY \<and>
    protocol_from_alpn ALPN_NEXAPIPE_LEGACY = Some PLegacy \<and>
    (pick accepted_alpns offered = None \<longleftrightarrow> (\<forall>alpn \<in> set offered. protocol_from_alpn alpn = None))"
proof -
  note defs = assms accepted_alpns_def offered_alpns_def ALPN_NEXAPIPE_ALL_def
  have "pick accepted_alpns (offered_alpns p) = Some (protocol_alpn p)"
    using alpns_differ by (cases p) (auto simp: defs)
  moreover have "pick accepted_alpns [ALPN_NEXAPIPE_LEGACY] = Some ALPN_NEXAPIPE_LEGACY"
    using alpns_differ by (auto simp: defs)
  moreover have "protocol_from_alpn ALPN_NEXAPIPE_LEGACY = Some PLegacy"
    using alpns_differ by (auto simp: protocol_from_alpn_def)
  moreover have "pick accepted_alpns offered = None \<longleftrightarrow>
      (\<forall>alpn \<in> set offered. protocol_from_alpn alpn = None)"
    using accepted_alpns_known by (auto simp: assms find_None_iff)
  ultimately show ?thesis
    by (simp add: protocol_alpn_round_trip)
qed

theorem alpn_negotiation_witness:
  "List.find (\<lambda>alpn. alpn \<in> set (offered_alpns PTls)) accepted_alpns = Some ALPN_TLS"
  using alpn_negotiation [of "\<lambda>accepted offered. List.find (\<lambda>alpn. alpn \<in> set offered) accepted" PTls]
  by simp

end
