(* ===== verification/Nexa_Auth_Wire.thy ===== *)
theory Nexa_Auth_Wire
  imports Nexa_Prelude
begin

text \<open>
  The messages of the authentication handshake as they travel,
  \<open>crates/nexapipe-proto/src/auth/\<close>: the binary form with its writer and reader
  (\<open>codec.rs\<close>, \<open>message.rs\<close>), the version byte in front of a payload, the identifiers
  that may be printed, the wiping buffer (\<open>mod.rs\<close>) and the bytes a proof covers
  (\<open>challenge.rs\<close>). The JSON form is serde's: its encoder and decoder are parameters.
  Lengths are natural numbers: a \<open>usize\<close> sum of a position inside a buffer and a
  length read from at most four bytes does not overflow.
\<close>

section \<open>Algorithms and forms\<close>

datatype algorithm = Sha1 | Sha256 | Sha512

fun algorithm_name :: "algorithm \<Rightarrow> string" where
  "algorithm_name Sha1 = ''sha1''"
| "algorithm_name Sha256 = ''sha256''"
| "algorithm_name Sha512 = ''sha512''"

definition algorithm_from_name :: "string \<Rightarrow> algorithm option" where
  "algorithm_from_name name =
     (if eq_ignore_ascii_case name ''sha1'' then Some Sha1
      else if eq_ignore_ascii_case name ''sha256'' then Some Sha256
      else if eq_ignore_ascii_case name ''sha512'' then Some Sha512
      else None)"

fun algorithm_to_byte :: "algorithm \<Rightarrow> u8" where
  "algorithm_to_byte Sha1 = 0x01"
| "algorithm_to_byte Sha256 = 0x02"
| "algorithm_to_byte Sha512 = 0x03"

definition algorithm_from_byte :: "u8 \<Rightarrow> algorithm option" where
  "algorithm_from_byte byte =
     (if byte = 0x01 then Some Sha1
      else if byte = 0x02 then Some Sha256
      else if byte = 0x03 then Some Sha512
      else None)"

definition VERSION_JSON :: u8 where "VERSION_JSON = 0x00"
definition VERSION_BINARY :: u8 where "VERSION_BINARY = 0x01"

datatype format = FmtLegacyJson | FmtJson | FmtBinary

fun format_version_byte :: "format \<Rightarrow> u8 option" where
  "format_version_byte FmtLegacyJson = None"
| "format_version_byte FmtJson = Some VERSION_JSON"
| "format_version_byte FmtBinary = Some VERSION_BINARY"

definition format_from_version :: "u8 \<Rightarrow> format option" where
  "format_from_version version =
     (if version = VERSION_JSON then Some FmtJson
      else if version = VERSION_BINARY then Some FmtBinary
      else None)"

text \<open>The texts of \<open>CodecError::Binary\<close>, one constructor each, with what they print.\<close>

datatype binary_fault =
    StringTooLong nat
  | BytesTooLong nat
  | PayloadEnds nat nat
  | StringNotUtf8
  | FlagsWithoutMeaning u8 u8
  | AlgorithmUnknown
  | KindUnknown u8
  | PayloadEmpty

datatype 'j codec_error = CeJson 'j | CeBinary binary_fault

definition MAX_CLIENT_ID_LEN :: nat where "MAX_CLIENT_ID_LEN = 255"
definition MAX_DEVICE_ID_LEN :: nat where "MAX_DEVICE_ID_LEN = 255"

definition is_presentable_id :: "string \<Rightarrow> nat \<Rightarrow> bool" where
  "is_presentable_id i max_len \<longleftrightarrow>
     i \<noteq> [] \<and> length i \<le> max_len \<and> list_all (\<lambda>b. 0x21 \<le> b \<and> b \<le> 0x7E) (as_bytes i)"

definition is_presentable_client_id :: "string \<Rightarrow> bool" where
  "is_presentable_client_id i = is_presentable_id i MAX_CLIENT_ID_LEN"

definition is_presentable_device_id :: "string \<Rightarrow> bool" where
  "is_presentable_device_id i = is_presentable_id i MAX_DEVICE_ID_LEN"

section \<open>The messages\<close>

datatype auth_message =
    AuthStart string i64 "string option" "u8 option"
  | AuthChallenge bytes
  | AuthResponse string i64 string bytes "string option"
  | AuthOk
  | AuthFailed string
  | EnrollStart string string "string option" "string option"
  | EnrollIssue string string algorithm u32 u64 "string option"
  | EnrollFailed string

definition KIND_START :: u8 where "KIND_START = 0x01"
definition KIND_CHALLENGE :: u8 where "KIND_CHALLENGE = 0x02"
definition KIND_RESPONSE :: u8 where "KIND_RESPONSE = 0x03"
definition KIND_OK :: u8 where "KIND_OK = 0x04"
definition KIND_FAILED :: u8 where "KIND_FAILED = 0x05"
definition KIND_ENROLL_START :: u8 where "KIND_ENROLL_START = 0x06"
definition KIND_ENROLL_ISSUE :: u8 where "KIND_ENROLL_ISSUE = 0x07"
definition KIND_ENROLL_FAILED :: u8 where "KIND_ENROLL_FAILED = 0x08"

lemmas kind_defs = KIND_START_def KIND_CHALLENGE_def KIND_RESPONSE_def KIND_OK_def KIND_FAILED_def
  KIND_ENROLL_START_def KIND_ENROLL_ISSUE_def KIND_ENROLL_FAILED_def

definition FLAG_DEVICE_ID :: u8 where "FLAG_DEVICE_ID = 0x01"
definition FLAG_PUBLIC_KEY :: u8 where "FLAG_PUBLIC_KEY = 0x02"
definition FLAG_VERSION :: u8 where "FLAG_VERSION = 0x04"

lemmas flag_defs = FLAG_DEVICE_ID_def FLAG_PUBLIC_KEY_def FLAG_VERSION_def

definition allowed_flags :: "u8 \<Rightarrow> u8" where
  "allowed_flags kind =
     (if kind = KIND_START then FLAG_DEVICE_ID OR FLAG_VERSION
      else if kind = KIND_RESPONSE then FLAG_DEVICE_ID
      else if kind = KIND_ENROLL_START then FLAG_DEVICE_ID OR FLAG_PUBLIC_KEY
      else if kind = KIND_ENROLL_ISSUE then FLAG_DEVICE_ID
      else 0)"

definition announced_version :: "auth_message \<Rightarrow> u8 option" where
  "announced_version m = (case m of AuthStart _ _ _ version \<Rightarrow> version | _ \<Rightarrow> None)"

section \<open>The writer\<close>

definition wr_u8 :: "u8 \<Rightarrow> bytes \<Rightarrow> bytes" where "wr_u8 value out = out @ [value]"
definition wr_u32 :: "u32 \<Rightarrow> bytes \<Rightarrow> bytes" where "wr_u32 value out = out @ le_bytes 4 value"
definition wr_u16 :: "u16 \<Rightarrow> bytes \<Rightarrow> bytes" where "wr_u16 value out = out @ le_bytes 2 value"
definition wr_u64 :: "u64 \<Rightarrow> bytes \<Rightarrow> bytes" where "wr_u64 value out = out @ le_bytes 8 value"
definition wr_i64 :: "i64 \<Rightarrow> bytes \<Rightarrow> bytes" where "wr_i64 value out = out @ le_bytes 8 value"

definition wr_string :: "string \<Rightarrow> bytes \<Rightarrow> binary_fault + bytes" where
  "wr_string value out =
     (if length value < 2 ^ 16
      then Inr (wr_u16 (of_nat (length value)) out @ as_bytes value)
      else Inl (StringTooLong (length value)))"

definition wr_bytes :: "bytes \<Rightarrow> bytes \<Rightarrow> binary_fault + bytes" where
  "wr_bytes value out =
     (if length value < 2 ^ 32
      then Inr (wr_u32 (of_nat (length value)) out @ value)
      else Inl (BytesTooLong (length value)))"

primrec wr_opt_string :: "string option \<Rightarrow> bytes \<Rightarrow> binary_fault + bytes" where
  "wr_opt_string None out = Inr out"
| "wr_opt_string (Some value) out = wr_string value out"

definition flag_if :: "u8 \<Rightarrow> 'a option \<Rightarrow> u8" where
  "flag_if flag field = (if field \<noteq> None then flag else 0)"

fun write_binary :: "auth_message \<Rightarrow> bytes \<Rightarrow> binary_fault + bytes" where
  "write_binary (AuthStart client_id timestamp device_id version) out =
     rbind (wr_string client_id
             (wr_u8 (flag_if FLAG_DEVICE_ID device_id OR flag_if FLAG_VERSION version)
               (wr_u8 KIND_START out))) (\<lambda>out.
     rbind (wr_opt_string device_id (wr_i64 timestamp out)) (\<lambda>out.
     case version of None \<Rightarrow> Inr out | Some v \<Rightarrow> Inr (wr_u8 v out)))"
| "write_binary (AuthChallenge nonce) out =
     wr_bytes nonce (wr_u8 0 (wr_u8 KIND_CHALLENGE out))"
| "write_binary (AuthResponse client_id timestamp totp_code signature device_id) out =
     rbind (wr_string client_id
             (wr_u8 (flag_if FLAG_DEVICE_ID device_id) (wr_u8 KIND_RESPONSE out))) (\<lambda>out.
     rbind (wr_string totp_code (wr_i64 timestamp out)) (\<lambda>out.
     rbind (wr_bytes signature out) (\<lambda>out.
     wr_opt_string device_id out)))"
| "write_binary AuthOk out = Inr (wr_u8 0 (wr_u8 KIND_OK out))"
| "write_binary (AuthFailed reason) out = wr_string reason (wr_u8 0 (wr_u8 KIND_FAILED out))"
| "write_binary (EnrollStart client_id token device_id public_key) out =
     rbind (wr_string client_id
             (wr_u8 (flag_if FLAG_DEVICE_ID device_id OR flag_if FLAG_PUBLIC_KEY public_key)
               (wr_u8 KIND_ENROLL_START out))) (\<lambda>out.
     rbind (wr_string token out) (\<lambda>out.
     rbind (wr_opt_string device_id out) (\<lambda>out.
     wr_opt_string public_key out)))"
| "write_binary (EnrollIssue client_id secret algorithm digits period device_id) out =
     rbind (wr_string client_id
             (wr_u8 (flag_if FLAG_DEVICE_ID device_id) (wr_u8 KIND_ENROLL_ISSUE out))) (\<lambda>out.
     rbind (wr_string secret out) (\<lambda>out.
     wr_opt_string device_id
       (wr_u64 period (wr_u32 digits (wr_u8 (algorithm_to_byte algorithm) out)))))"
| "write_binary (EnrollFailed reason) out =
     wr_string reason (wr_u8 0 (wr_u8 KIND_ENROLL_FAILED out))"

section \<open>The reader\<close>

record reader =
  rd_bytes :: bytes
  rd_pos :: nat

definition rd_new :: "bytes \<Rightarrow> reader" where
  "rd_new bs = \<lparr>rd_bytes = bs, rd_pos = 0\<rparr>"

definition rd_take :: "nat \<Rightarrow> reader \<Rightarrow> binary_fault + bytes \<times> reader" where
  "rd_take len r =
     (let end = rd_pos r + len in
      if end > length (rd_bytes r) then Inl (PayloadEnds (length (rd_bytes r) - rd_pos r) len)
      else Inr (take len (drop (rd_pos r) (rd_bytes r)), r\<lparr>rd_pos := end\<rparr>))"

definition rd_u8 :: "reader \<Rightarrow> binary_fault + u8 \<times> reader" where
  "rd_u8 r = rbind (rd_take 1 r) (\<lambda>(bs, r). Inr (bs ! 0, r))"

definition rd_u16 :: "reader \<Rightarrow> binary_fault + u16 \<times> reader" where
  "rd_u16 r = rbind (rd_take 2 r) (\<lambda>(bs, r). Inr (of_le_bytes bs, r))"

definition rd_u32 :: "reader \<Rightarrow> binary_fault + u32 \<times> reader" where
  "rd_u32 r = rbind (rd_take 4 r) (\<lambda>(bs, r). Inr (of_le_bytes bs, r))"

definition rd_u64 :: "reader \<Rightarrow> binary_fault + u64 \<times> reader" where
  "rd_u64 r = rbind (rd_take 8 r) (\<lambda>(bs, r). Inr (of_le_bytes bs, r))"

definition rd_i64 :: "reader \<Rightarrow> binary_fault + i64 \<times> reader" where
  "rd_i64 r = rd_u64 r"

definition rd_string :: "reader \<Rightarrow> binary_fault + string \<times> reader" where
  "rd_string r =
     rbind (rd_u16 r) (\<lambda>(len, r).
     rbind (rd_take (unat len) r) (\<lambda>(bs, r).
     rbind (ok_or StringNotUtf8 (from_utf8 bs)) (\<lambda>s. Inr (s, r))))"

definition rd_bytes_field :: "reader \<Rightarrow> binary_fault + bytes \<times> reader" where
  "rd_bytes_field r = rbind (rd_u32 r) (\<lambda>(len, r). rd_take (unat len) r)"

definition rd_opt :: "bool \<Rightarrow> (reader \<Rightarrow> binary_fault + 'a \<times> reader) \<Rightarrow> reader \<Rightarrow>
    binary_fault + 'a option \<times> reader" where
  "rd_opt present get r =
     (if present then rbind (get r) (\<lambda>(x, r). Inr (Some x, r)) else Inr (None, r))"

definition from_binary :: "bytes \<Rightarrow> binary_fault + auth_message" where
  "from_binary payload =
     rbind (rd_u8 (rd_new payload)) (\<lambda>(kind, r).
     rbind (rd_u8 r) (\<lambda>(flags, r).
     if flags AND NOT (allowed_flags kind) \<noteq> 0 then Inl (FlagsWithoutMeaning kind flags)
     else if kind = KIND_START then
       rbind (rd_string r) (\<lambda>(client_id, r).
       rbind (rd_i64 r) (\<lambda>(timestamp, r).
       rbind (rd_opt (flags AND FLAG_DEVICE_ID \<noteq> 0) rd_string r) (\<lambda>(device_id, r).
       rbind (rd_opt (flags AND FLAG_VERSION \<noteq> 0) rd_u8 r) (\<lambda>(version, r).
       Inr (AuthStart client_id timestamp device_id version)))))
     else if kind = KIND_CHALLENGE then
       rbind (rd_bytes_field r) (\<lambda>(nonce, r). Inr (AuthChallenge nonce))
     else if kind = KIND_RESPONSE then
       rbind (rd_string r) (\<lambda>(client_id, r).
       rbind (rd_i64 r) (\<lambda>(timestamp, r).
       rbind (rd_string r) (\<lambda>(totp_code, r).
       rbind (rd_bytes_field r) (\<lambda>(signature, r).
       rbind (rd_opt (flags AND FLAG_DEVICE_ID \<noteq> 0) rd_string r) (\<lambda>(device_id, r).
       Inr (AuthResponse client_id timestamp totp_code signature device_id))))))
     else if kind = KIND_OK then Inr AuthOk
     else if kind = KIND_FAILED then
       rbind (rd_string r) (\<lambda>(reason, r). Inr (AuthFailed reason))
     else if kind = KIND_ENROLL_START then
       rbind (rd_string r) (\<lambda>(client_id, r).
       rbind (rd_string r) (\<lambda>(token, r).
       rbind (rd_opt (flags AND FLAG_DEVICE_ID \<noteq> 0) rd_string r) (\<lambda>(device_id, r).
       rbind (rd_opt (flags AND FLAG_PUBLIC_KEY \<noteq> 0) rd_string r) (\<lambda>(public_key, r).
       Inr (EnrollStart client_id token device_id public_key)))))
     else if kind = KIND_ENROLL_ISSUE then
       rbind (rd_string r) (\<lambda>(client_id, r).
       rbind (rd_string r) (\<lambda>(secret, r).
       rbind (rd_u8 r) (\<lambda>(alg, r).
       rbind (ok_or AlgorithmUnknown (algorithm_from_byte alg)) (\<lambda>algorithm.
       rbind (rd_u32 r) (\<lambda>(digits, r).
       rbind (rd_u64 r) (\<lambda>(period, r).
       rbind (rd_opt (flags AND FLAG_DEVICE_ID \<noteq> 0) rd_string r) (\<lambda>(device_id, r).
       Inr (EnrollIssue client_id secret algorithm digits period device_id))))))))
     else if kind = KIND_ENROLL_FAILED then
       rbind (rd_string r) (\<lambda>(reason, r). Inr (EnrollFailed reason))
     else Inl (KindUnknown kind)))"

section \<open>Payloads\<close>

text \<open>\<open>json_enc\<close> and \<open>json_dec\<close> stand for serde's encoder and decoder of a message.\<close>

definition to_payload ::
    "(auth_message \<Rightarrow> 'j + bytes) \<Rightarrow> auth_message \<Rightarrow> format \<Rightarrow> 'j codec_error + bytes" where
  "to_payload json_enc m fmt =
     (case fmt of
        FmtLegacyJson \<Rightarrow>
          (case json_enc m of Inl e \<Rightarrow> Inl (CeJson e) | Inr bs \<Rightarrow> Inr bs)
      | FmtJson \<Rightarrow>
          (case json_enc m of Inl e \<Rightarrow> Inl (CeJson e) | Inr bs \<Rightarrow> Inr (VERSION_JSON # bs))
      | FmtBinary \<Rightarrow>
          (case write_binary m (wr_u8 VERSION_BINARY []) of
             Inl e \<Rightarrow> Inl (CeBinary e) | Inr bs \<Rightarrow> Inr bs))"

definition from_payload ::
    "(bytes \<Rightarrow> 'j + auth_message) \<Rightarrow> bytes \<Rightarrow> 'j codec_error + auth_message \<times> format" where
  "from_payload json_dec payload =
     (case payload of
        [] \<Rightarrow> Inl (CeBinary PayloadEmpty)
      | b # bs \<Rightarrow>
          if b = VERSION_JSON then
            (case json_dec bs of Inl e \<Rightarrow> Inl (CeJson e) | Inr m \<Rightarrow> Inr (m, FmtJson))
          else if b = VERSION_BINARY then
            (case from_binary bs of Inl e \<Rightarrow> Inl (CeBinary e) | Inr m \<Rightarrow> Inr (m, FmtBinary))
          else
            (case json_dec payload of Inl e \<Rightarrow> Inl (CeJson e) | Inr m \<Rightarrow> Inr (m, FmtLegacyJson)))"

section \<open>The bytes a proof covers\<close>

definition challenge_message :: "bytes \<Rightarrow> i64 \<Rightarrow> bytes" where
  "challenge_message nonce timestamp = nonce @ le_bytes 8 timestamp"

text \<open>\<open>hmac\<close> stands for HMAC-SHA256: the key, then the message.\<close>

definition hmac_challenge ::
    "(bytes \<Rightarrow> bytes \<Rightarrow> 'e + bytes) \<Rightarrow> bytes \<Rightarrow> bytes \<Rightarrow> i64 \<Rightarrow> 'e + bytes" where
  "hmac_challenge hmac secret nonce timestamp = hmac secret (challenge_message nonce timestamp)"

definition CLOSE_REQUIRED :: u32 where "CLOSE_REQUIRED = 2"
definition CLOSE_REJECTED :: u32 where "CLOSE_REJECTED = 3"
definition CLOSE_TOO_MANY :: u32 where "CLOSE_TOO_MANY = 4"
definition CLOSE_PEER_NOT_ALLOWED :: u32 where "CLOSE_PEER_NOT_ALLOWED = 5"
definition CLOSE_REVOKED :: u32 where "CLOSE_REVOKED = 6"

section \<open>The contract of a field\<close>

text \<open>
  A field of the binary form is written as some bytes and read back with whatever follows left
  in place; and a value that is read was spelled by exactly the bytes that were taken.
\<close>

definition rd_at :: "bytes \<Rightarrow> bytes \<Rightarrow> reader" where
  "rd_at done todo = \<lparr>rd_bytes = done @ todo, rd_pos = length done\<rparr>"

primrec put_opt :: "('a \<Rightarrow> bytes) \<Rightarrow> 'a option \<Rightarrow> bytes" where
  "put_opt put None = []"
| "put_opt put (Some x) = put x"

locale field_codec =
  fixes put :: "'a \<Rightarrow> bytes"
    and get :: "reader \<Rightarrow> binary_fault + 'a \<times> reader"
    and ok :: "'a \<Rightarrow> bool"
  assumes get_put: "ok x \<Longrightarrow> get (rd_at d (put x @ bs)) = Inr (x, rd_at (d @ put x) bs)"
    and get_only_put: "get (rd_at d bs) = Inr (x, r) \<Longrightarrow>
      ok x \<and> (\<exists>rest. bs = put x @ rest \<and> r = rd_at (d @ put x) rest)"
begin

lemma opt_get_put:
  "pred_option ok field \<Longrightarrow> present = (field \<noteq> None) \<Longrightarrow>
     rd_opt present get (rd_at d (put_opt put field @ bs)) =
       Inr (field, rd_at (d @ put_opt put field) bs)"
  by (cases field) (simp_all add: rd_opt_def get_put)

lemma opt_get_only_put:
  assumes "rd_opt present get (rd_at d bs) = Inr (field, r)"
  shows "pred_option ok field \<and> present = (field \<noteq> None) \<and>
    (\<exists>rest. bs = put_opt put field @ rest \<and> r = rd_at (d @ put_opt put field) rest)"
  using assms by (auto simp: rd_opt_def dest!: get_only_put split: if_splits)

end

lemma rd_new_at: "rd_new bs = rd_at [] bs"
  by (simp add: rd_new_def rd_at_def)

lemma rd_take_at:
  "rd_take n (rd_at d bs) =
     (if n \<le> length bs then Inr (take n bs, rd_at (d @ take n bs) (drop n bs))
      else Inl (PayloadEnds (length bs) n))"
  by (simp add: rd_take_def rd_at_def Let_def)

lemma rd_take_append: "length xs = n \<Longrightarrow> rd_take n (rd_at d (xs @ bs)) = Inr (xs, rd_at (d @ xs) bs)"
  by (simp add: rd_take_at)

lemma rd_take_Inr:
  "rd_take n (rd_at d bs) = Inr (xs, r) \<Longrightarrow>
     length xs = n \<and> (\<exists>rest. bs = xs @ rest \<and> r = rd_at (d @ xs) rest)"
  by (auto simp: rd_take_at intro!: exI [of _ "drop n bs"] split: if_splits)

lemma rd_word_put:
  assumes "LENGTH('a) = 8 * n"
  shows "rbind (rd_take n (rd_at d (le_bytes n w @ bs))) (\<lambda>(bs, r). Inr (of_le_bytes bs, r)) =
    Inr (w :: 'a::len word, rd_at (d @ le_bytes n w) bs)"
proof -
  have "of_le_bytes (le_bytes n w) = w"
    using assms by (simp add: of_le_bytes_le_bytes take_bit_word_eq_self)
  then show ?thesis by (simp add: rd_take_append)
qed

lemma rd_word_only_put:
  assumes "LENGTH('a) = 8 * n"
    and "rbind (rd_take n (rd_at d bs)) (\<lambda>(bs, r). Inr (of_le_bytes bs, r)) = Inr (w :: 'a::len word, r)"
  shows "\<exists>rest. bs = le_bytes n w @ rest \<and> r = rd_at (d @ le_bytes n w) rest"
proof -
  from assms(2) obtain xs where xs: "rd_take n (rd_at d bs) = Inr (xs, r)" and w: "w = of_le_bytes xs"
    by auto
  from rd_take_Inr [OF xs] have "length xs = n" by simp
  with assms(1) have "le_bytes n w = xs"
    using le_bytes_of_le_bytes [of xs, where 'a = 'a] by (simp add: w)
  with rd_take_Inr [OF xs] show ?thesis by simp
qed

interpretation byte_field: field_codec "\<lambda>v. [v]" rd_u8 "\<lambda>_. True"
proof (unfold_locales, goal_cases)
  case (1 x d bs)
  then show ?case using rd_take_append [of "[x]" 1 d bs] by (simp add: rd_u8_def)
next
  case (2 d bs x r)
  then show ?case by (auto simp: rd_u8_def rd_take_at Suc_le_length_iff split: if_splits)
qed

interpretation u16_field: field_codec "le_bytes 2" rd_u16 "\<lambda>_. True"
  by unfold_locales (auto simp: rd_u16_def rd_word_put intro: rd_word_only_put)

interpretation u32_field: field_codec "le_bytes 4" rd_u32 "\<lambda>_. True"
  by unfold_locales (auto simp: rd_u32_def rd_word_put intro: rd_word_only_put)

interpretation u64_field: field_codec "le_bytes 8" rd_u64 "\<lambda>_. True"
  by unfold_locales (auto simp: rd_u64_def rd_word_put intro: rd_word_only_put)

interpretation i64_field: field_codec "le_bytes 8" rd_i64 "\<lambda>_. True"
  by unfold_locales (auto simp: rd_i64_def u64_field.get_put dest: u64_field.get_only_put)

definition put_string :: "string \<Rightarrow> bytes" where
  "put_string s = le_bytes 2 (of_nat (length s) :: u16) @ as_bytes s"

definition string_ok :: "string \<Rightarrow> bool" where
  "string_ok s \<longleftrightarrow> length s < 2 ^ 16 \<and> str_ok s"

definition put_bytes :: "bytes \<Rightarrow> bytes" where
  "put_bytes bs = le_bytes 4 (of_nat (length bs) :: u32) @ bs"

definition bytes_ok :: "bytes \<Rightarrow> bool" where
  "bytes_ok bs \<longleftrightarrow> length bs < 2 ^ 32"

interpretation string_field: field_codec put_string rd_string string_ok
proof (unfold_locales, goal_cases)
  case (1 s d bs)
  then have "unat (of_nat (length s) :: u16) = length s"
    by (simp add: string_ok_def unat_of_nat)
  with 1 show ?case
    by (simp add: rd_string_def put_string_def u16_field.get_put rd_take_append string_ok_def)
next
  case (2 d bs s r)
  then obtain len r1 xs where len: "rd_u16 (rd_at d bs) = Inr (len, r1)"
    and xs: "rd_take (unat len) r1 = Inr (xs, r)" and s: "from_utf8 xs = Some s"
    by (auto simp: rd_string_def)
  from u16_field.get_only_put [OF len] obtain rest
    where bs: "bs = le_bytes 2 len @ rest" and r1: "r1 = rd_at (d @ le_bytes 2 len) rest"
    by blast
  from rd_take_Inr [OF xs [unfolded r1]] s have l: "length s = unat len"
    and rest: "\<exists>rest'. rest = as_bytes s @ rest' \<and> r = rd_at ((d @ le_bytes 2 len) @ as_bytes s) rest'"
    by (auto simp: from_utf8_Some)
  have "unat len < 2 ^ 16"
    using unsigned_less [of len] by simp
  with s rest show ?case
    by (auto simp: string_ok_def put_string_def l bs from_utf8_Some)
qed

interpretation bytes_field: field_codec put_bytes rd_bytes_field bytes_ok
proof (unfold_locales, goal_cases)
  case (1 xs d bs)
  then have "unat (of_nat (length xs) :: u32) = length xs"
    by (simp add: bytes_ok_def unat_of_nat)
  then show ?case
    by (simp add: rd_bytes_field_def put_bytes_def u32_field.get_put rd_take_append)
next
  case (2 d bs xs r)
  then obtain len r1 where len: "rd_u32 (rd_at d bs) = Inr (len, r1)"
    and xs: "rd_take (unat len) r1 = Inr (xs, r)"
    by (auto simp: rd_bytes_field_def)
  from u32_field.get_only_put [OF len] obtain rest
    where bs: "bs = le_bytes 4 len @ rest" and r1: "r1 = rd_at (d @ le_bytes 4 len) rest"
    by blast
  have "unat len < 2 ^ 32"
    using unsigned_less [of len] by simp
  with rd_take_Inr [OF xs [unfolded r1]] show ?case
    by (auto simp: bytes_ok_def put_bytes_def bs)
qed

section \<open>The binary form of a message\<close>

fun msg_bytes :: "auth_message \<Rightarrow> bytes" where
  "msg_bytes (AuthStart c t d v) =
     [KIND_START, flag_if FLAG_DEVICE_ID d OR flag_if FLAG_VERSION v] @ put_string c @ le_bytes 8 t @
     put_opt put_string d @ put_opt (\<lambda>v. [v]) v"
| "msg_bytes (AuthChallenge n) = [KIND_CHALLENGE, 0] @ put_bytes n"
| "msg_bytes (AuthResponse c t code sig d) =
     [KIND_RESPONSE, flag_if FLAG_DEVICE_ID d] @ put_string c @ le_bytes 8 t @ put_string code @
     put_bytes sig @ put_opt put_string d"
| "msg_bytes AuthOk = [KIND_OK, 0]"
| "msg_bytes (AuthFailed w) = [KIND_FAILED, 0] @ put_string w"
| "msg_bytes (EnrollStart c tok d k) =
     [KIND_ENROLL_START, flag_if FLAG_DEVICE_ID d OR flag_if FLAG_PUBLIC_KEY k] @ put_string c @
     put_string tok @ put_opt put_string d @ put_opt put_string k"
| "msg_bytes (EnrollIssue c sec a dg p d) =
     [KIND_ENROLL_ISSUE, flag_if FLAG_DEVICE_ID d] @ put_string c @ put_string sec @
     [algorithm_to_byte a] @ le_bytes 4 dg @ le_bytes 8 p @ put_opt put_string d"
| "msg_bytes (EnrollFailed w) = [KIND_ENROLL_FAILED, 0] @ put_string w"

fun msg_strings :: "auth_message \<Rightarrow> string list" where
  "msg_strings (AuthStart c t d v) = c # (case d of None \<Rightarrow> [] | Some x \<Rightarrow> [x])"
| "msg_strings (AuthChallenge n) = []"
| "msg_strings (AuthResponse c t code sig d) = c # code # (case d of None \<Rightarrow> [] | Some x \<Rightarrow> [x])"
| "msg_strings AuthOk = []"
| "msg_strings (AuthFailed w) = [w]"
| "msg_strings (EnrollStart c tok d k) =
     c # tok # (case d of None \<Rightarrow> [] | Some x \<Rightarrow> [x]) @ (case k of None \<Rightarrow> [] | Some x \<Rightarrow> [x])"
| "msg_strings (EnrollIssue c sec a dg p d) = c # sec # (case d of None \<Rightarrow> [] | Some x \<Rightarrow> [x])"
| "msg_strings (EnrollFailed w) = [w]"

fun msg_byte_fields :: "auth_message \<Rightarrow> bytes list" where
  "msg_byte_fields (AuthChallenge n) = [n]"
| "msg_byte_fields (AuthResponse c t code sig d) = [sig]"
| "msg_byte_fields m = []"

text \<open>Every string of a message is a Rust string, so its bytes are well-formed UTF-8.\<close>

definition msg_text_ok :: "auth_message \<Rightarrow> bool" where
  "msg_text_ok m \<longleftrightarrow> list_all str_ok (msg_strings m)"

definition msg_fits :: "auth_message \<Rightarrow> bool" where
  "msg_fits m \<longleftrightarrow>
     list_all (\<lambda>s. length s < 2 ^ 16) (msg_strings m) \<and>
     list_all (\<lambda>bs. length bs < 2 ^ 32) (msg_byte_fields m)"

lemmas msg_ok_defs = msg_text_ok_def msg_fits_def string_ok_def bytes_ok_def

lemmas wr_defs = wr_u8_def wr_u16_def wr_u32_def wr_u64_def wr_i64_def wr_string_def wr_bytes_def
  put_string_def put_bytes_def

lemma wr_opt_string_eq:
  "wr_opt_string field out =
     (case field of
        None \<Rightarrow> Inr out
      | Some s \<Rightarrow> if length s < 2 ^ 16 then Inr (out @ put_string s) else Inl (StringTooLong (length s)))"
  by (cases field) (simp_all add: wr_defs)

lemma write_binary_eq: "write_binary m out = Inr bs \<longleftrightarrow> msg_fits m \<and> bs = out @ msg_bytes m"
  by (cases m) (auto simp: msg_fits_def wr_opt_string_eq wr_defs split: option.splits if_splits)

lemma algorithm_from_to_byte [simp]: "algorithm_from_byte (algorithm_to_byte a) = Some a"
  by (cases a) (simp_all add: algorithm_from_byte_def)

lemma algorithm_from_byte_Some: "algorithm_from_byte b = Some a \<longleftrightarrow> b = algorithm_to_byte a"
  by (cases a) (auto simp: algorithm_from_byte_def)

lemma rd_u8_Cons: "rd_u8 (rd_at d (b # bs)) = Inr (b, rd_at (d @ [b]) bs)"
  using byte_field.get_put [where x = b] by simp

lemmas get_put_simps = rd_u8_Cons u16_field.get_put u32_field.get_put u64_field.get_put
  i64_field.get_put string_field.get_put bytes_field.get_put

text \<open>With the message's shape known, reading is evaluation.\<close>

lemmas from_binary_eval = from_binary_def rd_new_at get_put_simps rd_opt_def flag_if_def
  kind_defs flag_defs allowed_flags_def msg_ok_defs

lemma from_binary_put:
  assumes "msg_text_ok m" and "msg_fits m"
  shows "from_binary (msg_bytes m @ rest) = Inr m"
proof (cases m)
  case (AuthStart c t d v)
  with assms show ?thesis by (cases d; cases v) (simp_all add: from_binary_eval)
next
  case (AuthResponse c t code sig d)
  with assms show ?thesis by (cases d) (simp_all add: from_binary_eval)
next
  case (EnrollStart c tok d k)
  with assms show ?thesis by (cases d; cases k) (simp_all add: from_binary_eval)
next
  case (EnrollIssue c sec a dg p d)
  with assms show ?thesis by (cases d) (simp_all add: from_binary_eval)
qed (use assms in \<open>simp_all add: from_binary_eval\<close>)

text \<open>A flag byte within the allowed flags is the sum of the flags that are set in it.\<close>

lemma flags_within:
  fixes f a b :: u8
  assumes "f AND NOT (a OR b) = 0" and "f AND a = 0 \<or> f AND a = a" and "f AND b = 0 \<or> f AND b = b"
  shows "f = (if f AND a \<noteq> 0 then a else 0) OR (if f AND b \<noteq> 0 then b else 0)"
proof -
  have "f = (f AND (a OR b)) OR (f AND NOT (a OR b))"
    by (rule bit_word_eqI) (auto simp: bit_simps)
  also have "\<dots> = (f AND a) OR (f AND b)"
    using assms(1) by (simp add: bit.conj_disj_distrib)
  finally show ?thesis using assms(2,3) by auto
qed

lemma flag_bit:
  fixes f :: u8
  shows "f AND FLAG_DEVICE_ID = 0 \<or> f AND FLAG_DEVICE_ID = FLAG_DEVICE_ID"
    and "f AND FLAG_PUBLIC_KEY = 0 \<or> f AND FLAG_PUBLIC_KEY = FLAG_PUBLIC_KEY"
    and "f AND FLAG_VERSION = 0 \<or> f AND FLAG_VERSION = FLAG_VERSION"
proof -
  have pw: "f AND push_bit k 1 = 0 \<or> f AND push_bit k 1 = push_bit k 1" for k
  proof (cases "bit f k")
    case True
    then have "f AND push_bit k 1 = push_bit k 1"
      by (intro bit_word_eqI) (auto simp: bit_simps)
    then show ?thesis ..
  next
    case False
    then have "f AND push_bit k 1 = 0"
      by (intro bit_word_eqI) (auto simp: bit_simps)
    then show ?thesis ..
  qed
  show "f AND FLAG_DEVICE_ID = 0 \<or> f AND FLAG_DEVICE_ID = FLAG_DEVICE_ID"
    using pw [of 0] by (simp add: flag_defs)
  show "f AND FLAG_PUBLIC_KEY = 0 \<or> f AND FLAG_PUBLIC_KEY = FLAG_PUBLIC_KEY"
    using pw [of 1] by (simp add: flag_defs)
  show "f AND FLAG_VERSION = 0 \<or> f AND FLAG_VERSION = FLAG_VERSION"
    using pw [of 2] by (simp add: flag_defs)
qed

text \<open>A flag byte the message type allows is the one the writer writes for the fields that follow.\<close>

lemma flags_exact_start:
  assumes "f AND NOT (allowed_flags KIND_START) = 0"
    and "(f AND FLAG_DEVICE_ID = 0) = (x = None)" and "(f AND FLAG_VERSION = 0) = (y = None)"
  shows "f = flag_if FLAG_DEVICE_ID x OR flag_if FLAG_VERSION y"
proof -
  have "f AND NOT (FLAG_DEVICE_ID OR FLAG_VERSION) = 0"
    using assms(1) by (simp add: allowed_flags_def)
  from flags_within [OF this flag_bit(1,3)] assms(2,3) show ?thesis
    by (simp add: flag_if_def)
qed

lemma flags_exact_enroll:
  assumes "f AND NOT (allowed_flags KIND_ENROLL_START) = 0"
    and "(f AND FLAG_DEVICE_ID = 0) = (x = None)" and "(f AND FLAG_PUBLIC_KEY = 0) = (y = None)"
  shows "f = flag_if FLAG_DEVICE_ID x OR flag_if FLAG_PUBLIC_KEY y"
proof -
  have "f AND NOT (FLAG_DEVICE_ID OR FLAG_PUBLIC_KEY) = 0"
    using assms(1) by (simp add: allowed_flags_def kind_defs)
  from flags_within [OF this flag_bit(1,2)] assms(2,3) show ?thesis
    by (simp add: flag_if_def)
qed

lemma flags_exact_device:
  assumes "f AND NOT (allowed_flags k) = 0" and "k = KIND_RESPONSE \<or> k = KIND_ENROLL_ISSUE"
    and "(f AND FLAG_DEVICE_ID = 0) = (x = None)"
  shows "f = flag_if FLAG_DEVICE_ID x"
proof -
  have "f AND NOT (FLAG_DEVICE_ID OR FLAG_DEVICE_ID) = 0"
    using assms(1,2) by (auto simp: allowed_flags_def kind_defs)
  from flags_within [OF this flag_bit(1,1)] assms(3) show ?thesis
    by (simp add: flag_if_def)
qed

lemmas only_put_dests = u32_field.get_only_put u64_field.get_only_put i64_field.get_only_put
  string_field.get_only_put bytes_field.get_only_put
  string_field.opt_get_only_put byte_field.opt_get_only_put

lemma pred_option_string_ok:
  "pred_option string_ok d \<longleftrightarrow> (case d of None \<Rightarrow> True | Some s \<Rightarrow> string_ok s)"
  by (cases d) simp_all

lemmas only_put_simps = from_binary_def rd_new_at rd_u8_Cons msg_ok_defs pred_option_string_ok

lemma rd_u8_Inr: "rd_u8 (rd_at d bs) = Inr (b, r) \<longleftrightarrow> (\<exists>rest. bs = b # rest \<and> r = rd_at (d @ [b]) rest)"
  by (auto simp: rd_u8_Cons dest!: byte_field.get_only_put)

lemma from_binary_only_put:
  assumes "from_binary bs = Inr m"
  shows "msg_text_ok m \<and> msg_fits m \<and> (\<exists>rest. bs = msg_bytes m @ rest)"
proof -
  obtain k f tl where bs: "bs = k # f # tl"
    using assms by (auto simp: from_binary_def rd_new_at dest!: byte_field.get_only_put)
  have fl: "f AND NOT (allowed_flags k) = 0"
    using assms by (auto simp: from_binary_def rd_new_at bs rd_u8_Cons split: if_splits)
  show ?thesis
  proof (cases m)
    case (AuthStart c t d v)
    with assms fl show ?thesis
      by (auto simp: bs only_put_simps dest!: only_put_dests intro!: flags_exact_start
               split: if_splits option.splits)
  next
    case (AuthResponse c t code sig d)
    with assms fl show ?thesis
      by (auto simp: bs only_put_simps dest!: only_put_dests intro!: flags_exact_device
               split: if_splits option.splits)
  next
    case (EnrollStart c tok d k)
    with assms fl show ?thesis
      by (auto simp: bs only_put_simps dest!: only_put_dests intro!: flags_exact_enroll
               split: if_splits option.splits)
  next
    case (EnrollIssue c sec a dg p d)
    with assms fl show ?thesis
      by (auto simp: bs only_put_simps algorithm_from_byte_Some rd_u8_Inr dest!: only_put_dests
               intro!: flags_exact_device split: if_splits option.splits)
  qed (use assms fl in \<open>auto simp: bs only_put_simps allowed_flags_def kind_defs dest!: only_put_dests
         split: if_splits\<close>)
qed

section \<open>The wiping buffer\<close>

text \<open>
  The buffer the encoders write into. A block is the bytes in it and its capacity; \<open>wb_freed\<close>
  is what the blocks handed back to the allocator held when they were. \<open>alloc\<close> stands for the
  capacity \<open>Vec::with_capacity\<close> gives, \<open>wipe\<close> for what the \<open>zeroize\<close> crate leaves of a block.
\<close>

record wiping_buffer =
  wb_bytes :: bytes
  wb_cap :: nat
  wb_freed :: "bytes list"

definition wb_with_capacity :: "(nat \<Rightarrow> nat) \<Rightarrow> nat \<Rightarrow> wiping_buffer" where
  "wb_with_capacity alloc capacity = \<lparr>wb_bytes = [], wb_cap = alloc capacity, wb_freed = []\<rparr>"

function next_power_of_two_from :: "nat \<Rightarrow> nat \<Rightarrow> nat" where
  "next_power_of_two_from p n = (if 0 < p \<and> p < n then next_power_of_two_from (2 * p) n else p)"
  by pat_completeness auto
termination
  by (relation "measure (\<lambda>(p, n). n - p)") auto

declare next_power_of_two_from.simps [simp del]

definition next_power_of_two :: "nat \<Rightarrow> nat" where
  "next_power_of_two n = next_power_of_two_from 1 n"

definition wb_reserve_for :: "(nat \<Rightarrow> nat) \<Rightarrow> (bytes \<Rightarrow> bytes) \<Rightarrow> nat \<Rightarrow> wiping_buffer \<Rightarrow> wiping_buffer" where
  "wb_reserve_for alloc wipe extra b =
     (if extra \<le> wb_cap b - length (wb_bytes b) then b
      else
        let wanted = length (wb_bytes b) + extra in
        \<lparr>wb_bytes = wb_bytes b, wb_cap = alloc (next_power_of_two wanted),
         wb_freed = wb_freed b @ [wipe (wb_bytes b)]\<rparr>)"

text \<open>
  \<open>Vec::extend_from_slice\<close> itself: with room it writes in place, without room it moves to a
  larger block and gives the old one back as it is.
\<close>

definition vec_extend :: "(nat \<Rightarrow> nat) \<Rightarrow> bytes \<Rightarrow> wiping_buffer \<Rightarrow> wiping_buffer" where
  "vec_extend alloc other b =
     (if length (wb_bytes b) + length other \<le> wb_cap b then b\<lparr>wb_bytes := wb_bytes b @ other\<rparr>
      else \<lparr>wb_bytes = wb_bytes b @ other, wb_cap = alloc (length (wb_bytes b) + length other),
            wb_freed = wb_freed b @ [wb_bytes b]\<rparr>)"

definition wb_extend_from_slice ::
    "(nat \<Rightarrow> nat) \<Rightarrow> (bytes \<Rightarrow> bytes) \<Rightarrow> bytes \<Rightarrow> wiping_buffer \<Rightarrow> wiping_buffer" where
  "wb_extend_from_slice alloc wipe other b =
     vec_extend alloc other (wb_reserve_for alloc wipe (length other) b)"

definition wb_push :: "(nat \<Rightarrow> nat) \<Rightarrow> (bytes \<Rightarrow> bytes) \<Rightarrow> u8 \<Rightarrow> wiping_buffer \<Rightarrow> wiping_buffer" where
  "wb_push alloc wipe byte b = vec_extend alloc [byte] (wb_reserve_for alloc wipe 1 b)"

definition wb_drop :: "(bytes \<Rightarrow> bytes) \<Rightarrow> wiping_buffer \<Rightarrow> bytes list" where
  "wb_drop wipe b = wb_freed b @ [wipe (wb_bytes b)]"

lemma next_power_of_two_from_ge: "0 < p \<Longrightarrow> n \<le> next_power_of_two_from p n"
  by (induction p n rule: next_power_of_two_from.induct)
     (subst next_power_of_two_from.simps, auto)

lemma next_power_of_two_ge: "n \<le> next_power_of_two n"
  by (simp add: next_power_of_two_def next_power_of_two_from_ge)

definition wb_clean :: "wiping_buffer \<Rightarrow> bool" where
  "wb_clean b \<longleftrightarrow> length (wb_bytes b) \<le> wb_cap b \<and> (\<forall>block \<in> set (wb_freed b). set block \<subseteq> {0})"

lemma wb_extend_clean:
  assumes "\<And>n. n \<le> alloc n" and "\<And>bs. set (wipe bs) \<subseteq> {0}" and "wb_clean b"
  shows "wb_clean (wb_extend_from_slice alloc wipe other b) \<and>
    wb_bytes (wb_extend_from_slice alloc wipe other b) = wb_bytes b @ other"
proof -
  let ?r = "wb_reserve_for alloc wipe (length other) b"
  have "length (wb_bytes b) + length other \<le> alloc (next_power_of_two (length (wb_bytes b) + length other))"
    using next_power_of_two_ge assms(1) order_trans by blast
  then have "length (wb_bytes ?r) + length other \<le> wb_cap ?r" "wb_bytes ?r = wb_bytes b" "wb_clean ?r"
    using assms(2,3) by (auto simp: wb_reserve_for_def wb_clean_def Let_def)
  then show ?thesis
    by (simp add: wb_extend_from_slice_def vec_extend_def wb_clean_def)
qed

lemma wb_push_extend: "wb_push alloc wipe byte b = wb_extend_from_slice alloc wipe [byte] b"
  by (simp add: wb_push_def wb_extend_from_slice_def)

section \<open>Properties\<close>

text \<open>
  C23: the binary form of every message the writer accepts is read back as that message, whatever
  bytes follow it; and the writer accepts a message exactly when its strings fit the two
  bytes of length and its byte strings the four.
\<close>

theorem binary_round_trip:
  assumes "msg_text_ok m"
  shows "(case write_binary m [] of
      Inr bs \<Rightarrow> from_binary (bs @ rest) = Inr m
    | Inl _ \<Rightarrow> \<not> msg_fits m) \<and> (msg_fits m \<longrightarrow> (\<exists>bs. write_binary m [] = Inr bs))"
proof (cases "msg_fits m")
  case True
  then have "write_binary m [] = Inr (msg_bytes m)"
    by (simp add: write_binary_eq)
  with True assms show ?thesis
    by (simp add: from_binary_put)
next
  case False
  then have "\<nexists>bs. write_binary m [] = Inr bs"
    by (simp add: write_binary_eq)
  with False show ?thesis
    by (cases "write_binary m []") auto
qed

theorem binary_round_trip_witness:
  "from_binary ([1, 5, 1, 0, 0x61, 7, 0, 0, 0, 0, 0, 0, 0, 1, 0, 0x62, 1] @ [9]) =
     Inr (AuthStart ''a'' 7 (Some ''b'') (Some 1))"
proof -
  let ?m = "AuthStart ''a'' 7 (Some ''b'') (Some 1)"
  have ok: "msg_text_ok ?m"
    by (simp add: msg_text_ok_def str_ok_def as_bytes_def byte_of_char_def)
  have w: "write_binary ?m [] = Inr [1, 5, 1, 0, 0x61, 7, 0, 0, 0, 0, 0, 0, 0, 1, 0, 0x62, 1]"
    by (simp add: wr_defs flag_if_def flag_defs kind_defs as_bytes_def byte_of_char_def codec_simps)
  show ?thesis
    using binary_round_trip [OF ok, of "[9]"] unfolding w by simp
qed



text \<open>
  C38: a payload says what it is. With a JSON encoder that is undone by the decoder and writes an
  object, whose first byte is an opening brace, a message sent in any of the three forms is read back
  as that message in that form.
\<close>

theorem payload_round_trip:
  assumes "\<And>m bs. json_enc m = Inr bs \<Longrightarrow> json_dec bs = Inr m"
    and "\<And>m bs. json_enc m = Inr bs \<Longrightarrow> \<exists>r. bs = 0x7B # r"
    and "msg_text_ok m" and "to_payload json_enc m fmt = Inr payload"
  shows "from_payload json_dec payload = Inr (m, fmt)"
proof (cases fmt)
  case FmtLegacyJson
  with assms(4) have e: "json_enc m = Inr payload"
    by (auto simp: to_payload_def split: sum.splits)
  from assms(2) [OF e] assms(1) [OF e] FmtLegacyJson show ?thesis
    by (auto simp: from_payload_def VERSION_JSON_def VERSION_BINARY_def)
next
  case FmtJson
  with assms(1,4) show ?thesis
    by (auto simp: to_payload_def from_payload_def split: sum.splits)
next
  case FmtBinary
  with assms(4) have "msg_fits m" "payload = VERSION_BINARY # msg_bytes m"
    by (auto simp: to_payload_def write_binary_eq wr_u8_def split: sum.splits)
  with from_binary_put [OF assms(3), of "[]"] FmtBinary show ?thesis
    by (simp add: from_payload_def VERSION_JSON_def VERSION_BINARY_def)
qed

theorem payload_round_trip_witness:
  "from_payload (\<lambda>bs. if bs = [0x7B, 0x7D] then Inr AuthOk else Inl ()) [0, 0x7B, 0x7D] = Inr (AuthOk, FmtJson)"
proof -
  let ?enc = "\<lambda>m. if m = AuthOk then Inr [0x7B, 0x7D] else Inl () :: unit + bytes"
    and ?dec = "\<lambda>bs. if bs = [0x7B, 0x7D] then Inr AuthOk else Inl () :: unit + auth_message"
  have "to_payload ?enc AuthOk FmtJson = Inr [0, 0x7B, 0x7D]"
    by (simp add: to_payload_def VERSION_JSON_def)
  moreover have "msg_text_ok AuthOk"
    by (simp add: msg_text_ok_def)
  ultimately show ?thesis
    by (intro payload_round_trip [where json_enc = ?enc and json_dec = ?dec]) (auto split: if_splits)
qed

text \<open>
  A proof covers one nonce and one time. The message that is authenticated determines both, so
  a proof made for one challenge and timestamp covers no other, and the two credential kinds
  cover the same bytes.
\<close>

theorem challenge_message_injective:
  "challenge_message nonce timestamp = challenge_message nonce' timestamp' \<longleftrightarrow>
     nonce = nonce' \<and> timestamp = timestamp'"
proof
  assume eq: "challenge_message nonce timestamp = challenge_message nonce' timestamp'"
  have id: "of_le_bytes (le_bytes 8 t) = t" for t :: i64
    by (simp add: of_le_bytes_le_bytes take_bit_word_eq_self)
  from eq have "nonce = nonce'" "le_bytes 8 timestamp = le_bytes 8 timestamp'"
    by (simp_all add: challenge_message_def)
  with id show "nonce = nonce' \<and> timestamp = timestamp'" by metis
qed simp

text \<open>
  The buffer never hands a block back unwiped. Provided the allocator gives at least the capacity
  asked for and the wipe leaves only zeroes, then whatever is written into a buffer, in any number of
  pieces, the buffer holds exactly those bytes and every block it left behind, the last one
  included, is zero.
\<close>

theorem wiping_buffer_leaves_zeroes:
  assumes "\<And>n. n \<le> alloc n" and "\<And>bs. set (wipe bs) \<subseteq> {0}"
  shows "wb_bytes (fold (wb_extend_from_slice alloc wipe) pieces (wb_with_capacity alloc cap)) = concat pieces \<and>
    (\<forall>block \<in> set (wb_drop wipe (fold (wb_extend_from_slice alloc wipe) pieces (wb_with_capacity alloc cap))).
       set block \<subseteq> {0})"
proof -
  have step: "wb_clean (fold (wb_extend_from_slice alloc wipe) pieces b) \<and>
      wb_bytes (fold (wb_extend_from_slice alloc wipe) pieces b) = wb_bytes b @ concat pieces"
    if "wb_clean b" for b
    using that
  proof (induction pieces arbitrary: b)
    case (Cons p pieces)
    with wb_extend_clean [OF assms, where b = b and other = p] show ?case by simp
  qed simp
  have "wb_clean (wb_with_capacity alloc cap)"
    by (simp add: wb_clean_def wb_with_capacity_def)
  from step [OF this] assms(2) show ?thesis
    by (auto simp: wb_drop_def wb_clean_def wb_with_capacity_def)
qed

theorem wiping_buffer_leaves_zeroes_witness:
  "wb_drop (map (\<lambda>_. 0))
     (fold (wb_extend_from_slice (\<lambda>n. n) (map (\<lambda>_. 0))) [[1, 2], [3, 4, 5]] (wb_with_capacity (\<lambda>n. n) 2)) =
     [[0, 0], [0, 0, 0, 0, 0]] \<and>
   wb_bytes (fold (wb_extend_from_slice (\<lambda>n. n) (map (\<lambda>_. 0))) [[1, 2], [3, 4, 5]]
     (wb_with_capacity (\<lambda>n. n) 2)) = [1, 2, 3, 4, 5]"
proof -
  have wipe: "\<And>bs :: bytes. set (map (\<lambda>_. 0) bs) \<subseteq> ({0} :: u8 set)"
    by auto
  from wiping_buffer_leaves_zeroes [where alloc = "\<lambda>n. n" and cap = 2 and pieces = "[[1, 2], [3, 4, 5]]",
      OF order_refl wipe]
  show ?thesis by code_simp
qed

end
