(* ===== verification/Nexa_Backend.thy ===== *)
theory Nexa_Backend
  imports Nexa_Prelude
begin

text \<open>
  Reading a backend's address and dialling it, \<open>crates/nexapipe/src/backend_conn.rs\<close>. Parsing
  a URL is the \<open>url\<close> crate's and is a parameter, as is the dial of one address: how long it
  takes when started at a moment, and whether it connects. Moments and durations are
  natural numbers of nanoseconds.
\<close>

section \<open>Addresses\<close>

text \<open>What the sources ask of a parsed URL.\<close>

record parsed_url =
  pu_scheme :: string
  pu_host_str :: "string option"
  pu_port :: "u16 option"
  pu_known_default :: "u16 option"
  pu_path :: string

definition port_or_known_default :: "parsed_url \<Rightarrow> u16 option" where
  "port_or_known_default u = (case pu_port u of Some p \<Rightarrow> Some p | None \<Rightarrow> pu_known_default u)"

datatype port_default = Required | SchemeOrBare u16

definition strip_ipv6_brackets :: "string \<Rightarrow> string" where
  "strip_ipv6_brackets host = trim_matches (\<lambda>c. c = CHR ''['' \<or> c = CHR '']'') host"

definition parse_backend_addr ::
    "(string \<Rightarrow> string + parsed_url) \<Rightarrow> port_default \<Rightarrow> string \<Rightarrow> (string \<times> u16) option" where
  "parse_backend_addr url_parse default_port backend0 =
     (let backend = str_trim backend0 in
      if backend = [] then None
      else if contains_str ''://'' backend then
        do {
          url \<leftarrow> res_ok (url_parse backend);
          host \<leftarrow> pu_host_str url;
          if host = [] then None
          else do {
            port \<leftarrow> (case pu_port url of
                      Some port \<Rightarrow> Some port
                    | None \<Rightarrow> (case default_port of
                                Required \<Rightarrow> None
                              | SchemeOrBare _ \<Rightarrow> port_or_known_default url));
            Some (strip_ipv6_brackets host, port)
          }
        }
      else
        (case strip_prefix ''['' backend of
           Some rest \<Rightarrow> do {
             (host, tail) \<leftarrow> split_once CHR '']'' rest;
             if host = [] then None
             else (case strip_prefix '':'' tail of
                     Some port \<Rightarrow> do { p \<leftarrow> parse_u16 port; Some (host, p) }
                   | None \<Rightarrow> (case default_port of
                               Required \<Rightarrow> None
                             | SchemeOrBare bare \<Rightarrow> Some (host, bare)))
           }
         | None \<Rightarrow>
             (case rsplit_once CHR '':'' backend of
                Some (host, port) \<Rightarrow>
                  if host = [] then None
                  else do { p \<leftarrow> parse_u16 port; Some (host, p) }
              | None \<Rightarrow> (case default_port of
                          Required \<Rightarrow> None
                        | SchemeOrBare bare \<Rightarrow> Some (backend, bare)))))"

definition passthrough_backend_addr :: "(string \<Rightarrow> string + parsed_url) \<Rightarrow> string \<Rightarrow> (string \<times> u16) option" where
  "passthrough_backend_addr url_parse backend = parse_backend_addr url_parse (SchemeOrBare 443) backend"

definition l4_backend_addr :: "(string \<Rightarrow> string + parsed_url) \<Rightarrow> string \<Rightarrow> (string \<times> u16) option" where
  "l4_backend_addr url_parse backend = parse_backend_addr url_parse Required backend"

section \<open>Dialling\<close>

definition MIN_ADDRESS_SHARE :: nat where "MIN_ADDRESS_SHARE = 250 * 1000000"

definition share_deadline :: "nat \<Rightarrow> nat \<Rightarrow> nat \<Rightarrow> nat" where
  "share_deadline now deadline left =
     (let remaining = deadline - now;
          share = remaining div max left 1
      in min (now + max share MIN_ADDRESS_SHARE) deadline)"

datatype 'a dial_outcome = DialFailed 'a | DialTimedOut 'a | DialNotTried 'a

text \<open>
  \<open>dial addr now\<close> is how long the dial takes and whether it connects. The result is the address that
  connected, or the outcome of every address, with the moment the function returns.
\<close>

fun connect_addrs_with ::
    "('a \<Rightarrow> nat \<Rightarrow> nat \<times> bool) \<Rightarrow> nat \<Rightarrow> nat \<Rightarrow> 'a dial_outcome list \<Rightarrow> 'a list \<Rightarrow>
      ('a dial_outcome list + 'a) \<times> nat" where
  "connect_addrs_with dial deadline now outcomes [] = (Inl outcomes, now)"
| "connect_addrs_with dial deadline now outcomes (addr # addrs) =
     (if deadline \<le> now then (Inl (outcomes @ map DialNotTried (addr # addrs)), now)
      else
        let attempt_deadline = share_deadline now deadline (length (addr # addrs));
            (took, connects) = dial addr now
        in if now + took \<le> attempt_deadline then
             (if connects then (Inr addr, now + took)
              else connect_addrs_with dial deadline (now + took) (outcomes @ [DialFailed addr]) addrs)
           else connect_addrs_with dial deadline attempt_deadline (outcomes @ [DialTimedOut addr]) addrs)"

section \<open>Properties\<close>

lemma share_deadline_le: "share_deadline now deadline n \<le> deadline"
  by (simp add: share_deadline_def Let_def)

text \<open>An address that spends its whole share leaves the addresses behind it theirs.\<close>

lemma share_left_over:
  assumes "Suc k * MIN_ADDRESS_SHARE \<le> deadline - now" and "t \<le> share_deadline now deadline (Suc k)"
    and "now \<le> deadline"
  shows "k * MIN_ADDRESS_SHARE \<le> deadline - t"
proof -
  let ?r = "deadline - now" and ?q = "(deadline - now) div Suc k"
  have q: "MIN_ADDRESS_SHARE \<le> ?q"
    using assms(1) by (simp add: less_eq_div_iff_mult_less_eq mult.commute)
  have le: "?q * Suc k \<le> ?r"
    by (rule div_times_less_eq_dividend)
  from assms(2) q have "t \<le> now + ?q"
    by (simp add: share_deadline_def Let_def)
  then have "deadline - t \<ge> ?r - ?q"
    using assms(3) by simp
  moreover have "?r - ?q \<ge> k * ?q"
    using le by (simp add: algebra_simps)
  moreover have "k * ?q \<ge> k * MIN_ADDRESS_SHARE"
    using q by simp
  ultimately show ?thesis by linarith
qed

lemma share_at_least:
  assumes "Suc k * MIN_ADDRESS_SHARE \<le> deadline - now"
  shows "now + MIN_ADDRESS_SHARE \<le> share_deadline now deadline (Suc k)"
proof -
  have "MIN_ADDRESS_SHARE \<le> deadline - now" "0 < MIN_ADDRESS_SHARE"
    using assms by (simp_all add: MIN_ADDRESS_SHARE_def)
  then show ?thesis by (simp add: share_deadline_def Let_def)
qed

lemma connect_addrs_reaches:
  assumes "length addrs * MIN_ADDRESS_SHARE \<le> deadline - now" and "now \<le> deadline"
    and "good \<in> set addrs" and "\<And>t. snd (dial good t) \<and> fst (dial good t) \<le> MIN_ADDRESS_SHARE"
  shows "\<exists>addr t. connect_addrs_with dial deadline now outcomes addrs = (Inr addr, t) \<and> t \<le> deadline"
  using assms(1-3)
proof (induction addrs arbitrary: now outcomes)
  case (Cons addr addrs)
  let ?n = "Suc (length addrs)" and ?ad = "share_deadline now deadline (Suc (length addrs))"
  obtain took c where d: "dial addr now = (took, c)" by fastforce
  have lt: "now < deadline"
    using Cons.prems(1) by (simp add: MIN_ADDRESS_SHARE_def)
  have budget: "?n * MIN_ADDRESS_SHARE \<le> deadline - now"
    using Cons.prems(1) by simp
  have rest: "\<exists>a t'. connect_addrs_with dial deadline t out addrs = (Inr a, t') \<and> t' \<le> deadline"
    if "t \<le> ?ad" "good \<in> set addrs" for t out
    using that Cons.IH [of t] share_left_over [OF budget that(1)] Cons.prems(2) share_deadline_le
      order_trans by blast
  show ?case
  proof (cases "now + took \<le> ?ad \<and> c")
    case True
    with lt d show ?thesis
      using share_deadline_le [of now deadline ?n] by (auto simp: Let_def)
  next
    case False
    have "addr \<noteq> good"
      using False d assms(4) [of now] share_at_least [OF budget] by auto
    with Cons.prems(3) have "good \<in> set addrs" by simp
    with lt d False rest show ?thesis
      by (auto simp: Let_def)
  qed
qed simp

lemma connect_addrs_deadline:
  "now \<le> deadline \<Longrightarrow> snd (connect_addrs_with dial deadline now outcomes addrs) \<le> deadline"
proof (induction dial deadline now outcomes addrs rule: connect_addrs_with.induct)
  case (2 dial deadline now outcomes addr addrs)
  then show ?case
    using share_deadline_le [of now deadline "Suc (length addrs)"]
    by (auto simp: Let_def split: prod.split)
qed simp

text \<open>
  C32: one address that never answers does not strand the ones behind it. When the budget holds the least
  share for every address, and one of them answers within that share whenever it is dialled, then
  whatever the others do the dial connects, and it returns by the deadline; with any budget at all it
  never returns later.
\<close>

theorem connect_reaches_a_live_address:
  assumes "length addrs * MIN_ADDRESS_SHARE \<le> deadline - now" and "now \<le> deadline"
    and "good \<in> set addrs" and "\<And>t. snd (dial good t) \<and> fst (dial good t) \<le> MIN_ADDRESS_SHARE"
  shows "(\<exists>addr. fst (connect_addrs_with dial deadline now [] addrs) = Inr addr) \<and>
    snd (connect_addrs_with dial deadline now [] addrs) \<le> deadline \<and>
    snd (connect_addrs_with dial short now [] addrs) \<le> max short now"
proof -
  have "snd (connect_addrs_with dial short now [] addrs) \<le> max short now"
    using connect_addrs_deadline [of now short dial "[]" addrs]
    by (cases "now \<le> short") (simp_all add: le_max_iff_disj, cases addrs, simp_all)
  with connect_addrs_reaches [of addrs deadline now good dial "[]"] assms show ?thesis
    by fastforce
qed

theorem connect_reaches_a_live_address_witness:
  "\<exists>addr. fst (connect_addrs_with (\<lambda>a t. if a = (1::nat) then (5, True) else (10 ^ 12, False))
     (10 ^ 9) 0 [] [7, 8, 1]) = Inr addr"
proof -
  have "length [7, 8, 1 :: nat] * MIN_ADDRESS_SHARE \<le> 10 ^ 9 - 0"
    by (simp add: MIN_ADDRESS_SHARE_def)
  then show ?thesis
    by (rule connect_reaches_a_live_address [where good = 1, THEN conjunct1])
       (simp_all add: MIN_ADDRESS_SHARE_def)
qed

lemma required_refines_default:
  "parse_backend_addr url_parse Required b = Some x \<Longrightarrow> parse_backend_addr url_parse (SchemeOrBare n) b = Some x"
proof (cases "contains_str ''://'' (str_trim b)")
  case True
  assume "parse_backend_addr url_parse Required b = Some x"
  with True show ?thesis
    by (simp add: parse_backend_addr_def Let_def bind_eq_Some_conv split: if_splits option.splits) blast+
next
  case False
  assume *: "parse_backend_addr url_parse Required b = Some x"
  show ?thesis
  proof (cases "strip_prefix ''['' (str_trim b)")
    case None
    with False * show ?thesis
      by (simp add: parse_backend_addr_def Let_def split: if_splits option.splits prod.splits)
  next
    case (Some rest)
    with False * obtain host tail where "split_once CHR '']'' rest = Some (host, tail)" and ne: "str_trim b \<noteq> []"
      by (cases "split_once CHR '']'' rest") (auto simp: parse_backend_addr_def Let_def split: if_splits)
    with False Some * show ?thesis
      by (simp add: parse_backend_addr_def Let_def split: if_splits option.splits)
  qed
qed

text \<open>
  An address that names its port is read the same way by the tunnel and by the passthrough: whatever
  the strict reading accepts, the reading with defaults accepts with the same host and port, so the
  port that was checked is the port that is dialled.
\<close>

theorem backend_addr_readings_agree:
  assumes "l4_backend_addr url_parse backend = Some (host, port)"
  shows "passthrough_backend_addr url_parse backend = Some (host, port)"
  using assms unfolding l4_backend_addr_def passthrough_backend_addr_def
  by (rule required_refines_default)

lemma sample_addr: "l4_backend_addr url_parse ''db:5432'' = Some (''db'', 5432)"
proof -
  have "str_trim ''db:5432'' = ''db:5432''" "\<not> contains_str ''://'' ''db:5432''"
    "rsplit_once CHR '':'' ''db:5432'' = Some (''db'', ''5432'')"
    by code_simp+
  moreover have "parse_u16 ''5432'' = Some 5432"
    by (simp add: parse_u16_def parse_nat_def digit_value_def)
  ultimately show ?thesis
    by (simp add: l4_backend_addr_def parse_backend_addr_def)
qed

theorem backend_addr_readings_agree_witness:
  "passthrough_backend_addr (\<lambda>_. Inl []) ''db:5432'' = Some (''db'', 5432)"
  by (rule backend_addr_readings_agree) (rule sample_addr)

section \<open>A port that is named and not found\<close>

text \<open>
  The \<open>url\<close> crate reports no port for a URL that spells its scheme's default port. With a parser
  that behaves so, an L4 backend written as a URL with that port is refused as if it named none.
\<close>

lemma default_port_url_refused:
  assumes "url_parse ''http://h:80'' =
    Inr \<lparr>pu_scheme = ''http'', pu_host_str = Some ''h'', pu_port = None, pu_known_default = Some 80, pu_path = ''/''\<rparr>"
  shows "l4_backend_addr url_parse ''http://h:80'' = None \<and>
    passthrough_backend_addr url_parse ''http://h:80'' = Some (''h'', 80)"
proof -
  have "str_trim ''http://h:80'' = ''http://h:80''" "contains_str ''://'' ''http://h:80''"
    "strip_ipv6_brackets ''h'' = ''h''"
    by code_simp+
  with assms show ?thesis
    by (simp add: l4_backend_addr_def passthrough_backend_addr_def parse_backend_addr_def
        port_or_known_default_def)
qed

end
