(* ===== verification/Nexa_Pool.thy ===== *)
theory Nexa_Pool
  imports Nexa_Backend
begin

text \<open>
  The backends behind a route, \<open>crates/nexapipe/src/lb/\<close>: the pool, its three
  strategies, the circuit breaker of each backend and the leases that count what is outstanding.
  A moment is a natural number of nanoseconds; the random number of the random strategy is
  an argument. The counters that the code keeps in a \<open>usize\<close> and lets wrap, the rotation and the
  outstanding work, are 64-bit words. A lease is the index of the backend it was taken on.
  URL parsing is the \<open>url\<close> crate's and is a parameter.
\<close>

section \<open>State\<close>

datatype strategy = RoundRobin | Random | LeastConn

datatype phase = Closed | Open

record circuit_state =
  cs_phase :: phase
  cs_failures :: nat
  cs_opened_at :: "nat option"

definition circuit_new :: circuit_state where
  "circuit_new = \<lparr>cs_phase = Closed, cs_failures = 0, cs_opened_at = None\<rparr>"

record circuit_breaker =
  cb_enabled :: bool
  cb_failure_threshold :: nat
  cb_reset :: nat

record backend_status =
  st_last_check :: "nat option"
  st_consecutive_failures :: nat

definition mark_healthy :: "nat \<Rightarrow> backend_status \<Rightarrow> backend_status" where
  "mark_healthy now s = s\<lparr>st_consecutive_failures := 0, st_last_check := Some now\<rparr>"

definition mark_unhealthy :: "nat \<Rightarrow> backend_status \<Rightarrow> backend_status" where
  "mark_unhealthy now s =
     s\<lparr>st_consecutive_failures := st_consecutive_failures s + 1, st_last_check := Some now\<rparr>"

record backend_entry =
  be_url :: string
  be_origin :: "string + string"
  be_healthy :: bool
  be_status :: backend_status
  be_in_flight :: u64
  be_circuit :: circuit_state
  be_breaker :: "circuit_breaker option"

record backend_pool =
  bp_backends :: "backend_entry list"
  bp_strategy :: strategy
  bp_round_robin_index :: u64

section \<open>Building a pool\<close>

definition origin_of :: "(string \<Rightarrow> string + parsed_url) \<Rightarrow> string \<Rightarrow> string + string" where
  "origin_of url_parse url =
     (case url_parse url of
        Inl e \<Rightarrow> Inl (''invalid backend URL: '' @ e)
      | Inr parsed \<Rightarrow>
          rbind (ok_or ''backend URL missing host'' (pu_host_str parsed)) (\<lambda>host.
          let port = (case port_or_known_default parsed of Some p \<Rightarrow> p | None \<Rightarrow> 80) in
          Inr (pu_scheme parsed @ ''://'' @ host @ '':'' @ show_nat (unat port))))"

definition backend_entry_new :: "(string \<Rightarrow> string + parsed_url) \<Rightarrow> string \<Rightarrow> backend_entry" where
  "backend_entry_new url_parse url =
     \<lparr>be_url = url, be_origin = origin_of url_parse url, be_healthy = True,
      be_status = \<lparr>st_last_check = None, st_consecutive_failures = 0\<rparr>,
      be_in_flight = 0, be_circuit = circuit_new, be_breaker = None\<rparr>"

definition pool_new :: "(string \<Rightarrow> string + parsed_url) \<Rightarrow> string list \<Rightarrow> strategy \<Rightarrow> backend_pool" where
  "pool_new url_parse backends strat =
     \<lparr>bp_backends = map (backend_entry_new url_parse) backends, bp_strategy = strat,
      bp_round_robin_index = 0\<rparr>"

text \<open>\<open>OnceLock::set\<close>: the first setting stays.\<close>

definition set_circuit_breaker :: "circuit_breaker \<Rightarrow> backend_pool \<Rightarrow> backend_pool" where
  "set_circuit_breaker breaker p =
     p\<lparr>bp_backends := map (\<lambda>b. if be_breaker b = None then b\<lparr>be_breaker := Some breaker\<rparr> else b)
                        (bp_backends p)\<rparr>"

section \<open>The circuit\<close>

definition circuit_allows :: "nat \<Rightarrow> backend_entry \<Rightarrow> bool" where
  "circuit_allows now b =
     (case be_breaker b of
        None \<Rightarrow> True
      | Some breaker \<Rightarrow>
          if \<not> cb_enabled breaker then True
          else
            (case cs_phase (be_circuit b) of
               Closed \<Rightarrow> True
             | Open \<Rightarrow>
                 (case cs_opened_at (be_circuit b) of
                    Some at \<Rightarrow> cb_reset breaker \<le> now - at
                  | None \<Rightarrow> True)))"

definition circuit_succeeded :: "backend_entry \<Rightarrow> backend_entry" where
  "circuit_succeeded b = b\<lparr>be_circuit := circuit_new\<rparr>"

definition circuit_failed :: "nat \<Rightarrow> backend_entry \<Rightarrow> backend_entry" where
  "circuit_failed now b =
     (case be_breaker b of
        None \<Rightarrow> b
      | Some breaker \<Rightarrow>
          if \<not> cb_enabled breaker then b
          else
            let c = be_circuit b;
                c1 = c\<lparr>cs_failures := cs_failures c + 1\<rparr>
            in if cs_phase c1 = Open \<or> cb_failure_threshold breaker \<le> cs_failures c1
               then b\<lparr>be_circuit := c1\<lparr>cs_phase := Open, cs_opened_at := Some now\<rparr>\<rparr>
               else b\<lparr>be_circuit := c1\<rparr>)"

section \<open>Choosing a backend\<close>

definition least_conn_pick :: "(nat \<times> u64) list \<Rightarrow> u64 \<Rightarrow> nat" where
  "least_conn_pick counts cursor =
     (let least = (case map snd counts of [] \<Rightarrow> 0 | c # cs \<Rightarrow> fold min cs c);
          tied = map fst (filter (\<lambda>c. snd c = least) counts)
      in tied ! (unat cursor mod length tied))"

definition update_backend :: "nat \<Rightarrow> (backend_entry \<Rightarrow> backend_entry) \<Rightarrow> backend_pool \<Rightarrow> backend_pool" where
  "update_backend i f p = p\<lparr>bp_backends := (bp_backends p)[i := f (bp_backends p ! i)]\<rparr>"

definition lease :: "nat \<Rightarrow> backend_pool \<Rightarrow> backend_pool" where
  "lease idx p = update_backend idx (\<lambda>b. b\<lparr>be_in_flight := be_in_flight b + 1\<rparr>) p"

definition drop_lease :: "nat \<Rightarrow> backend_pool \<Rightarrow> backend_pool" where
  "drop_lease idx p = update_backend idx (\<lambda>b. b\<lparr>be_in_flight := be_in_flight b - 1\<rparr>) p"

definition advance_rotation :: "backend_pool \<Rightarrow> backend_pool" where
  "advance_rotation p = p\<lparr>bp_round_robin_index := bp_round_robin_index p + 1\<rparr>"

definition healthy_backends :: "backend_pool \<Rightarrow> nat list" where
  "healthy_backends p =
     filter (\<lambda>i. be_healthy (bp_backends p ! i)) [0..<length (bp_backends p)]"

definition serving_backends :: "nat \<Rightarrow> backend_pool \<Rightarrow> nat list" where
  "serving_backends now p = filter (\<lambda>i. circuit_allows now (bp_backends p ! i)) (healthy_backends p)"

definition untried :: "string list \<Rightarrow> backend_pool \<Rightarrow> nat \<Rightarrow> bool" where
  "untried exclude p i \<longleftrightarrow> \<not> list_ex (\<lambda>e. e = be_url (bp_backends p ! i)) exclude"

definition candidate_backends :: "nat \<Rightarrow> string list \<Rightarrow> backend_pool \<Rightarrow> nat list" where
  "candidate_backends now exclude p =
     (let serving = serving_backends now p
      in if list_ex (untried exclude p) serving then filter (untried exclude p) serving else serving)"

definition select_backend_excluding ::
    "nat \<Rightarrow> u64 \<Rightarrow> string list \<Rightarrow> backend_pool \<Rightarrow> nat option \<times> backend_pool" where
  "select_backend_excluding now rand exclude p =
     (if healthy_backends p = [] then
        (if length (bp_backends p) = 1 then (Some 0, lease 0 p) else (None, p))
      else if serving_backends now p = [] then (None, p)
      else
        let candidates = candidate_backends now exclude p in
        case bp_strategy p of
          RoundRobin \<Rightarrow>
            let idx = candidates ! (unat (bp_round_robin_index p) mod length candidates)
            in (Some idx, lease idx (advance_rotation p))
        | Random \<Rightarrow>
            let idx = candidates ! unat (rand mod of_nat (length candidates))
            in (Some idx, lease idx p)
        | LeastConn \<Rightarrow>
            let counts = map (\<lambda>i. (i, be_in_flight (bp_backends p ! i))) candidates;
                idx = least_conn_pick counts (bp_round_robin_index p)
            in (Some idx, lease idx (advance_rotation p)))"

definition select_backend :: "nat \<Rightarrow> u64 \<Rightarrow> backend_pool \<Rightarrow> nat option \<times> backend_pool" where
  "select_backend now rand p = select_backend_excluding now rand [] p"

definition record_success :: "nat \<Rightarrow> backend_pool \<Rightarrow> backend_pool" where
  "record_success idx p = update_backend idx circuit_succeeded p"

definition record_failure :: "nat \<Rightarrow> nat \<Rightarrow> backend_pool \<Rightarrow> backend_pool" where
  "record_failure now idx p = update_backend idx (circuit_failed now) p"

definition pool_urls :: "backend_pool \<Rightarrow> string list" where
  "pool_urls p = map be_url (bp_backends p)"

definition outstanding :: "string \<Rightarrow> backend_pool \<Rightarrow> u64" where
  "outstanding url p =
     fold (\<lambda>b count. if be_url b = url then count + be_in_flight b else count) (bp_backends p) 0"

definition healthy_count :: "backend_pool \<Rightarrow> nat" where
  "healthy_count p = fold (\<lambda>b count. if be_healthy b then count + 1 else count) (bp_backends p) 0"

definition set_backend_health :: "nat \<Rightarrow> string \<Rightarrow> bool \<Rightarrow> backend_pool \<Rightarrow> backend_pool" where
  "set_backend_health now url healthy p =
     p\<lparr>bp_backends := map (\<lambda>b.
         if be_url b \<noteq> url then b
         else b\<lparr>be_healthy := healthy,
                be_status := (if healthy then mark_healthy now (be_status b)
                              else mark_unhealthy now (be_status b))\<rparr>) (bp_backends p)\<rparr>"

definition get_backend_statuses :: "backend_pool \<Rightarrow> (string \<times> bool) list" where
  "get_backend_statuses p = map (\<lambda>b. (be_url b, be_healthy b)) (bp_backends p)"

section \<open>What is chosen\<close>

lemma set_healthy_backends:
  "i \<in> set (healthy_backends p) \<longleftrightarrow> i < length (bp_backends p) \<and> be_healthy (bp_backends p ! i)"
  by (auto simp: healthy_backends_def)

lemma set_serving_backends:
  "i \<in> set (serving_backends now p) \<longleftrightarrow>
     i < length (bp_backends p) \<and> be_healthy (bp_backends p ! i) \<and> circuit_allows now (bp_backends p ! i)"
  by (auto simp: serving_backends_def set_healthy_backends)

lemma candidates_serving: "set (candidate_backends now exclude p) \<subseteq> set (serving_backends now p)"
  by (auto simp: candidate_backends_def Let_def)

lemma candidates_empty_iff: "candidate_backends now exclude p = [] \<longleftrightarrow> serving_backends now p = []"
  by (auto simp: candidate_backends_def Let_def filter_empty_conv list_ex_iff)

lemma candidates_untried:
  assumes "j \<in> set (serving_backends now p)" and "be_url (bp_backends p ! j) \<notin> set exclude"
    and "i \<in> set (candidate_backends now exclude p)"
  shows "be_url (bp_backends p ! i) \<notin> set exclude"
proof -
  have "list_ex (untried exclude p) (serving_backends now p)"
    using assms(1,2) by (auto simp: list_ex_iff untried_def)
  with assms(3) have "untried exclude p i"
    by (simp add: candidate_backends_def)
  then show ?thesis
    by (auto simp: untried_def list_ex_iff)
qed

lemma distinct_candidates: "distinct (candidate_backends now exclude p)"
  by (simp add: candidate_backends_def serving_backends_def healthy_backends_def Let_def)

lemma fold_min_le: "fold min cs (c :: 'a::linorder) \<le> c \<and> (\<forall>x \<in> set cs. fold min cs c \<le> x) \<and> fold min cs c \<in> set (c # cs)"
proof (induction cs arbitrary: c)
  case (Cons d cs)
  from Cons [of "min d c"] show ?case
    by (auto simp: min_def split: if_splits)
qed simp

lemma least_conn_pick_least:
  assumes "counts \<noteq> []"
  shows "\<exists>n. (least_conn_pick counts cursor, n) \<in> set counts \<and> (\<forall>c \<in> set counts. n \<le> snd c)"
proof -
  obtain c cs where c: "map snd counts = c # cs"
    using assms by (cases counts) auto
  define least where "least = fold min cs c"
  have in_set: "least \<in> set (map snd counts)" and le: "\<forall>n \<in> set (map snd counts). least \<le> n"
    using fold_min_le [of cs c] unfolding c least_def by auto
  define tied where "tied = map fst (filter (\<lambda>x. snd x = least) counts)"
  have "tied \<noteq> []"
    using in_set by (auto simp: tied_def filter_empty_conv)
  then have "tied ! (unat cursor mod length tied) \<in> set tied"
    by simp
  then have "(least_conn_pick counts cursor, least) \<in> set counts"
    by (auto simp: least_conn_pick_def c Let_def tied_def least_def)
  with le show ?thesis by auto
qed

lemma random_pick_in_range: "0 < n \<Longrightarrow> unat (rand mod of_nat n :: u64) < n"
proof -
  assume n: "0 < n"
  have eq: "unat (rand mod of_nat n :: u64) = unat rand mod (n mod 2 ^ 64)"
    by (simp add: unat_mod unat_of_nat)
  show ?thesis
  proof (cases "n mod 2 ^ 64 = 0")
    case True
    then have "2 ^ 64 dvd n" by presburger
    with n have "2 ^ 64 \<le> n" by (auto intro: dvd_imp_le)
    moreover have "unat rand < 2 ^ 64"
      using unsigned_less [of rand] by simp
    ultimately show ?thesis using eq True by simp
  next
    case False
    then have "unat rand mod (n mod 2 ^ 64) < n mod 2 ^ 64" by simp
    also have "\<dots> \<le> n" by simp
    finally show ?thesis using eq by simp
  qed
qed

lemma length_lease [simp]: "length (bp_backends (lease i p)) = length (bp_backends p)"
  by (simp add: lease_def update_backend_def)

lemma lease_nth:
  "j < length (bp_backends p) \<Longrightarrow> bp_backends (lease i p) ! j =
     (if j = i then (bp_backends p ! i)\<lparr>be_in_flight := be_in_flight (bp_backends p ! i) + 1\<rparr>
      else bp_backends p ! j)"
  by (simp add: lease_def update_backend_def nth_list_update)

lemma advance_rotation_simps [simp]:
  "bp_backends (advance_rotation p) = bp_backends p"
  "bp_strategy (advance_rotation p) = bp_strategy p"
  "bp_round_robin_index (advance_rotation p) = bp_round_robin_index p + 1"
  by (simp_all add: advance_rotation_def)

lemma lease_simps [simp]:
  "bp_strategy (lease i p) = bp_strategy p"
  "bp_round_robin_index (lease i p) = bp_round_robin_index p"
  "bp_backends (lease i (advance_rotation p)) = bp_backends (lease i p)"
  by (simp_all add: lease_def update_backend_def)

text \<open>Every outcome of a selection, in the code's own order.\<close>

lemma select_backend_cases:
  assumes "select_backend_excluding now rand exclude p = (r, p')"
  obtains
    (refused) "r = None" "p' = p" "serving_backends now p = []"
      "healthy_backends p \<noteq> [] \<or> length (bp_backends p) \<noteq> 1"
  | (sole) "r = Some 0" "p' = lease 0 p" "healthy_backends p = []" "length (bp_backends p) = 1"
  | (chosen) i where "r = Some i" "i \<in> set (candidate_backends now exclude p)"
      "bp_backends p' = bp_backends (lease i p)" "bp_strategy p' = bp_strategy p"
proof (cases "serving_backends now p = []")
  case True
  then show ?thesis
    using assms refused sole
    by (auto simp: select_backend_excluding_def split: if_splits)
next
  case False
  then have h: "healthy_backends p \<noteq> []"
    by (auto simp: serving_backends_def)
  let ?c = "candidate_backends now exclude p"
  have c: "?c \<noteq> []" using False by (simp add: candidates_empty_iff)
  have nth: "?c ! (k mod length ?c) \<in> set ?c" "?c ! unat (rand mod of_nat (length ?c)) \<in> set ?c" for k
    using c by (auto intro!: nth_mem random_pick_in_range)
  have lc: "least_conn_pick (map (\<lambda>i. (i, be_in_flight (bp_backends p ! i))) ?c) k \<in> set ?c" for k
    using least_conn_pick_least [of "map (\<lambda>i. (i, be_in_flight (bp_backends p ! i))) ?c" k] c by auto
  show ?thesis
    using assms False h nth lc chosen
    by (auto simp: select_backend_excluding_def Let_def split: strategy.splits)
qed

section \<open>Many selections\<close>

primrec selections ::
    "nat \<Rightarrow> string list \<Rightarrow> u64 list \<Rightarrow> backend_pool \<Rightarrow> nat option list \<times> backend_pool" where
  "selections now exclude [] p = ([], p)"
| "selections now exclude (r # rs) p =
     (let (i, p1) = select_backend_excluding now r exclude p;
          (is, p2) = selections now exclude rs p1
      in (i # is, p2))"

lemma circuit_allows_in_flight [simp]: "circuit_allows now (b\<lparr>be_in_flight := n\<rparr>) = circuit_allows now b"
  by (simp add: circuit_allows_def split: option.splits)

lemma candidates_lease [simp]:
  "healthy_backends (lease i p) = healthy_backends p"
  "serving_backends now (lease i p) = serving_backends now p"
  "candidate_backends now exclude (lease i p) = candidate_backends now exclude p"
proof -
  show h: "healthy_backends (lease i p) = healthy_backends p"
    by (auto simp: healthy_backends_def lease_nth intro!: filter_cong split: if_splits)
  have idx: "j < length (bp_backends p)" if "j \<in> set (healthy_backends p)" for j
    using that by (simp add: set_healthy_backends)
  show s: "serving_backends now (lease i p) = serving_backends now p"
    by (auto simp: serving_backends_def h lease_nth dest!: idx intro!: filter_cong split: if_splits)
  have "untried exclude (lease i p) j = untried exclude p j" if "j \<in> set (serving_backends now p)" for j
    using that by (auto simp: untried_def lease_nth set_serving_backends)
  then show "candidate_backends now exclude (lease i p) = candidate_backends now exclude p"
    by (auto simp: candidate_backends_def s Let_def list_ex_iff intro!: filter_cong)
qed

lemma candidates_advance [simp]:
  "healthy_backends (advance_rotation p) = healthy_backends p"
  "serving_backends now (advance_rotation p) = serving_backends now p"
  "candidate_backends now exclude (advance_rotation p) = candidate_backends now exclude p"
proof -
  have u: "untried exclude (advance_rotation p) = untried exclude p"
    by (rule ext) (simp add: untried_def)
  show h: "healthy_backends (advance_rotation p) = healthy_backends p"
    by (simp add: healthy_backends_def)
  then show s: "serving_backends now (advance_rotation p) = serving_backends now p"
    by (simp add: serving_backends_def)
  show "candidate_backends now exclude (advance_rotation p) = candidate_backends now exclude p"
    by (simp add: candidate_backends_def s u Let_def)
qed

lemma selections_round_robin:
  assumes "bp_strategy p = RoundRobin" and "serving_backends now p \<noteq> []"
    and "unat (bp_round_robin_index p) + length rs \<le> 2 ^ 64"
  shows "fst (selections now exclude rs p) =
    map (\<lambda>k. Some (candidate_backends now exclude p !
        ((unat (bp_round_robin_index p) + k) mod length (candidate_backends now exclude p)))) [0..<length rs]"
  using assms
proof (induction rs arbitrary: p)
  case (Cons r rs)
  let ?c = "candidate_backends now exclude p" and ?rr = "unat (bp_round_robin_index p)"
  define i where "i = ?c ! (?rr mod length ?c)"
  define p1 where "p1 = lease i (advance_rotation p)"
  have h: "healthy_backends p \<noteq> []"
    using Cons.prems(2) by (auto simp: serving_backends_def)
  have sel: "select_backend_excluding now r exclude p = (Some i, p1)"
    using Cons.prems(1,2) h by (simp add: select_backend_excluding_def Let_def i_def p1_def)
  show ?case
  proof (cases rs)
    case Nil
    then show ?thesis by (simp add: sel i_def split: prod.split)
  next
    case (Cons r' rs')
    with Cons.prems(3) have rr: "unat (bp_round_robin_index p + 1) = Suc ?rr"
      by (simp add: unat_word_ariths)
    have "fst (selections now exclude rs p1) =
        map (\<lambda>k. Some (?c ! ((Suc ?rr + k) mod length ?c))) [0..<length rs]"
      using Cons.IH [of p1] Cons.prems by (simp add: p1_def rr)
    moreover have "map (\<lambda>k. Some (?c ! ((?rr + k) mod length ?c))) [0..<length (r # rs)] =
        Some i # map (\<lambda>k. Some (?c ! ((Suc ?rr + k) mod length ?c))) [0..<length rs]"
      by (simp only: length_Cons map_upt_Suc) (simp add: i_def)
    ultimately show ?thesis
      by (simp add: sel case_prod_beta del: upt_Suc)
  qed
qed simp

section \<open>The circuit over time\<close>

datatype circuit_event = Answered | NotAnswered nat

primrec circuit_event_step :: "circuit_event \<Rightarrow> backend_entry \<Rightarrow> backend_entry" where
  "circuit_event_step Answered b = circuit_succeeded b"
| "circuit_event_step (NotAnswered now) b = circuit_failed now b"

text \<open>The failures since the last answer, most recent first, each with the moment it was seen.\<close>

primrec recent_failures :: "circuit_event list \<Rightarrow> nat list" where
  "recent_failures [] = []"
| "recent_failures (e # earlier) =
     (case e of Answered \<Rightarrow> [] | NotAnswered now \<Rightarrow> now # recent_failures earlier)"

lemma circuit_event_fold:
  assumes "be_breaker b = Some br" and "cb_enabled br" and "0 < cb_failure_threshold br"
    and "be_circuit b = circuit_new"
  shows "be_breaker (fold circuit_event_step events b) = Some br \<and>
    be_circuit (fold circuit_event_step events b) =
    (let fails = recent_failures (rev events) in
     if length fails < cb_failure_threshold br
     then \<lparr>cs_phase = Closed, cs_failures = length fails, cs_opened_at = None\<rparr>
     else \<lparr>cs_phase = Open, cs_failures = length fails, cs_opened_at = Some (hd fails)\<rparr>)"
proof (induction events rule: rev_induct)
  case Nil
  with assms show ?case by (simp add: circuit_new_def)
next
  case (snoc e events)
  then show ?case
    using assms(2,3)
    by (cases e)
       (auto simp: circuit_succeeded_def circuit_failed_def circuit_new_def Let_def split: if_splits)
qed

section \<open>Leases\<close>

text \<open>
  A pool in use: the backends, and the leases that are out. Requests select, report and let go in any
  order; the health checks set flags.
\<close>

inductive pool_step :: "backend_pool \<times> nat list \<Rightarrow> backend_pool \<times> nat list \<Rightarrow> bool" where
  step_select: "select_backend_excluding now rand exclude p = (Some i, p') \<Longrightarrow>
    pool_step (p, ls) (p', i # ls)"
| step_refused: "select_backend_excluding now rand exclude p = (None, p') \<Longrightarrow> pool_step (p, ls) (p', ls)"
| step_drop: "i \<in> set ls \<Longrightarrow> pool_step (p, ls) (drop_lease i p, remove1 i ls)"
| step_success: "i \<in> set ls \<Longrightarrow> pool_step (p, ls) (record_success i p, ls)"
| step_failure: "i \<in> set ls \<Longrightarrow> pool_step (p, ls) (record_failure now i p, ls)"
| step_health: "pool_step (p, ls) (set_backend_health now url up p, ls)"

inductive_cases pool_stepE: "pool_step (p, ls) s'"

definition leases_ok :: "backend_pool \<times> nat list \<Rightarrow> bool" where
  "leases_ok s \<longleftrightarrow>
     (\<forall>i < length (bp_backends (fst s)). be_in_flight (bp_backends (fst s) ! i) = of_nat (count_list (snd s) i)) \<and>
     (\<forall>i \<in> set (snd s). i < length (bp_backends (fst s)))"

lemma circuit_in_flight [simp]:
  "be_in_flight (circuit_succeeded b) = be_in_flight b"
  "be_in_flight (circuit_failed now b) = be_in_flight b"
  by (simp_all add: circuit_succeeded_def circuit_failed_def Let_def split: option.split)

lemma update_backend_nth:
  "j < length (bp_backends p) \<Longrightarrow>
     bp_backends (update_backend i f p) ! j = (if j = i then f (bp_backends p ! i) else bp_backends p ! j)"
  by (simp add: update_backend_def nth_list_update)

lemma length_update_backend [simp]: "length (bp_backends (update_backend i f p)) = length (bp_backends p)"
  by (simp add: update_backend_def)

lemma count_list_remove1: "count_list (remove1 i xs) j = (if i = j \<and> i \<in> set xs then count_list xs j - 1 else count_list xs j)"
  by (induction xs) auto

lemma leases_ok_select:
  assumes "select_backend_excluding now rand exclude p = (Some i, p')" and "leases_ok (p, ls)"
  shows "leases_ok (p', i # ls) \<and> length (bp_backends p') = length (bp_backends p)"
  using assms(1)
proof (cases rule: select_backend_cases)
  case sole
  with assms(2) show ?thesis
    by (auto simp: leases_ok_def lease_nth)
next
  case (chosen j)
  then have "i < length (bp_backends p)"
    using candidates_serving [of now exclude p] by (auto simp: set_serving_backends)
  with chosen assms(2) show ?thesis
    by (auto simp: leases_ok_def lease_nth)
qed simp

lemma leases_ok_drop:
  assumes "leases_ok (p, ls)" and "i \<in> set ls"
  shows "leases_ok (drop_lease i p, remove1 i ls)"
proof -
  have "0 < count_list ls i"
    using assms(2) by (induction ls) auto
  then obtain k where k: "count_list ls i = Suc k"
    by (cases "count_list ls i") auto
  with assms show ?thesis
    by (auto simp: leases_ok_def drop_lease_def update_backend_nth count_list_remove1
             dest: set_remove1_subset [THEN subsetD])
qed

lemma leases_ok_step:
  assumes "pool_step s s'" and "leases_ok s"
  shows "leases_ok s' \<and> length (bp_backends (fst s')) = length (bp_backends (fst s))"
  using assms
proof cases
  case (step_select now rand exclude p i p' ls)
  with assms(2) leases_ok_select show ?thesis by fastforce
next
  case (step_refused now rand exclude p p' ls)
  then show ?thesis
    using assms(2) by (auto elim!: select_backend_cases)
next
  case (step_drop i ls p)
  with assms(2) leases_ok_drop show ?thesis by (auto simp: drop_lease_def)
next
  case (step_success i ls p)
  with assms(2) show ?thesis
    by (auto simp: leases_ok_def record_success_def update_backend_nth)
next
  case (step_failure i ls p now)
  with assms(2) show ?thesis
    by (auto simp: leases_ok_def record_failure_def update_backend_nth)
next
  case (step_health p ls now url up)
  with assms(2) show ?thesis
    by (auto simp: leases_ok_def set_backend_health_def)
qed

section \<open>The contract of a selection\<close>

text \<open>
  What the routes rely on: a backend that is handed out is one of the pool's, and a refusal leaves
  the pool as it was and means that nothing in it is serving.
\<close>

locale backend_selector =
  fixes select :: "'p \<Rightarrow> 'i option \<times> 'p"
    and serves :: "'p \<Rightarrow> 'i \<Rightarrow> bool"
    and known :: "'p \<Rightarrow> 'i \<Rightarrow> bool"
  assumes select_known: "select p = (Some i, p') \<Longrightarrow> known p i"
    and select_refuses: "select p = (None, p') \<Longrightarrow> p' = p \<and> (\<forall>i. \<not> serves p i)"
begin

lemma serving_selects: "serves p i \<Longrightarrow> \<exists>j p'. select p = (Some j, p') \<and> known p j"
  using select_known select_refuses by (cases "select p"; cases "fst (select p)") fastforce+

end

definition pool_serves :: "nat \<Rightarrow> backend_pool \<Rightarrow> nat \<Rightarrow> bool" where
  "pool_serves now p i \<longleftrightarrow>
     i < length (bp_backends p) \<and> be_healthy (bp_backends p ! i) \<and> circuit_allows now (bp_backends p ! i)"

definition pool_has :: "backend_pool \<Rightarrow> nat \<Rightarrow> bool" where
  "pool_has p i \<longleftrightarrow> i < length (bp_backends p)"

lemma serving_iff: "i \<in> set (serving_backends now p) \<longleftrightarrow> pool_serves now p i"
  by (simp add: set_serving_backends pool_serves_def)

interpretation pool_selector:
  backend_selector "select_backend_excluding now rand exclude" "pool_serves now" pool_has
proof (unfold_locales, goal_cases)
  case (1 p i p')
  then show ?case
    using candidates_serving [of now exclude p]
    by (cases rule: select_backend_cases) (auto simp: pool_has_def set_serving_backends)
next
  case (2 p p')
  then show ?case
    by (cases rule: select_backend_cases) (auto simp flip: serving_iff)
qed

section \<open>Properties\<close>

text \<open>The outcome of a selection, and what it changes.\<close>

lemma select_backend_spec:
  assumes "select_backend_excluding now rand exclude p = (r, p')"
  shows "case r of
    None \<Rightarrow> p' = p \<and> (\<forall>i. \<not> pool_serves now p i) \<and>
      \<not> (length (bp_backends p) = 1 \<and> \<not> be_healthy (bp_backends p ! 0))
  | Some i \<Rightarrow> i < length (bp_backends p) \<and>
      (pool_serves now p i \<or> length (bp_backends p) = 1 \<and> \<not> be_healthy (bp_backends p ! i)) \<and>
      ((\<exists>j. pool_serves now p j \<and> be_url (bp_backends p ! j) \<notin> set exclude) \<longrightarrow>
         be_url (bp_backends p ! i) \<notin> set exclude) \<and>
      bp_backends p' = (bp_backends p)[i := (bp_backends p ! i)
        \<lparr>be_in_flight := be_in_flight (bp_backends p ! i) + 1\<rparr>]"
  using assms
proof (cases rule: select_backend_cases)
  case refused
  then have "\<not> pool_serves now p i" for i
    using serving_iff [of i now p] by simp
  moreover have "\<not> (length (bp_backends p) = 1 \<and> \<not> be_healthy (bp_backends p ! 0))"
    using refused(4) set_healthy_backends [of "hd (healthy_backends p)" p] by auto
  ultimately show ?thesis using refused by simp
next
  case sole
  have "\<not> be_healthy (bp_backends p ! 0)" and "\<not> pool_serves now p j" for j
    using sole set_healthy_backends [of 0 p] set_healthy_backends [of j p]
    by (auto simp: pool_serves_def)
  with sole show ?thesis
    by (simp add: lease_def update_backend_def)
next
  case (chosen i)
  then have i: "pool_serves now p i"
    using candidates_serving serving_iff by blast
  have "be_url (bp_backends p ! i) \<notin> set exclude"
    if "\<exists>j. pool_serves now p j \<and> be_url (bp_backends p ! j) \<notin> set exclude"
    using that chosen(2) candidates_untried serving_iff by blast
  moreover have "i < length (bp_backends p)"
    using i by (simp add: pool_serves_def)
  moreover have "bp_backends (lease i p) = (bp_backends p)[i := (bp_backends p ! i)
      \<lparr>be_in_flight := be_in_flight (bp_backends p ! i) + 1\<rparr>]"
    by (simp add: lease_def update_backend_def)
  ultimately show ?thesis
    using chosen i by simp
qed


text \<open>A pool of two, one of them down, to evaluate on.\<close>

definition sample_entry :: "string \<Rightarrow> bool \<Rightarrow> u64 \<Rightarrow> backend_entry" where
  "sample_entry url up n =
     \<lparr>be_url = url, be_origin = Inl [], be_healthy = up,
      be_status = \<lparr>st_last_check = None, st_consecutive_failures = 0\<rparr>,
      be_in_flight = n, be_circuit = circuit_new, be_breaker = None\<rparr>"

definition sample_pool :: "strategy \<Rightarrow> backend_pool" where
  "sample_pool strat =
     \<lparr>bp_backends = [sample_entry ''a'' True 2, sample_entry ''b'' False 0, sample_entry ''c'' True 1],
      bp_strategy = strat, bp_round_robin_index = 7\<rparr>"

lemma sample_select:
  "select_backend_excluding 0 0 [''a''] (sample_pool RoundRobin) =
     (Some 2, lease 2 (advance_rotation (sample_pool RoundRobin)))"
  by code_simp


text \<open>
  Under the least-connections strategy the backend that is handed out has no more requests
  outstanding than any other backend the request could have gone to.
\<close>

theorem least_conn_minimal:
  assumes "select_backend_excluding now rand exclude p = (Some i, p')" and "bp_strategy p = LeastConn"
    and "j \<in> set (candidate_backends now exclude p)"
  shows "be_in_flight (bp_backends p ! i) \<le> be_in_flight (bp_backends p ! j)"
proof -
  let ?c = "candidate_backends now exclude p"
  let ?counts = "map (\<lambda>i. (i, be_in_flight (bp_backends p ! i))) ?c"
  have ne: "?c \<noteq> []" using assms(3) by auto
  then have "serving_backends now p \<noteq> []" "healthy_backends p \<noteq> []"
    by (auto simp: candidates_empty_iff serving_backends_def)
  with assms(1,2) have "i = least_conn_pick ?counts (bp_round_robin_index p)"
    by (auto simp: select_backend_excluding_def Let_def)
  with least_conn_pick_least [of ?counts] ne assms(3) show ?thesis
    by fastforce
qed

theorem least_conn_minimal_witness:
  "be_in_flight (bp_backends (sample_pool LeastConn) ! 2) \<le> be_in_flight (bp_backends (sample_pool LeastConn) ! 0)"
proof -
  have "select_backend_excluding 0 0 [] (sample_pool LeastConn) =
      (Some 2, lease 2 (advance_rotation (sample_pool LeastConn)))"
    "candidate_backends 0 [] (sample_pool LeastConn) = [0, 2]" "bp_strategy (sample_pool LeastConn) = LeastConn"
    by code_simp+
  then show ?thesis
    using least_conn_minimal [where j = 0] by auto
qed

text \<open>
  C36: round robin is a rotation. As many requests in a row as there are backends to choose from
  go to each of them exactly once, in the order of the pool starting where the rotation is, unless the
  64-bit cursor wraps in between.
\<close>

theorem round_robin_rotates:
  assumes "bp_strategy p = RoundRobin" and "candidate_backends now exclude p \<noteq> []"
    and "length rs = length (candidate_backends now exclude p)"
    and "unat (bp_round_robin_index p) + length rs \<le> 2 ^ 64"
  shows "fst (selections now exclude rs p) =
    map Some (rotate (unat (bp_round_robin_index p)) (candidate_backends now exclude p))"
proof -
  have "serving_backends now p \<noteq> []"
    using assms(2) by (simp add: candidates_empty_iff)
  then show ?thesis
    using assms by (intro nth_equalityI)
      (simp_all add: selections_round_robin nth_rotate add.commute)
qed

theorem round_robin_rotates_witness:
  "fst (selections 0 [] [0, 0] (sample_pool RoundRobin)) = [Some 2, Some 0]"
proof -
  let ?p = "sample_pool RoundRobin"
  have c: "candidate_backends 0 [] ?p = [0, 2]"
    by code_simp
  have p: "bp_strategy ?p = RoundRobin" "bp_round_robin_index ?p = 7"
    by (simp_all add: sample_pool_def)
  have "fst (selections 0 [] [0, 0] ?p) = map Some (rotate (unat (bp_round_robin_index ?p)) (candidate_backends 0 [] ?p))"
    by (rule round_robin_rotates) (simp_all add: c p)
  also have "\<dots> = [Some 2, Some 0]"
    by (simp add: c p rotate_drop_take flip: numeral_2_eq_2)
  finally show ?thesis .
qed



text \<open>
  The outstanding counters are the leases. In every state a pool reaches from its construction,
  however selections, releases, reports and health changes interleave, the counter of a backend is the
  number of leases that are out on it.
\<close>

theorem leases_counted:
  assumes "pool_step\<^sup>*\<^sup>* (pool_new url_parse urls strat, []) (p, ls)" and "i < length urls"
  shows "be_in_flight (bp_backends p ! i) = of_nat (count_list ls i)"
proof -
  have "leases_ok (p, ls) \<and> length (bp_backends p) = length urls"
    using assms(1)
  proof (induction "(p, ls)" arbitrary: p ls rule: rtranclp_induct)
    case base
    then show ?case
      by (simp add: leases_ok_def pool_new_def backend_entry_new_def)
  next
    case (step s p ls)
    then show ?case
      using leases_ok_step [of s "(p, ls)"] by (cases s) auto
  qed
  with assms(2) show ?thesis
    by (simp add: leases_ok_def)
qed

theorem leases_counted_witness:
  "be_in_flight (bp_backends (lease 0 (pool_new (\<lambda>_. Inl []) [''a''] Random)) ! 0) = 1"
proof -
  have "select_backend_excluding 0 0 [] (pool_new (\<lambda>_. Inl []) [''a''] Random) =
      (Some 0, lease 0 (pool_new (\<lambda>_. Inl []) [''a''] Random))"
    by code_simp
  then have "pool_step\<^sup>*\<^sup>* (pool_new (\<lambda>_. Inl []) [''a''] Random, [])
      (lease 0 (pool_new (\<lambda>_. Inl []) [''a''] Random), [0])"
    by (intro r_into_rtranclp step_select)
  from leases_counted [OF this, of 0] show ?thesis
    by simp
qed

section \<open>Where the comments say more than the code does\<close>

text \<open>
  A pool of one healthy backend whose circuit is open is refused, although the comment on
  \<open>select_backend\<close> says that a pool of one never is; and once the reset time has passed an
  open circuit lets every request through until one of them reports, not a single trial.
\<close>

lemma pool_of_one_refused:
  "fst (select_backend 12 0 (pool_new (\<lambda>_. Inl []) [''a''] RoundRobin
     \<lparr>bp_backends := [sample_entry ''a'' True 0
        \<lparr>be_breaker := Some \<lparr>cb_enabled = True, cb_failure_threshold = 2, cb_reset = 5\<rparr>,
         be_circuit := \<lparr>cs_phase = Open, cs_failures = 2, cs_opened_at = Some 9\<rparr>\<rparr>]\<rparr>)) = None"
  by code_simp

lemma open_circuit_lets_many_through:
  "fst (selections 14 [] [0, 0, 0] (pool_new (\<lambda>_. Inl []) [''a''] RoundRobin
     \<lparr>bp_backends := [sample_entry ''a'' True 0
        \<lparr>be_breaker := Some \<lparr>cb_enabled = True, cb_failure_threshold = 2, cb_reset = 5\<rparr>,
         be_circuit := \<lparr>cs_phase = Open, cs_failures = 2, cs_opened_at = Some 9\<rparr>\<rparr>]\<rparr>)) =
     [Some 0, Some 0, Some 0]"
  by code_simp

end
