(* ===== verification/Nexa_Acl.thy ===== *)
theory Nexa_Acl
  imports Nexa_Host Nexa_Auth_Wire
begin

text \<open>
  Who may be here and what they may reach: the hosts and ports of an authenticated client
  (\<open>crates/nexapipe/src/auth/config/acl.rs\<close>) and the allow list of peers
  (\<open>crates/nexapipe/src/conn/allow_list.rs\<close>). A set of endpoint ids is the list of its members.
\<close>

section \<open>Client ACL\<close>

record client_acl =
  acl_hosts :: "string list option"
  acl_ports :: "u16 list option"
  acl_strict_ports :: bool

definition acl_unrestricted :: client_acl where
  "acl_unrestricted = \<lparr>acl_hosts = None, acl_ports = None, acl_strict_ports = False\<rparr>"

definition acl_from_hosts_and_ports :: "string list option \<Rightarrow> u16 list option \<Rightarrow> client_acl" where
  "acl_from_hosts_and_ports hosts ports =
     \<lparr>acl_hosts = map_option (map normalize_pattern) hosts, acl_ports = ports, acl_strict_ports = False\<rparr>"

definition acl_from_hosts :: "string list option \<Rightarrow> client_acl" where
  "acl_from_hosts hosts = acl_from_hosts_and_ports hosts None"

definition acl_with_strict_ports :: "bool \<Rightarrow> client_acl \<Rightarrow> client_acl" where
  "acl_with_strict_ports strict acl = acl\<lparr>acl_strict_ports := strict\<rparr>"

definition acl_allows_port :: "client_acl \<Rightarrow> u16 \<Rightarrow> bool" where
  "acl_allows_port acl port =
     (case acl_ports acl of None \<Rightarrow> True | Some ports \<Rightarrow> port \<in> set ports)"

definition acl_allows_backend_port :: "client_acl \<Rightarrow> u16 \<Rightarrow> bool" where
  "acl_allows_backend_port acl port =
     (if \<not> acl_strict_ports acl then True else acl_allows_port acl port)"

definition acl_allows :: "client_acl \<Rightarrow> string \<Rightarrow> bool" where
  "acl_allows acl host =
     (case acl_hosts acl of
        None \<Rightarrow> True
      | Some patterns \<Rightarrow>
          let host = normalize_host host in list_ex (\<lambda>pattern. host_matches pattern host) patterns)"

definition acl_allows_target :: "client_acl \<Rightarrow> string \<Rightarrow> u16 \<Rightarrow> bool" where
  "acl_allows_target acl host port \<longleftrightarrow> acl_allows acl host \<and> acl_allows_port acl port"

definition acl_limits_ports :: "client_acl \<Rightarrow> bool" where
  "acl_limits_ports acl \<longleftrightarrow> acl_ports acl \<noteq> None"

section \<open>Peers\<close>

record 'id peer_allow_list =
  pal_allowed :: "'id list option"

definition pal_is_configured :: "'id peer_allow_list \<Rightarrow> bool" where
  "pal_is_configured l \<longleftrightarrow> pal_allowed l \<noteq> None"

definition pal_len :: "'id peer_allow_list \<Rightarrow> nat" where
  "pal_len l = (case pal_allowed l of None \<Rightarrow> 0 | Some s \<Rightarrow> length (remdups s))"

definition pal_is_empty :: "'id peer_allow_list \<Rightarrow> bool" where
  "pal_is_empty l \<longleftrightarrow> pal_len l = 0"

definition pal_allows :: "'id peer_allow_list \<Rightarrow> 'id \<Rightarrow> bool" where
  "pal_allows l peer = (case pal_allowed l of Some allowed \<Rightarrow> peer \<in> set allowed | None \<Rightarrow> True)"

datatype handshake_outcome = Accept | Reject u32 bytes

definition PEER_NOT_ALLOWED_REASON :: bytes where
  "PEER_NOT_ALLOWED_REASON = as_bytes ''this peer is not in the server's allow list''"

definition after_handshake :: "'id peer_allow_list \<Rightarrow> 'id \<Rightarrow> handshake_outcome" where
  "after_handshake l peer =
     (if pal_allows l peer then Accept
      else Reject CLOSE_PEER_NOT_ALLOWED PEER_NOT_ALLOWED_REASON)"

section \<open>Properties\<close>

lemma acl_from_allows:
  "acl_allows (acl_from_hosts_and_ports hosts ports) host \<longleftrightarrow>
     (case hosts of None \<Rightarrow> True | Some ps \<Rightarrow> host_matches_any ps host)"
  by (auto simp: acl_allows_def acl_from_hosts_and_ports_def host_matches_any_def list_ex_iff Let_def
           split: option.split)

text \<open>
  C39: a client may reach a target exactly when one of its host patterns matches the host by the rule the
  routes use and the port is one of its ports, either list being no restriction when it is not
  configured. A client can reach every host only when it has no host list or the catch-all is written
  in it, and checking the port a request is served from, when that is asked for, only ever refuses more.
\<close>

theorem acl_target_rule:
  "(acl_allows_target (acl_with_strict_ports strict (acl_from_hosts_and_ports hosts ports)) host port \<longleftrightarrow>
     (\<forall>ps. hosts = Some ps \<longrightarrow> host_matches_any ps host) \<and> (\<forall>qs. ports = Some qs \<longrightarrow> port \<in> set qs)) \<and>
   ((\<forall>h. acl_allows (acl_from_hosts_and_ports hosts ports) h) \<longleftrightarrow>
     (\<forall>ps. hosts = Some ps \<longrightarrow> ''*'' \<in> set ps)) \<and>
   (acl_allows_backend_port (acl_with_strict_ports True acl) port \<longrightarrow>
     acl_allows_backend_port (acl_with_strict_ports strict acl) port)"
proof (intro conjI)
  have strict: "acl_allows (acl_with_strict_ports strict a) = acl_allows a"
    "acl_allows_port (acl_with_strict_ports strict a) = acl_allows_port a" for a
    by (simp_all add: acl_with_strict_ports_def acl_allows_def acl_allows_port_def fun_eq_iff)
  show "acl_allows_target (acl_with_strict_ports strict (acl_from_hosts_and_ports hosts ports)) host port \<longleftrightarrow>
     (\<forall>ps. hosts = Some ps \<longrightarrow> host_matches_any ps host) \<and> (\<forall>qs. ports = Some qs \<longrightarrow> port \<in> set qs)"
    by (auto simp: acl_allows_target_def strict acl_from_allows)
       (auto simp: acl_allows_port_def acl_from_hosts_and_ports_def split: option.splits)
  show "(\<forall>h. acl_allows (acl_from_hosts_and_ports hosts ports) h) \<longleftrightarrow>
     (\<forall>ps. hosts = Some ps \<longrightarrow> ''*'' \<in> set ps)"
    using nexa_host.every_name_iff
    by (cases hosts) (simp_all add: acl_from_allows host_matches_any_def Let_def list_ex_iff)
  show "acl_allows_backend_port (acl_with_strict_ports True acl) port \<longrightarrow>
     acl_allows_backend_port (acl_with_strict_ports strict acl) port"
    by (auto simp: acl_allows_backend_port_def acl_with_strict_ports_def acl_allows_port_def)
qed

theorem acl_target_rule_witness:
  "acl_allows_target (acl_with_strict_ports True (acl_from_hosts_and_ports (Some [''*.a'']) (Some [443]))) ''x.A.'' 443 \<and>
   \<not> acl_allows_target (acl_with_strict_ports True (acl_from_hosts_and_ports (Some [''*.a'']) (Some [443]))) ''x.A.'' 80"
proof -
  have "host_matches_any [''*.a''] ''x.A.''"
    by code_simp
  then show ?thesis
    using acl_target_rule [of True "Some [''*.a'']" "Some [443]" "''x.A.''" 443]
      acl_target_rule [of True "Some [''*.a'']" "Some [443]" "''x.A.''" 80]
    by simp
qed

text \<open>
  With an allow list of peers a connection is accepted exactly when its peer is on the list, and every
  other peer is sent the same close code and the same fixed reason; with none configured every
  peer is accepted.
\<close>

lemma after_handshake_cases:
  "after_handshake l peer =
     (if \<exists>allowed. pal_allowed l = Some allowed \<and> peer \<notin> set allowed
      then Reject CLOSE_PEER_NOT_ALLOWED PEER_NOT_ALLOWED_REASON else Accept)"
  by (auto simp: after_handshake_def pal_allows_def split: option.splits)

end
