(* ===== verification/Nexa_Timing.thy ===== *)
theory Nexa_Timing
  imports Nexa_Pool
begin

text \<open>
  How long each phase may take, how often a request is tried again and when a circuit opens: the
  constants of \<open>crates/nexapipe-proto/src/deadline.rs\<close>, the phase budgets of
  \<open>crates/nexapipe/src/deadline.rs\<close> and the resolved sections of
  \<open>crates/nexapipe/src/config/schema.rs\<close>. A key of a section is \<open>None\<close> when the file does not
  write it. Durations are natural numbers of nanoseconds.
\<close>

section \<open>Durations\<close>

definition from_secs :: "u64 \<Rightarrow> nat" where
  "from_secs s = unat s * 1000000000"

definition from_millis :: "u64 \<Rightarrow> nat" where
  "from_millis ms = unat ms * 1000000"

lemma from_secs_mono [simp]: "from_secs a \<le> from_secs b \<longleftrightarrow> a \<le> b"
  by (simp add: from_secs_def word_le_nat_alt)

lemma from_secs_pos [simp]: "0 < from_secs a \<longleftrightarrow> a \<noteq> 0"
  by (simp add: from_secs_def unat_gt_0)

section \<open>Phase budgets\<close>

definition HEADER_SECS :: u64 where "HEADER_SECS = 30"
definition TLS_HELLO_SECS :: u64 where "TLS_HELLO_SECS = 10"
definition STREAM_SECS :: u64 where "STREAM_SECS = 3600"

definition DEFAULT_HEADER_SECS :: u64 where "DEFAULT_HEADER_SECS = HEADER_SECS"
definition DEFAULT_BODY_SECS :: u64 where "DEFAULT_BODY_SECS = 300"
definition DEFAULT_RESPONSE_IDLE_SECS :: u64 where "DEFAULT_RESPONSE_IDLE_SECS = 120"
definition DEFAULT_L4_FLOW_SECS :: u64 where "DEFAULT_L4_FLOW_SECS = STREAM_SECS"
definition DEFAULT_L4_IDLE_SECS :: u64 where "DEFAULT_L4_IDLE_SECS = 60"
definition DEFAULT_TLS_HELLO_SECS :: u64 where "DEFAULT_TLS_HELLO_SECS = TLS_HELLO_SECS"

definition MAX_SECS :: u64 where "MAX_SECS = 86400"

record deadlines =
  dl_header :: nat
  dl_body :: nat
  dl_response_idle :: nat
  dl_l4_flow :: nat
  dl_l4_idle :: nat
  dl_tls_hello :: nat

record overrides =
  ov_header_secs :: "u64 option"
  ov_body_secs :: "u64 option"
  ov_response_idle_secs :: "u64 option"
  ov_l4_flow_secs :: "u64 option"
  ov_l4_idle_secs :: "u64 option"
  ov_tls_hello_secs :: "u64 option"

definition or_default :: "u64 option \<Rightarrow> u64 \<Rightarrow> nat" where
  "or_default v def = from_secs (min (case v of Some s \<Rightarrow> s | None \<Rightarrow> def) MAX_SECS)"

definition deadlines_resolve :: "overrides \<Rightarrow> deadlines" where
  "deadlines_resolve ov =
     \<lparr>dl_header = or_default (ov_header_secs ov) DEFAULT_HEADER_SECS,
      dl_body = or_default (ov_body_secs ov) DEFAULT_BODY_SECS,
      dl_response_idle = or_default (ov_response_idle_secs ov) DEFAULT_RESPONSE_IDLE_SECS,
      dl_l4_flow = or_default (ov_l4_flow_secs ov) DEFAULT_L4_FLOW_SECS,
      dl_l4_idle = or_default (ov_l4_idle_secs ov) DEFAULT_L4_IDLE_SECS,
      dl_tls_hello = or_default (ov_tls_hello_secs ov) DEFAULT_TLS_HELLO_SECS\<rparr>"

section \<open>The resolved sections\<close>

record timeouts_config =
  tc_connect_secs :: "u64 option"
  tc_response_secs :: "u64 option"
  tc_header_secs :: "u64 option"
  tc_body_secs :: "u64 option"
  tc_response_idle_secs :: "u64 option"
  tc_l4_flow_secs :: "u64 option"
  tc_l4_idle_secs :: "u64 option"
  tc_tls_hello_secs :: "u64 option"

record timeouts =
  to_connect :: nat
  to_response :: nat
  to_deadlines :: deadlines

definition DEFAULT_CONNECT :: nat where "DEFAULT_CONNECT = from_secs 10"
definition DEFAULT_RESPONSE :: nat where "DEFAULT_RESPONSE = from_secs 30"
definition TIMEOUTS_MAX_SECS :: u64 where "TIMEOUTS_MAX_SECS = 3600"

definition timeouts_resolve :: "timeouts_config \<Rightarrow> timeouts" where
  "timeouts_resolve config =
     \<lparr>to_connect = (case tc_connect_secs config of None \<Rightarrow> DEFAULT_CONNECT | Some s \<Rightarrow> from_secs s),
      to_response = (case tc_response_secs config of None \<Rightarrow> DEFAULT_RESPONSE | Some s \<Rightarrow> from_secs s),
      to_deadlines = deadlines_resolve
        \<lparr>ov_header_secs = tc_header_secs config, ov_body_secs = tc_body_secs config,
         ov_response_idle_secs = tc_response_idle_secs config, ov_l4_flow_secs = tc_l4_flow_secs config,
         ov_l4_idle_secs = tc_l4_idle_secs config, ov_tls_hello_secs = tc_tls_hello_secs config\<rparr>\<rparr>"

record retry_config =
  rc_attempts :: "u64 option"
  rc_backoff_ms :: "u64 option"

record retry =
  re_attempts :: u32
  re_backoff :: nat

definition DEFAULT_BACKOFF_MS :: u64 where "DEFAULT_BACKOFF_MS = 100"
definition MAX_ATTEMPTS :: u64 where "MAX_ATTEMPTS = 16"
definition MAX_BACKOFF_MS :: u64 where "MAX_BACKOFF_MS = 60000"

definition unwrap_or :: "'a option \<Rightarrow> 'a \<Rightarrow> 'a" where
  "unwrap_or v def = (case v of Some x \<Rightarrow> x | None \<Rightarrow> def)"

definition retry_resolve :: "retry_config \<Rightarrow> retry" where
  "retry_resolve config =
     \<lparr>re_attempts = ucast (min (unwrap_or (rc_attempts config) 0) MAX_ATTEMPTS),
      re_backoff = from_millis (min (unwrap_or (rc_backoff_ms config) DEFAULT_BACKOFF_MS) MAX_BACKOFF_MS)\<rparr>"

record circuit_breaker_config =
  cc_enabled :: "bool option"
  cc_failure_threshold :: "u64 option"
  cc_reset_secs :: "u64 option"

definition DEFAULT_FAILURE_THRESHOLD :: u64 where "DEFAULT_FAILURE_THRESHOLD = 5"
definition DEFAULT_RESET_SECS :: u64 where "DEFAULT_RESET_SECS = 30"
definition MAX_FAILURE_THRESHOLD :: u64 where "MAX_FAILURE_THRESHOLD = 1000"
definition MAX_RESET_SECS :: u64 where "MAX_RESET_SECS = 3600"

definition clamp :: "'a::linorder \<Rightarrow> 'a \<Rightarrow> 'a \<Rightarrow> 'a" where
  "clamp lo hi x = (if x < lo then lo else if x > hi then hi else x)"

definition circuit_breaker_resolve :: "circuit_breaker_config \<Rightarrow> circuit_breaker" where
  "circuit_breaker_resolve config =
     \<lparr>cb_enabled = unwrap_or (cc_enabled config) True,
      cb_failure_threshold =
        unat (clamp 1 MAX_FAILURE_THRESHOLD (unwrap_or (cc_failure_threshold config) DEFAULT_FAILURE_THRESHOLD)),
      cb_reset = from_secs (min (unwrap_or (cc_reset_secs config) DEFAULT_RESET_SECS) MAX_RESET_SECS)\<rparr>"

section \<open>Bounds\<close>

lemma or_default_le: "or_default v def \<le> from_secs MAX_SECS"
  by (simp add: or_default_def)

lemma or_default_written:
  "v = Some s \<Longrightarrow> s \<le> MAX_SECS \<Longrightarrow> or_default v def = from_secs s"
  by (simp add: or_default_def)

lemma or_default_pos:
  assumes "v \<noteq> Some 0" and "def \<noteq> 0"
  shows "0 < or_default v def"
proof -
  have "MAX_SECS \<noteq> 0"
    by (simp add: MAX_SECS_def)
  with assms show ?thesis
    by (cases v) (auto simp: or_default_def min_def)
qed

lemma clamp_bounds: "lo \<le> hi \<Longrightarrow> lo \<le> clamp lo hi x \<and> clamp lo hi x \<le> hi"
  by (auto simp: clamp_def)

lemma breaker_threshold_bounds:
  "0 < cb_failure_threshold (circuit_breaker_resolve config) \<and>
   cb_failure_threshold (circuit_breaker_resolve config) \<le> 1000"
proof -
  let ?v = "unwrap_or (cc_failure_threshold config) DEFAULT_FAILURE_THRESHOLD"
  have "1 \<le> clamp 1 MAX_FAILURE_THRESHOLD ?v \<and> clamp 1 MAX_FAILURE_THRESHOLD ?v \<le> MAX_FAILURE_THRESHOLD"
    by (rule clamp_bounds) (simp add: MAX_FAILURE_THRESHOLD_def)
  then have "unat (1 :: u64) \<le> unat (clamp 1 MAX_FAILURE_THRESHOLD ?v) \<and>
      unat (clamp 1 MAX_FAILURE_THRESHOLD ?v) \<le> unat MAX_FAILURE_THRESHOLD"
    by (simp only: word_le_nat_alt)
  then show ?thesis
    by (simp add: circuit_breaker_resolve_def MAX_FAILURE_THRESHOLD_def)
qed

lemma retry_bounds:
  "unat (re_attempts (retry_resolve config)) \<le> 16 \<and> re_backoff (retry_resolve config) \<le> 60000 * 1000000"
proof
  let ?a = "min (unwrap_or (rc_attempts config) 0) MAX_ATTEMPTS"
  have "?a \<le> 16"
    by (simp add: MAX_ATTEMPTS_def)
  then have "unat ?a \<le> 16"
    by (simp add: word_le_nat_alt)
  moreover have "unat (ucast ?a :: u32) \<le> unat ?a"
    by (simp add: unsigned_ucast_eq)
  ultimately show "unat (re_attempts (retry_resolve config)) \<le> 16"
    by (simp add: retry_resolve_def)
  have "min (unwrap_or (rc_backoff_ms config) DEFAULT_BACKOFF_MS) MAX_BACKOFF_MS \<le> 60000"
    by (simp add: MAX_BACKOFF_MS_def)
  then have "unat (min (unwrap_or (rc_backoff_ms config) DEFAULT_BACKOFF_MS) MAX_BACKOFF_MS) \<le> 60000"
    by (simp add: word_le_nat_alt)
  then show "re_backoff (retry_resolve config) \<le> 60000 * 1000000"
    unfolding retry_resolve_def from_millis_def retry.select_convs by (rule mult_right_mono) simp
qed

end
