(* ===== verification/Nexa_Routes.thy ===== *)
theory Nexa_Routes
  imports Nexa_Acl Nexa_Timing Nexa_L4_Wire Nexa_Tls "HOL-Library.Product_Lexorder"
begin

text \<open>
  The routing table, \<open>crates/nexapipe/src/routes/mod.rs\<close>, and the choice of a backend for a
  request, an L4 flow and a TLS session (\<open>crates/nexapipe/src/passthrough.rs\<close>).

  A pool is shared between the table and whoever was handed it, so pools live in a store, the
  list \<open>px_pools\<close>, and a route holds the position of its own; a lease is a position and
  the index of a backend in that pool. The lookups return the state with the pool they selected from
  updated. Durations are natural numbers of nanoseconds.
\<close>

section \<open>Routes\<close>

datatype route_mode = MHttp | MPassthrough | MTcp | MUdp

definition is_l4_mode :: "route_mode \<Rightarrow> bool" where
  "is_l4_mode mode \<longleftrightarrow> mode = MTcp \<or> mode = MUdp"

fun mode_from_l4_proto :: "l4_proto \<Rightarrow> route_mode" where
  "mode_from_l4_proto Tcp = MTcp"
| "mode_from_l4_proto Udp = MUdp"

datatype backend_protocol = Http1 | H2c

record l4_options =
  l4_client_ports :: "u16 list option"
  l4_idle_timeout :: "nat option"
  l4_flow_timeout :: "nat option"

record route =
  rt_host_pattern :: string
  rt_path_pattern :: string
  rt_path_is_prefix :: bool
  rt_modes :: "route_mode list"
  rt_pool :: nat
  rt_backend_protocol :: backend_protocol
  rt_path_rewrite :: "string option"
  rt_l4 :: l4_options

record routing_table =
  px_routes :: "route list"
  px_pools :: "backend_pool list"
  px_timeouts :: timeouts
  px_retry :: retry

text \<open>A table with the default deadlines and no retries, and one with its own.\<close>

definition routing_table_new :: "route list \<Rightarrow> backend_pool list \<Rightarrow> routing_table" where
  "routing_table_new routes pools =
     \<lparr>px_routes = routes, px_pools = pools,
      px_timeouts = timeouts_resolve \<lparr>tc_connect_secs = None, tc_response_secs = None, tc_header_secs = None,
        tc_body_secs = None, tc_response_idle_secs = None, tc_l4_flow_secs = None, tc_l4_idle_secs = None,
        tc_tls_hello_secs = None\<rparr>,
      px_retry = retry_resolve \<lparr>rc_attempts = None, rc_backoff_ms = None\<rparr>\<rparr>"

definition with_timeouts :: "route list \<Rightarrow> backend_pool list \<Rightarrow> timeouts \<Rightarrow> routing_table" where
  "with_timeouts routes pools t = (routing_table_new routes pools)\<lparr>px_timeouts := t\<rparr>"

definition with_settings :: "route list \<Rightarrow> backend_pool list \<Rightarrow> timeouts \<Rightarrow> retry \<Rightarrow> routing_table" where
  "with_settings routes pools t again = (routing_table_new routes pools)\<lparr>px_timeouts := t, px_retry := again\<rparr>"

definition host_without_port :: "string \<Rightarrow> string" where
  "host_without_port host = fst (host_and_port host)"

text \<open>A new route brings a new pool, which is added to the store.\<close>

definition route_new ::
    "(string \<Rightarrow> string + parsed_url) \<Rightarrow> string \<Rightarrow> string \<Rightarrow> bool \<Rightarrow> string list \<Rightarrow> strategy \<Rightarrow> route_mode \<Rightarrow>
      string option \<Rightarrow> backend_pool list \<Rightarrow> route \<times> backend_pool list" where
  "route_new url_parse host_pattern path_pattern path_is_prefix backends strat mode path_rewrite pools =
     (\<lparr>rt_host_pattern = normalize_pattern host_pattern, rt_path_pattern = path_pattern,
       rt_path_is_prefix = path_is_prefix, rt_modes = [mode], rt_pool = length pools,
       rt_backend_protocol = Http1, rt_path_rewrite = path_rewrite,
       rt_l4 = \<lparr>l4_client_ports = None, l4_idle_timeout = None, l4_flow_timeout = None\<rparr>\<rparr>,
      pools @ [pool_new url_parse backends strat])"

definition with_backend_protocol :: "backend_protocol \<Rightarrow> route \<Rightarrow> route" where
  "with_backend_protocol protocol r = r\<lparr>rt_backend_protocol := protocol\<rparr>"

definition with_modes :: "route_mode list \<Rightarrow> route \<Rightarrow> route" where
  "with_modes modes r =
     (let merged = fold (\<lambda>mode merged. if mode \<in> set merged then merged else merged @ [mode]) modes []
      in if merged \<noteq> [] then r\<lparr>rt_modes := merged\<rparr> else r)"

definition with_l4_options :: "l4_options \<Rightarrow> route \<Rightarrow> route" where
  "with_l4_options options r = r\<lparr>rt_l4 := options\<rparr>"

definition with_circuit_breaker :: "circuit_breaker \<Rightarrow> route \<Rightarrow> backend_pool list \<Rightarrow> backend_pool list" where
  "with_circuit_breaker breaker r pools =
     pools[rt_pool r := set_circuit_breaker breaker (pools ! rt_pool r)]"

definition serves_host :: "route \<Rightarrow> string \<Rightarrow> bool" where
  "serves_host r host = host_matches (rt_host_pattern r) host"

definition matches_host :: "route \<Rightarrow> string \<Rightarrow> bool" where
  "matches_host r host = serves_host r (normalize_host host)"

definition serves_l4 :: "route \<Rightarrow> string \<Rightarrow> u16 \<Rightarrow> bool" where
  "serves_l4 r host port =
     (if \<not> serves_host r host then False
      else (case l4_client_ports (rt_l4 r) of Some allowed \<Rightarrow> port \<in> set allowed | None \<Rightarrow> True))"

definition matches_l4 :: "route \<Rightarrow> string \<Rightarrow> u16 \<Rightarrow> bool" where
  "matches_l4 r host port = serves_l4 r (normalize_host host) port"

definition is_slash :: "char \<Rightarrow> bool" where
  "is_slash c \<longleftrightarrow> c = CHR ''/''"

definition path_suffix :: "string \<Rightarrow> string \<Rightarrow> string option" where
  "path_suffix pattern path =
     (let pattern = trim_end_matches is_slash pattern in
      if path = pattern then Some []
      else do {
        rest \<leftarrow> strip_prefix pattern path;
        strip_prefix ''/'' rest;
        Some rest
      })"

definition serves_request :: "route \<Rightarrow> string \<Rightarrow> string \<Rightarrow> bool" where
  "serves_request r host path =
     (if \<not> serves_host r host then False
      else if rt_path_is_prefix r then path_suffix (rt_path_pattern r) path \<noteq> None
      else path = rt_path_pattern r)"

definition route_matches :: "route \<Rightarrow> string \<Rightarrow> string \<Rightarrow> bool" where
  "route_matches r host path = serves_request r (normalize_host host) path"

definition PATH_LENGTH_TIE_BREAK :: u32 where "PATH_LENGTH_TIE_BREAK = 99"

definition priority :: "route \<Rightarrow> u32" where
  "priority r =
     (let host = (if rt_host_pattern r = ''*'' then 0 else if starts_with ''*'' (rt_host_pattern r) then 1 else 2);
          ports = (if l4_client_ports (rt_l4 r) \<noteq> None then 1 else 0);
          path = (if \<not> rt_path_is_prefix r then 1 else 0);
          len = min (of_nat (length (rt_path_pattern r))) PATH_LENGTH_TIE_BREAK
      in host * 10000 + ports * 1000 + path * 100 + len)"

definition serves_mode :: "route \<Rightarrow> route_mode \<Rightarrow> bool" where
  "serves_mode r mode \<longleftrightarrow> mode \<in> set (rt_modes r)"

section \<open>The name of a pool\<close>

text \<open>
  A pool is carried over a reload by a name made of what the route is, with the \<open>Debug\<close> form of its modes,
  strategy and backends. The \<open>Debug\<close> form of a string escapes its ASCII characters one by one; a run
  of other characters is rendered from tables of the Unicode standard, which are the parameter \<open>esc\<close>.
\<close>

definition hex_digit :: "nat \<Rightarrow> char" where
  "hex_digit n = ''0123456789abcdef'' ! (n mod 16)"

definition dbg_ascii :: "char \<Rightarrow> string" where
  "dbg_ascii c =
     (let n = of_char c :: nat in
      if n = 0 then [CHR 0x5C, CHR ''0'']
      else if n = 9 then [CHR 0x5C, CHR ''t'']
      else if n = 10 then [CHR 0x5C, CHR ''n'']
      else if n = 13 then [CHR 0x5C, CHR ''r'']
      else if n = 34 \<or> n = 92 then [CHR 0x5C, c]
      else if n < 16 then [CHR 0x5C] @ ''u{'' @ [hex_digit n] @ ''}''
      else if n < 32 \<or> n = 127 then [CHR 0x5C] @ ''u{'' @ [hex_digit (n div 16), hex_digit n] @ ''}''
      else [c])"

definition is_ascii_char :: "char \<Rightarrow> bool" where
  "is_ascii_char c \<longleftrightarrow> (of_char c :: nat) < 128"

function dbg_body :: "(string \<Rightarrow> string) \<Rightarrow> string \<Rightarrow> string" where
  "dbg_body esc [] = []"
| "dbg_body esc (c # cs) =
     (if is_ascii_char c then dbg_ascii c @ dbg_body esc cs
      else esc (c # takeWhile (\<lambda>c. \<not> is_ascii_char c) cs) @ dbg_body esc (dropWhile (\<lambda>c. \<not> is_ascii_char c) cs))"
  by pat_completeness auto
termination
  by (relation "measure (length \<circ> snd)") (auto simp: le_imp_less_Suc length_dropWhile_le)

definition dbg_str :: "(string \<Rightarrow> string) \<Rightarrow> string \<Rightarrow> string" where
  "dbg_str esc s = [CHR 0x22] @ dbg_body esc s @ [CHR 0x22]"

fun dbg_items :: "string list \<Rightarrow> string" where
  "dbg_items [] = []"
| "dbg_items [x] = x"
| "dbg_items (x # xs) = x @ '', '' @ dbg_items xs"

definition dbg_list :: "('a \<Rightarrow> string) \<Rightarrow> 'a list \<Rightarrow> string" where
  "dbg_list f xs = ''['' @ dbg_items (map f xs) @ '']''"

fun dbg_mode :: "route_mode \<Rightarrow> string" where
  "dbg_mode MHttp = ''Http''"
| "dbg_mode MPassthrough = ''Passthrough''"
| "dbg_mode MTcp = ''Tcp''"
| "dbg_mode MUdp = ''Udp''"

fun dbg_strategy :: "strategy \<Rightarrow> string" where
  "dbg_strategy RoundRobin = ''RoundRobin''"
| "dbg_strategy Random = ''Random''"
| "dbg_strategy LeastConn = ''LeastConn''"

definition pool_key :: "(string \<Rightarrow> string) \<Rightarrow> backend_pool list \<Rightarrow> route \<Rightarrow> string" where
  "pool_key esc pools r =
     rt_host_pattern r @ ''|'' @ rt_path_pattern r @ ''|'' @ dbg_list dbg_mode (rt_modes r) @ ''|'' @
     dbg_strategy (bp_strategy (pools ! rt_pool r)) @ ''|'' @
     dbg_list (dbg_str esc) (pool_urls (pools ! rt_pool r))"

section \<open>A reload\<close>

text \<open>
  The new routes come with pools of their own, already in the store; a route takes over the pool of an
  old route of the same name, and the name is given up with it.
\<close>

primrec carry_over :: "(route \<Rightarrow> string) \<Rightarrow> route list \<Rightarrow> (string \<rightharpoonup> nat) \<Rightarrow> route list" where
  "carry_over key [] previous = []"
| "carry_over key (r # rs) previous =
     (case previous (key r) of
        Some pool \<Rightarrow> r\<lparr>rt_pool := pool\<rparr> # carry_over key rs (previous(key r := None))
      | None \<Rightarrow> r # carry_over key rs previous)"

definition update_routes :: "(string \<Rightarrow> string) \<Rightarrow> route list \<Rightarrow> routing_table \<Rightarrow> routing_table" where
  "update_routes esc new_routes st =
     (let key = pool_key esc (px_pools st);
          previous = fold (\<lambda>r m. m(key r \<mapsto> rt_pool r)) (px_routes st) Map.empty
      in st\<lparr>px_routes := carry_over key new_routes previous\<rparr>)"

section \<open>Lookups\<close>

datatype 'a backend_lookup = NoRoute | Unavailable | Found 'a

definition lookup_backend :: "'a backend_lookup \<Rightarrow> 'a option" where
  "lookup_backend l = (case l of Found v \<Rightarrow> Some v | NoRoute \<Rightarrow> None | Unavailable \<Rightarrow> None)"

definition best_match_step ::
    "route_mode \<Rightarrow> (route \<Rightarrow> bool) \<Rightarrow> route \<Rightarrow> (route \<times> u32) option \<Rightarrow> (route \<times> u32) option" where
  "best_match_step mode matches r best =
     (if \<not> serves_mode r mode \<or> \<not> matches r then best
      else (case best of
              None \<Rightarrow> Some (r, priority r)
            | Some (_, best_priority) \<Rightarrow> if priority r > best_priority then Some (r, priority r) else best))"

definition best_match :: "route list \<Rightarrow> route_mode \<Rightarrow> (route \<Rightarrow> bool) \<Rightarrow> route option" where
  "best_match routes mode matches = map_option fst (fold (best_match_step mode matches) routes None)"

definition backend_port :: "(string \<Rightarrow> string + parsed_url) \<Rightarrow> string \<Rightarrow> u16 option" where
  "backend_port url_parse url = map_option snd (passthrough_backend_addr url_parse url)"

type_synonym lease_ref = "nat \<times> nat"

record backend_info =
  bi_url :: string
  bi_origin :: "string + string"
  bi_protocol :: backend_protocol
  bi_path_rewrite :: "string option"
  bi_path_pattern :: string
  bi_path_is_prefix :: bool
  bi_lease :: "lease_ref option"

definition rewritten_path :: "backend_info \<Rightarrow> string \<Rightarrow> string" where
  "rewritten_path bi original_path =
     (case bi_path_rewrite bi of
        None \<Rightarrow> original_path
      | Some rewrite_pattern \<Rightarrow>
          if bi_path_is_prefix bi then
            (case path_suffix (bi_path_pattern bi) original_path of
               Some suf \<Rightarrow> str_replace ''{}'' suf rewrite_pattern
             | None \<Rightarrow> original_path)
          else if original_path = bi_path_pattern bi then str_replace ''{}'' [] rewrite_pattern
          else original_path)"

definition select_from :: "nat \<Rightarrow> u64 \<Rightarrow> string list \<Rightarrow> nat \<Rightarrow> routing_table \<Rightarrow> nat option \<times> routing_table" where
  "select_from now rand exclude a st =
     (let (i, p) = select_backend_excluding now rand exclude (px_pools st ! a)
      in (i, st\<lparr>px_pools := (px_pools st)[a := p]\<rparr>))"

definition release :: "lease_ref \<Rightarrow> routing_table \<Rightarrow> routing_table" where
  "release l st = st\<lparr>px_pools := (px_pools st)[fst l := drop_lease (snd l) (px_pools st ! fst l)]\<rparr>"

definition leased_entry :: "lease_ref \<Rightarrow> routing_table \<Rightarrow> backend_entry" where
  "leased_entry l st = bp_backends (px_pools st ! fst l) ! snd l"

definition get_backend_with_acl_excluding ::
    "(string \<Rightarrow> string + parsed_url) \<Rightarrow> nat \<Rightarrow> u64 \<Rightarrow> string \<Rightarrow> string \<Rightarrow> u16 option \<Rightarrow> client_acl option \<Rightarrow>
      string list \<Rightarrow> routing_table \<Rightarrow> backend_info backend_lookup \<times> routing_table" where
  "get_backend_with_acl_excluding url_parse now rand host path port acl exclude st =
     (if (case acl of Some a \<Rightarrow> \<not> acl_allows a host | None \<Rightarrow> False) then (NoRoute, st)
      else if (case (acl, port) of (Some a, Some p) \<Rightarrow> \<not> acl_allows_port a p | _ \<Rightarrow> False) then (NoRoute, st)
      else
        let folded = normalize_host host in
        (case best_match (px_routes st) MHttp (\<lambda>r. serves_request r folded path) of
           None \<Rightarrow> (NoRoute, st)
         | Some r \<Rightarrow>
             (case select_from now rand exclude (rt_pool r) st of
                (None, st1) \<Rightarrow> (Unavailable, st1)
              | (Some i, st1) \<Rightarrow>
                  let l = (rt_pool r, i); entry = leased_entry l st1 in
                  if (case (acl, backend_port url_parse (be_url entry)) of
                        (Some a, Some p) \<Rightarrow> \<not> acl_allows_backend_port a p | _ \<Rightarrow> False)
                  then (NoRoute, release l st1)
                  else (Found \<lparr>bi_url = be_url entry, bi_origin = be_origin entry,
                               bi_protocol = rt_backend_protocol r, bi_path_rewrite = rt_path_rewrite r,
                               bi_path_pattern = rt_path_pattern r, bi_path_is_prefix = rt_path_is_prefix r,
                               bi_lease = Some l\<rparr>, st1))))"

definition get_backend_with_acl where
  "get_backend_with_acl url_parse now rand host path port acl st =
     get_backend_with_acl_excluding url_parse now rand host path port acl [] st"

definition get_backend where
  "get_backend url_parse now rand host path st = get_backend_with_acl url_parse now rand host path None None st"

definition get_backend_excluding where
  "get_backend_excluding url_parse now rand host path exclude st =
     get_backend_with_acl_excluding url_parse now rand host path None None exclude st"

definition get_passthrough_backend ::
    "nat \<Rightarrow> u64 \<Rightarrow> string \<Rightarrow> routing_table \<Rightarrow> lease_ref backend_lookup \<times> routing_table" where
  "get_passthrough_backend now rand sni st =
     (let folded = normalize_host sni in
      case best_match (px_routes st) MPassthrough (\<lambda>r. serves_host r folded) of
        None \<Rightarrow> (NoRoute, st)
      | Some r \<Rightarrow>
          (case select_from now rand [] (rt_pool r) st of
             (None, st1) \<Rightarrow> (Unavailable, st1)
           | (Some i, st1) \<Rightarrow> (Found (rt_pool r, i), st1)))"

record l4_route_info =
  li_backend :: string
  li_idle_timeout :: "nat option"
  li_flow_timeout :: "nat option"
  li_lease :: lease_ref

definition get_l4_backend ::
    "nat \<Rightarrow> u64 \<Rightarrow> string \<Rightarrow> u16 \<Rightarrow> route_mode \<Rightarrow> routing_table \<Rightarrow> l4_route_info backend_lookup \<times> routing_table" where
  "get_l4_backend now rand host port mode st =
     (let folded = normalize_host host in
      case best_match (px_routes st) mode (\<lambda>r. serves_l4 r folded port) of
        None \<Rightarrow> (NoRoute, st)
      | Some r \<Rightarrow>
          (case select_from now rand [] (rt_pool r) st of
             (None, st1) \<Rightarrow> (Unavailable, st1)
           | (Some i, st1) \<Rightarrow>
               (Found \<lparr>li_backend = be_url (leased_entry (rt_pool r, i) st1),
                       li_idle_timeout = l4_idle_timeout (rt_l4 r),
                       li_flow_timeout = l4_flow_timeout (rt_l4 r), li_lease = (rt_pool r, i)\<rparr>, st1)))"

section \<open>The best match\<close>

text \<open>A route that takes part in a lookup.\<close>

definition eligible :: "route_mode \<Rightarrow> (route \<Rightarrow> bool) \<Rightarrow> route \<Rightarrow> bool" where
  "eligible mode matches r \<longleftrightarrow> serves_mode r mode \<and> matches r"

text \<open>\<open>i\<close> is the position of the highest priority among the eligible routes, the first of them on a tie.\<close>

definition is_best :: "route_mode \<Rightarrow> (route \<Rightarrow> bool) \<Rightarrow> route list \<Rightarrow> nat \<Rightarrow> bool" where
  "is_best mode matches rs i \<longleftrightarrow>
     i < length rs \<and> eligible mode matches (rs ! i) \<and>
     (\<forall>j < length rs. eligible mode matches (rs ! j) \<longrightarrow>
        priority (rs ! j) \<le> priority (rs ! i) \<and> (j < i \<longrightarrow> priority (rs ! j) < priority (rs ! i)))"

lemma is_best_snoc_skip:
  "\<not> eligible mode matches r \<Longrightarrow> is_best mode matches (rs @ [r]) i \<longleftrightarrow> is_best mode matches rs i"
  by (auto simp: is_best_def nth_append less_Suc_eq split: if_splits)

lemma is_best_snoc_keep:
  assumes "is_best mode matches rs i" and "priority r \<le> priority (rs ! i)"
  shows "is_best mode matches (rs @ [r]) i"
  using assms by (auto simp: is_best_def nth_append less_Suc_eq)

lemma is_best_snoc_new:
  assumes "eligible mode matches r"
    and "\<forall>j < length rs. eligible mode matches (rs ! j) \<longrightarrow> priority (rs ! j) < priority r"
  shows "is_best mode matches (rs @ [r]) (length rs)"
  using assms by (auto simp: is_best_def nth_append less_Suc_eq)

lemma best_match_step_simps:
  "\<not> eligible mode matches r \<Longrightarrow> best_match_step mode matches r best = best"
  "eligible mode matches r \<Longrightarrow> best_match_step mode matches r None = Some (r, priority r)"
  "eligible mode matches r \<Longrightarrow> best_match_step mode matches r (Some (q, p)) =
     (if priority r > p then Some (r, priority r) else Some (q, p))"
  by (auto simp: best_match_step_def eligible_def)

lemma best_fold:
  "case fold (best_match_step mode matches) rs None of
     None \<Rightarrow> \<forall>r \<in> set rs. \<not> eligible mode matches r
   | Some (r, p) \<Rightarrow> p = priority r \<and> (\<exists>i. is_best mode matches rs i \<and> rs ! i = r)"
proof (induction rs rule: rev_induct)
  case (snoc r rs)
  show ?case
  proof (cases "eligible mode matches r")
    case False
    then have step: "fold (best_match_step mode matches) (rs @ [r]) None =
        fold (best_match_step mode matches) rs None"
      by (simp add: best_match_step_simps)
    have nth: "(rs @ [r]) ! i = rs ! i" if "is_best mode matches rs i" for i
      using that by (simp add: is_best_def nth_append)
    show ?thesis
    proof (cases "fold (best_match_step mode matches) rs None")
      case None
      with snoc False show ?thesis by (simp add: step del: fold_append)
    next
      case (Some b)
      obtain q p where b: "b = (q, p)" by (cases b)
      with snoc Some obtain i where "is_best mode matches rs i" "rs ! i = q" "p = priority q"
        by auto
      with nth is_best_snoc_skip [OF False] have "is_best mode matches (rs @ [r]) i \<and> (rs @ [r]) ! i = q"
        by simp
      with Some b \<open>p = priority q\<close> show ?thesis by (auto simp: step simp del: fold_append)
    qed
  next
    case True
    show ?thesis
    proof (cases "fold (best_match_step mode matches) rs None")
      case None
      then have "\<forall>q \<in> set rs. \<not> eligible mode matches q"
        using snoc by simp
      then have "is_best mode matches (rs @ [r]) (length rs)"
        using True by (intro is_best_snoc_new) auto
      then show ?thesis
        using None True by (auto simp: best_match_step_simps)
    next
      case (Some b)
      obtain q p where b: "b = (q, p)" by (cases b)
      with snoc Some obtain i where i: "is_best mode matches rs i" "rs ! i = q" "p = priority q"
        by auto
      have step: "fold (best_match_step mode matches) (rs @ [r]) None =
          (if priority r > p then Some (r, priority r) else Some (q, p))"
        using Some b True by (simp add: best_match_step_simps)
      show ?thesis
      proof (cases "priority r > p")
        case lt: True
        then have "is_best mode matches (rs @ [r]) (length rs)"
          using i True by (intro is_best_snoc_new) (auto simp: is_best_def)
        then show ?thesis
          using step lt by auto
      next
        case False
        then have "is_best mode matches (rs @ [r]) i" "(rs @ [r]) ! i = q"
          using i is_best_snoc_keep [OF i(1), of r] by (auto simp: is_best_def nth_append)
        then show ?thesis
          using step False i by auto
      qed
    qed
  qed
qed simp

lemma best_match_None_iff:
  "best_match rs mode matches = None \<longleftrightarrow> (\<forall>r \<in> set rs. \<not> eligible mode matches r)"
proof (cases "fold (best_match_step mode matches) rs None")
  case (Some b)
  then have "\<exists>i. is_best mode matches rs i"
    using best_fold [where mode = mode and matches = matches and rs = rs] by (auto split: prod.splits)
  then have "\<exists>r \<in> set rs. eligible mode matches r"
    by (auto simp: is_best_def)
  then show ?thesis
    using Some by (simp add: best_match_def)
qed (use best_fold [where mode = mode and matches = matches and rs = rs] in \<open>simp add: best_match_def\<close>)

lemma is_best_unique: "is_best mode matches rs i \<Longrightarrow> is_best mode matches rs j \<Longrightarrow> i = j"
  by (metis is_best_def leD linorder_neqE_nat)

lemma best_match_Some_iff:
  "best_match rs mode matches = Some r \<longleftrightarrow> (\<exists>i. is_best mode matches rs i \<and> rs ! i = r)"
proof (cases "fold (best_match_step mode matches) rs None")
  case None
  then show ?thesis
    using best_fold [where mode = mode and matches = matches and rs = rs] by (auto simp: best_match_def is_best_def)
next
  case (Some b)
  obtain q p where b: "b = (q, p)" by (cases b)
  with Some best_fold [where mode = mode and matches = matches and rs = rs]
  obtain i where i: "is_best mode matches rs i" "rs ! i = q"
    by auto
  have "best_match rs mode matches = Some q"
    using Some b by (simp add: best_match_def)
  moreover have "q = r \<longleftrightarrow> (\<exists>j. is_best mode matches rs j \<and> rs ! j = r)"
    using i is_best_unique [OF i(1)] by blast
  ultimately show ?thesis by simp
qed

lemma best_match_in: "best_match rs mode matches = Some r \<Longrightarrow> r \<in> set rs \<and> eligible mode matches r"
  by (auto simp: best_match_Some_iff is_best_def)

text \<open>
  What makes a route specific, from the most important to the least: how exact its host is, whether it
  names its ports, whether its path is exact, and how long its path is, up to a cap.
\<close>

definition specificity :: "route \<Rightarrow> nat \<times> nat \<times> nat \<times> nat" where
  "specificity r =
     ((if rt_host_pattern r = ''*'' then 0 else if starts_with ''*'' (rt_host_pattern r) then 1 else 2),
      (if l4_client_ports (rt_l4 r) = None then 0 else 1),
      (if rt_path_is_prefix r then 0 else 1),
      min (length (rt_path_pattern r) mod 2 ^ 32) 99)"

definition weigh :: "nat \<times> nat \<times> nat \<times> nat \<Rightarrow> nat" where
  "weigh k = (case k of (h, p, e, l) \<Rightarrow> h * 10000 + p * 1000 + e * 100 + l)"

definition tiers_ok :: "nat \<times> nat \<times> nat \<times> nat \<Rightarrow> bool" where
  "tiers_ok k = (case k of (h, p, e, l) \<Rightarrow> h \<le> 2 \<and> p \<le> 1 \<and> e \<le> 1 \<and> l \<le> 99)"

lemma specificity_tiers: "tiers_ok (specificity r)"
  by (simp add: tiers_ok_def specificity_def)

lemma weigh_less_iff: "tiers_ok k \<Longrightarrow> tiers_ok k' \<Longrightarrow> weigh k < weigh k' \<longleftrightarrow> k < k'"
  by (cases k; cases k') (auto simp: tiers_ok_def weigh_def less_prod_def less_eq_prod_def)

lemma unat_priority: "unat (priority r) = weigh (specificity r)"
proof -
  have len: "unat (min (of_nat (length (rt_path_pattern r))) (99 :: u32)) =
      min (length (rt_path_pattern r) mod 2 ^ 32) 99"
    by (auto simp: min_def word_le_nat_alt unat_of_nat)
  have "unat (h * 10000 + p * 1000 + e * 100 + l) =
      unat h * 10000 + unat p * 1000 + unat e * 100 + unat l"
    if "unat h \<le> 2" "unat p \<le> 1" "unat e \<le> 1" "unat l \<le> 99" for h p e l :: u32
    using that by (simp add: unat_word_ariths)
  note sum = this
  show ?thesis
    unfolding priority_def Let_def PATH_LENGTH_TIE_BREAK_def
    by (subst sum) (auto simp: len specificity_def weigh_def)
qed

lemma priority_less_iff: "priority r < priority q \<longleftrightarrow> specificity r < specificity q"
  by (simp add: word_less_nat_alt unat_priority weigh_less_iff specificity_tiers)

text \<open>
  C17: of the routes that serve a mode and match, a lookup takes the one that is most specific, the host
  weighing more than the ports, the ports more than an exact path and that more than the length of the
  path, and the one declared first among equals; it finds none exactly when no route serves the
  mode and matches.
\<close>

theorem best_match_most_specific:
  "case best_match rs mode matches of
     None \<Rightarrow> \<forall>i < length rs. \<not> (serves_mode (rs ! i) mode \<and> matches (rs ! i))
   | Some r \<Rightarrow> \<exists>i < length rs. rs ! i = r \<and> serves_mode r mode \<and> matches r \<and>
       (\<forall>j < length rs. serves_mode (rs ! j) mode \<and> matches (rs ! j) \<longrightarrow>
          \<not> specificity r < specificity (rs ! j) \<and> (j < i \<longrightarrow> specificity (rs ! j) < specificity r))"
proof (cases "best_match rs mode matches")
  case None
  then have "\<forall>r \<in> set rs. \<not> eligible mode matches r"
    by (simp only: best_match_None_iff)
  then show ?thesis
    using None by (simp add: eligible_def)
next
  case (Some r)
  then obtain i where i: "is_best mode matches rs i" "rs ! i = r"
    by (auto simp: best_match_Some_iff)
  show ?thesis
    unfolding Some option.case priority_less_iff [symmetric] not_less
    using i by (intro exI [of _ i]) (auto simp: is_best_def eligible_def)
qed

text \<open>A table of a catch-all with a long path and a route written for the host.\<close>

definition sample_route :: "string \<Rightarrow> string \<Rightarrow> nat \<Rightarrow> route" where
  "sample_route host path a =
     \<lparr>rt_host_pattern = host, rt_path_pattern = path, rt_path_is_prefix = True, rt_modes = [MHttp, MPassthrough],
      rt_pool = a, rt_backend_protocol = Http1, rt_path_rewrite = Some ''/v2{}'',
      rt_l4 = \<lparr>l4_client_ports = None, l4_idle_timeout = None, l4_flow_timeout = None\<rparr>\<rparr>"

theorem best_match_most_specific_witness:
  "specificity (sample_route ''*'' ''/a/long/path'' 0) < specificity (sample_route ''a.b'' ''/'' 1) \<and>
   best_match [sample_route ''*'' ''/a/long/path'' 0, sample_route ''a.b'' ''/'' 1] MHttp (\<lambda>_. True) =
     Some (sample_route ''a.b'' ''/'' 1)"
proof -
  let ?rs = "[sample_route ''*'' ''/a/long/path'' 0, sample_route ''a.b'' ''/'' 1]"
  have best: "best_match ?rs MHttp (\<lambda>_. True) = Some (sample_route ''a.b'' ''/'' 1)"
    by code_simp
  have modes: "serves_mode (sample_route h p a) MHttp" for h p a
    by (simp add: serves_mode_def sample_route_def)
  obtain i where i: "i < length ?rs" "?rs ! i = sample_route ''a.b'' ''/'' 1"
    "\<forall>j < length ?rs. serves_mode (?rs ! j) MHttp \<and> True \<longrightarrow>
       \<not> specificity (sample_route ''a.b'' ''/'' 1) < specificity (?rs ! j) \<and>
       (j < i \<longrightarrow> specificity (?rs ! j) < specificity (sample_route ''a.b'' ''/'' 1))"
    using best_match_most_specific [of ?rs MHttp "\<lambda>_. True"] unfolding best option.case by blast
  from i(2) have "i \<noteq> 0"
    by (intro notI) (simp add: sample_route_def)
  with i(3) modes have "specificity (?rs ! 0) < specificity (sample_route ''a.b'' ''/'' 1)"
    by (metis length_greater_0_conv list.distinct(1) neq0_conv nth_Cons_0)
  with best show ?thesis by simp
qed

section \<open>Paths\<close>

lemma path_suffix_Some_iff:
  "path_suffix pattern path = Some s \<longleftrightarrow>
     path = trim_end_matches is_slash pattern @ s \<and> (s = [] \<or> (\<exists>t. s = CHR ''/'' # t))"
  by (auto simp: path_suffix_def Let_def strip_prefix_Some bind_eq_Some_conv)

section \<open>What a lookup hands out\<close>

text \<open>Every route of the table has its pool in the store.\<close>

definition table_ok :: "routing_table \<Rightarrow> bool" where
  "table_ok st \<longleftrightarrow> (\<forall>r \<in> set (px_routes st). rt_pool r < length (px_pools st))"

text \<open>The requests outstanding at every backend, which is what a lookup may change.\<close>

definition in_flight_at :: "routing_table \<Rightarrow> lease_ref \<Rightarrow> u64" where
  "in_flight_at st l = be_in_flight (leased_entry l st)"

text \<open>A backend a request may be sent to, and a lease of it that was just taken.\<close>

definition may_serve :: "nat \<Rightarrow> routing_table \<Rightarrow> lease_ref \<Rightarrow> bool" where
  "may_serve now st l \<longleftrightarrow>
     fst l < length (px_pools st) \<and> snd l < length (bp_backends (px_pools st ! fst l)) \<and>
     (pool_serves now (px_pools st ! fst l) (snd l) \<or>
      length (bp_backends (px_pools st ! fst l)) = 1 \<and> \<not> be_healthy (leased_entry l st))"

definition no_server :: "nat \<Rightarrow> routing_table \<Rightarrow> nat \<Rightarrow> bool" where
  "no_server now st a \<longleftrightarrow> (\<forall>i. \<not> may_serve now st (a, i))"

lemma selected_from:
  assumes "select_from now rand exclude a st = (res, st')" and "a < length (px_pools st)"
  shows "case res of
      None \<Rightarrow> st' = st \<and> no_server now st a
    | Some i \<Rightarrow> may_serve now st (a, i) \<and> be_url (leased_entry (a, i) st') = be_url (leased_entry (a, i) st) \<and>
        (\<forall>l. in_flight_at st' l = (if l = (a, i) then in_flight_at st l + 1 else in_flight_at st l)) \<and>
        px_routes st' = px_routes st \<and> length (px_pools st') = length (px_pools st) \<and>
        length (bp_backends (px_pools st' ! a)) = length (bp_backends (px_pools st ! a))"
proof -
  obtain p where sel: "select_backend_excluding now rand exclude (px_pools st ! a) = (res, p)"
    and st': "st' = st\<lparr>px_pools := (px_pools st)[a := p]\<rparr>"
    using assms(1) by (auto simp: select_from_def Let_def split: prod.splits)
  note spec = select_backend_spec [OF sel]
  show ?thesis
  proof (cases res)
    case None
    with spec have "\<not> may_serve now st (a, i)" for i
      by (cases i) (auto simp: may_serve_def leased_entry_def)
    with None spec st' show ?thesis by (simp add: no_server_def)
  next
    case (Some i)
    with spec have i: "i < length (bp_backends (px_pools st ! a))"
      and p: "bp_backends p = (bp_backends (px_pools st ! a))[i := (bp_backends (px_pools st ! a) ! i)
          \<lparr>be_in_flight := be_in_flight (bp_backends (px_pools st ! a) ! i) + 1\<rparr>]"
      and serves: "may_serve now st (a, i)"
      using assms(2) by (auto simp: may_serve_def leased_entry_def)
    have entry: "leased_entry l st' = (if l = (a, i) then (leased_entry l st)
        \<lparr>be_in_flight := in_flight_at st l + 1\<rparr> else leased_entry l st)" for l
      using assms(2) i p by (cases l) (auto simp: leased_entry_def in_flight_at_def st' nth_list_update)
    show ?thesis
      using Some serves entry p assms(2) by (simp add: in_flight_at_def st')
  qed
qed

lemma released:
  assumes "fst l < length (px_pools st)" and "snd l < length (bp_backends (px_pools st ! fst l))"
  shows "in_flight_at (release l st) l' = (if l' = l then in_flight_at st l - 1 else in_flight_at st l')"
  using assms
  by (cases l; cases l')
     (auto simp: in_flight_at_def leased_entry_def release_def drop_lease_def update_backend_def nth_list_update)

text \<open>What a client must be allowed: the host, the port it named, and the port it is served from.\<close>

definition acl_admits :: "client_acl option \<Rightarrow> string \<Rightarrow> u16 option \<Rightarrow> bool" where
  "acl_admits acl host port \<longleftrightarrow>
     (\<forall>a. acl = Some a \<longrightarrow> acl_allows a host \<and> (\<forall>p. port = Some p \<longrightarrow> acl_allows_port a p))"

definition served_port_ok :: "(string \<Rightarrow> string + parsed_url) \<Rightarrow> client_acl option \<Rightarrow> string \<Rightarrow> bool" where
  "served_port_ok url_parse acl url \<longleftrightarrow>
     (\<forall>a p. acl = Some a \<longrightarrow> backend_port url_parse url = Some p \<longrightarrow> acl_allows_backend_port a p)"

definition http_route :: "string \<Rightarrow> string \<Rightarrow> routing_table \<Rightarrow> route option" where
  "http_route host path st =
     best_match (px_routes st) MHttp (\<lambda>r. serves_request r (normalize_host host) path)"

text \<open>The lookup, as a case distinction on what it decides.\<close>

lemma get_backend_eq:
  "get_backend_with_acl_excluding url_parse now rand host path port acl exclude st =
     (if \<not> acl_admits acl host port then (NoRoute, st)
      else case http_route host path st of
        None \<Rightarrow> (NoRoute, st)
      | Some r \<Rightarrow>
          (case select_from now rand exclude (rt_pool r) st of
             (None, st1) \<Rightarrow> (Unavailable, st1)
           | (Some i, st1) \<Rightarrow>
               let l = (rt_pool r, i); entry = leased_entry l st1 in
               if \<not> served_port_ok url_parse acl (be_url entry) then (NoRoute, release l st1)
               else (Found \<lparr>bi_url = be_url entry, bi_origin = be_origin entry,
                            bi_protocol = rt_backend_protocol r, bi_path_rewrite = rt_path_rewrite r,
                            bi_path_pattern = rt_path_pattern r, bi_path_is_prefix = rt_path_is_prefix r,
                            bi_lease = Some l\<rparr>, st1)))"
proof -
  have 1: "(case acl of Some a \<Rightarrow> \<not> acl_allows a host | None \<Rightarrow> False) \<or>
      (case (acl, port) of (Some a, Some p) \<Rightarrow> \<not> acl_allows_port a p | _ \<Rightarrow> False) \<longleftrightarrow>
      \<not> acl_admits acl host port"
    by (auto simp: acl_admits_def split: option.splits)
  have 2: "(case (acl, backend_port url_parse url) of
      (Some a, Some p) \<Rightarrow> \<not> acl_allows_backend_port a p | _ \<Rightarrow> False) \<longleftrightarrow> \<not> served_port_ok url_parse acl url" for url
    by (auto simp: served_port_ok_def split: option.splits)
  show ?thesis
    unfolding get_backend_with_acl_excluding_def http_route_def Let_def 2 using 1 by auto
qed

text \<open>What an HTTP lookup answers, and what it counts.\<close>

lemma http_lookup_spec:
  assumes "get_backend_with_acl_excluding url_parse now rand host path port acl exclude st = (res, st')"
    and "table_ok st"
  shows "case res of
      Found bi \<Rightarrow> acl_admits acl host port \<and> served_port_ok url_parse acl (bi_url bi) \<and>
        (\<exists>r l. http_route host path st = Some r \<and> bi_lease bi = Some l \<and> fst l = rt_pool r \<and>
           may_serve now st l \<and> bi_url bi = be_url (leased_entry l st) \<and>
           (\<forall>l'. in_flight_at st' l' = (if l' = l then in_flight_at st l + 1 else in_flight_at st l')))
    | Unavailable \<Rightarrow> st' = st \<and> acl_admits acl host port \<and>
        (\<exists>r. http_route host path st = Some r \<and> no_server now st (rt_pool r))
    | NoRoute \<Rightarrow> (\<forall>l. in_flight_at st' l = in_flight_at st l) \<and>
        (acl_admits acl host port \<and> http_route host path st \<noteq> None \<longrightarrow>
           (\<exists>l. may_serve now st l \<and> \<not> served_port_ok url_parse acl (be_url (leased_entry l st))))"
proof (cases "acl_admits acl host port \<and> http_route host path st \<noteq> None")
  case False
  then have "res = NoRoute" "st' = st"
    using assms(1) unfolding get_backend_eq by (auto split: if_splits)
  with False show ?thesis by auto
next
  case True
  then obtain r where r: "http_route host path st = Some r" and adm: "acl_admits acl host port"
    by auto
  then have a: "rt_pool r < length (px_pools st)"
    using assms(2) best_match_in unfolding http_route_def table_ok_def by blast
  obtain o1 st1 where sel: "select_from now rand exclude (rt_pool r) st = (o1, st1)"
    by (cases "select_from now rand exclude (rt_pool r) st")
  note spec = selected_from [OF sel a]
  show ?thesis
  proof (cases o1)
    case None
    then have "res = Unavailable" "st' = st1"
      using assms(1) r adm sel by (auto simp: get_backend_eq)
    then show ?thesis using None spec r adm by auto
  next
    case (Some i)
    let ?l = "(rt_pool r, i)"
    from spec Some have l: "may_serve now st ?l" "be_url (leased_entry ?l st1) = be_url (leased_entry ?l st)"
      "length (px_pools st1) = length (px_pools st)"
      "length (bp_backends (px_pools st1 ! rt_pool r)) = length (bp_backends (px_pools st ! rt_pool r))"
      and fl: "\<forall>l. in_flight_at st1 l = (if l = ?l then in_flight_at st l + 1 else in_flight_at st l)"
      by auto
    show ?thesis
    proof (cases "served_port_ok url_parse acl (be_url (leased_entry ?l st1))")
      case ok: True
      with assms(1) r adm sel Some obtain bi where
        "res = Found bi" "st' = st1" "bi_lease bi = Some ?l" "bi_url bi = be_url (leased_entry ?l st1)"
        by (auto simp: get_backend_eq Let_def)
      then show ?thesis
        using ok l fl r adm by auto
    next
      case refused: False
      with assms(1) r adm sel Some have res: "res = NoRoute" "st' = release ?l st1"
        by (auto simp: get_backend_eq Let_def)
      have "in_flight_at st' l' = in_flight_at st l'" for l'
        using released [of ?l st1 l'] fl l by (cases l') (auto simp: res may_serve_def)
      then show ?thesis
        using res refused l by auto
    qed
  qed
qed

text \<open>
  C1: an HTTP lookup hands out a backend only to a client that may reach the host, the port it named and,
  under strict ports, the port it is served from; the backend is one that serves, in the pool of the
  best matching route, and its counter alone goes up by one. A refusal as unavailable means that
  such a route exists and nothing in its pool serves; every other refusal is the same
  \<open>NoRoute\<close>, whether the client is not allowed or no route matches. No refusal leaves a request counted.
\<close>

theorem http_lookup_correct:
  assumes "get_backend_with_acl_excluding url_parse now rand host path port acl exclude st = (res, st')"
    and "table_ok st"
  shows "case res of
      Found bi \<Rightarrow> acl_admits acl host port \<and> served_port_ok url_parse acl (bi_url bi) \<and>
        (\<exists>r l. http_route host path st = Some r \<and> bi_lease bi = Some l \<and> fst l = rt_pool r \<and>
           may_serve now st l \<and> bi_url bi = be_url (leased_entry l st) \<and>
           (\<forall>l'. in_flight_at st' l' = (if l' = l then in_flight_at st l + 1 else in_flight_at st l')))
    | Unavailable \<Rightarrow> st' = st \<and> acl_admits acl host port \<and>
        (\<exists>r. http_route host path st = Some r \<and> no_server now st (rt_pool r))
    | NoRoute \<Rightarrow> (\<forall>l. in_flight_at st' l = in_flight_at st l) \<and>
        (acl_admits acl host port \<and> http_route host path st \<noteq> None \<longrightarrow>
           (\<exists>l. may_serve now st l \<and> \<not> served_port_ok url_parse acl (be_url (leased_entry l st))))"
  using assms by (rule http_lookup_spec)

text \<open>A table of two routes, each with its pool.\<close>

definition sample_table :: routing_table where
  "sample_table = routing_table_new
     [sample_route ''*.b'' ''/api'' 0, sample_route ''*'' ''/'' 1]
     [pool_new (\<lambda>_. Inl ''no'') [''10.0.0.5:8080'', ''10.0.0.6:8080''] RoundRobin,
      pool_new (\<lambda>_. Inl ''no'') [''10.0.0.7:22''] LeastConn]"

lemma sample_table_simps:
  "px_routes sample_table = [sample_route ''*.b'' ''/api'' 0, sample_route ''*'' ''/'' 1]"
  "px_pools sample_table = [pool_new (\<lambda>_. Inl ''no'') [''10.0.0.5:8080'', ''10.0.0.6:8080''] RoundRobin,
      pool_new (\<lambda>_. Inl ''no'') [''10.0.0.7:22''] LeastConn]"
  by (simp_all add: sample_table_def routing_table_new_def)

lemma sample_table_ok: "table_ok sample_table"
  by (simp add: table_ok_def sample_table_simps) (simp add: sample_route_def)

lemma sample_http_route: "http_route ''a.b'' ''/api/x'' sample_table = Some (sample_route ''*.b'' ''/api'' 0)"
  unfolding http_route_def sample_table_simps by code_simp

lemma sample_select_from:
  "fst (select_from 0 0 [] 0 sample_table) = Some 0"
proof -
  have "fst (select_backend_excluding 0 0 [] (px_pools sample_table ! 0)) = Some 0"
    unfolding sample_table_simps by code_simp
  then show ?thesis
    by (simp add: select_from_def Let_def case_prod_beta)
qed

definition sample_acl :: client_acl where
  "sample_acl = acl_with_strict_ports True (acl_from_hosts_and_ports (Some [''*.b'']) (Some [8080]))"

lemma sample_admits: "acl_admits (Some sample_acl) ''a.b'' None"
proof -
  have "acl_allows sample_acl ''a.b''"
    by code_simp
  then show ?thesis by (simp add: acl_admits_def)
qed

lemma sample_backend_addr: "passthrough_backend_addr (\<lambda>_. Inl ''no'') ''10.0.0.5:8080'' = Some (''10.0.0.5'', 8080)"
proof -
  have "parse_u16 ''8080'' = Some 8080"
    by (simp add: parse_u16_def parse_nat_def digit_value_def)
  moreover have "str_trim ''10.0.0.5:8080'' = ''10.0.0.5:8080''" "\<not> contains_str ''://'' ''10.0.0.5:8080''"
    "rsplit_once CHR '':'' ''10.0.0.5:8080'' = Some (''10.0.0.5'', ''8080'')"
    by code_simp+
  ultimately show ?thesis
    by (simp add: passthrough_backend_addr_def parse_backend_addr_def)
qed

lemma sample_served_port: "served_port_ok (\<lambda>_. Inl ''no'') (Some sample_acl) ''10.0.0.5:8080''"
  by (simp add: served_port_ok_def backend_port_def sample_backend_addr sample_acl_def acl_with_strict_ports_def
      acl_from_hosts_and_ports_def acl_allows_backend_port_def acl_allows_port_def)

lemma sample_found:
  "\<exists>bi st'. get_backend_with_acl_excluding (\<lambda>_. Inl ''no'') 0 0 ''a.b'' ''/api/x'' None (Some sample_acl) []
     sample_table = (Found bi, st') \<and> bi_path_pattern bi = ''/api'' \<and> bi_path_is_prefix bi \<and>
       bi_path_rewrite bi = Some ''/v2{}''"
proof -
  obtain st1 where sel: "select_from 0 0 [] 0 sample_table = (Some 0, st1)"
    using sample_select_from by (cases "select_from 0 0 [] 0 sample_table") auto
  have "0 < length (px_pools sample_table)"
    by (simp add: sample_table_simps)
  from selected_from [OF sel this]
  have "be_url (leased_entry (0, 0) st1) = be_url (leased_entry (0, 0) sample_table)"
    by simp
  also have "\<dots> = ''10.0.0.5:8080''"
    by (simp add: leased_entry_def sample_table_simps pool_new_def backend_entry_new_def)
  finally have url: "be_url (leased_entry (0, 0) st1) = ''10.0.0.5:8080''" .
  have "rt_pool (sample_route ''*.b'' ''/api'' 0) = 0"
    by (simp add: sample_route_def)
  then show ?thesis
    using sample_admits sample_http_route sel url sample_served_port
    by (simp add: get_backend_eq Let_def sample_route_def)
qed

theorem http_lookup_correct_witness:
  "\<exists>bi st'. get_backend_with_acl_excluding (\<lambda>_. Inl ''no'') 0 0 ''a.b'' ''/api/x'' None (Some sample_acl) []
     sample_table = (Found bi, st') \<and> served_port_ok (\<lambda>_. Inl ''no'') (Some sample_acl) (bi_url bi) \<and>
     (\<exists>l. bi_lease bi = Some l \<and> in_flight_at st' l = in_flight_at sample_table l + 1)"
proof -
  obtain bi st' where found: "get_backend_with_acl_excluding (\<lambda>_. Inl ''no'') 0 0 ''a.b'' ''/api/x'' None
      (Some sample_acl) [] sample_table = (Found bi, st')"
    using sample_found by blast
  from http_lookup_correct [OF found sample_table_ok] found show ?thesis
    by auto
qed

text \<open>
  C40: a request is forwarded with the part of its path that the route's pattern did not cover put into
  the rewrite, and with its path unchanged when the route has none. The part is the one the match
  went by: the path is the pattern without its trailing slashes followed by it, and it is empty or
  begins with a slash; for a route with an exact path it is empty.
\<close>

theorem rewrite_agrees_with_match:
  assumes "get_backend_with_acl_excluding url_parse now rand host path port acl exclude st = (Found bi, st')"
  shows "\<exists>s. path = (if bi_path_is_prefix bi then trim_end_matches is_slash (bi_path_pattern bi)
                       else bi_path_pattern bi) @ s \<and>
       (s = [] \<or> bi_path_is_prefix bi \<and> (\<exists>t. s = CHR ''/'' # t)) \<and>
       rewritten_path bi path =
         (case bi_path_rewrite bi of None \<Rightarrow> path | Some rewrite \<Rightarrow> str_replace ''{}'' s rewrite)"
proof -
  from assms obtain r where r: "http_route host path st = Some r"
    and bi: "bi_path_rewrite bi = rt_path_rewrite r" "bi_path_pattern bi = rt_path_pattern r"
      "bi_path_is_prefix bi = rt_path_is_prefix r"
    by (auto simp: get_backend_eq Let_def split: if_splits option.splits prod.splits)
  have serves: "serves_request r (normalize_host host) path"
    using best_match_in [OF r [unfolded http_route_def]] by (simp add: eligible_def)
  show ?thesis
  proof (cases "rt_path_is_prefix r")
    case True
    with serves obtain s where s: "path_suffix (rt_path_pattern r) path = Some s"
      by (auto simp: serves_request_def split: if_splits)
    then have "rewritten_path bi path =
        (case bi_path_rewrite bi of None \<Rightarrow> path | Some rewrite \<Rightarrow> str_replace ''{}'' s rewrite)"
      using True bi by (simp add: rewritten_path_def split: option.split)
    then show ?thesis
      using s True bi by (auto simp: path_suffix_Some_iff)
  next
    case False
    with serves have "path = rt_path_pattern r"
      by (auto simp: serves_request_def split: if_splits)
    then show ?thesis
      using False bi by (auto simp: rewritten_path_def split: option.split)
  qed
qed

theorem rewrite_agrees_with_match_witness:
  "\<exists>bi st'. get_backend_with_acl_excluding (\<lambda>_. Inl ''no'') 0 0 ''a.b'' ''/api/x'' None (Some sample_acl) []
     sample_table = (Found bi, st') \<and> rewritten_path bi ''/api/x'' = ''/v2/x''"
proof -
  obtain bi st' where found: "get_backend_with_acl_excluding (\<lambda>_. Inl ''no'') 0 0 ''a.b'' ''/api/x'' None
      (Some sample_acl) [] sample_table = (Found bi, st')"
    and bi: "bi_path_pattern bi = ''/api''" "bi_path_is_prefix bi" "bi_path_rewrite bi = Some ''/v2{}''"
    using sample_found by blast
  have trim: "trim_end_matches is_slash ''/api'' = ''/api''" and rep: "str_replace ''{}'' ''/x'' ''/v2{}'' = ''/v2/x''"
    by code_simp+
  from rewrite_agrees_with_match [OF found] bi trim
  have "rewritten_path bi ''/api/x'' = str_replace ''{}'' ''/x'' ''/v2{}''"
    by auto
  with found rep show ?thesis by auto
qed

text \<open>The lookups of the other modes, which know no path and no retry.\<close>

definition l4_route :: "string \<Rightarrow> u16 \<Rightarrow> route_mode \<Rightarrow> routing_table \<Rightarrow> route option" where
  "l4_route host port mode st = best_match (px_routes st) mode (\<lambda>r. serves_l4 r (normalize_host host) port)"

definition passthrough_route :: "string \<Rightarrow> routing_table \<Rightarrow> route option" where
  "passthrough_route sni st = best_match (px_routes st) MPassthrough (\<lambda>r. serves_host r (normalize_host sni))"

text \<open>A lease of a backend of a route's pool, taken between two states of the table.\<close>

definition leased_between :: "nat \<Rightarrow> routing_table \<Rightarrow> routing_table \<Rightarrow> route \<Rightarrow> lease_ref \<Rightarrow> bool" where
  "leased_between now st st' r l \<longleftrightarrow>
     fst l = rt_pool r \<and> may_serve now st l \<and> be_url (leased_entry l st') = be_url (leased_entry l st) \<and>
     snd l < length (bp_backends (px_pools st' ! fst l)) \<and>
     px_routes st' = px_routes st \<and> length (px_pools st') = length (px_pools st) \<and>
     (\<forall>l'. in_flight_at st' l' = (if l' = l then in_flight_at st l + 1 else in_flight_at st l'))"

lemma leased_betweenI:
  assumes "select_from now rand exclude (rt_pool r) st = (Some i, st')" and "rt_pool r < length (px_pools st)"
  shows "leased_between now st st' r (rt_pool r, i)"
  using selected_from [OF assms] by (auto simp: leased_between_def may_serve_def)

lemma release_leased:
  assumes "leased_between now st st1 r l"
  shows "in_flight_at (release l st1) l' = in_flight_at st l'"
proof -
  have "fst l < length (px_pools st1)" "snd l < length (bp_backends (px_pools st1 ! fst l))"
    using assms by (auto simp: leased_between_def may_serve_def)
  from released [OF this, of l'] show ?thesis
    using assms unfolding leased_between_def by (cases l'; cases l) auto
qed

lemma get_l4_backend_spec:
  assumes "get_l4_backend now rand host port mode st = (res, st')" and "table_ok st"
  shows "case res of
      Found li \<Rightarrow> \<exists>r. l4_route host port mode st = Some r \<and> leased_between now st st' r (li_lease li) \<and>
        li_backend li = be_url (leased_entry (li_lease li) st) \<and>
        li_idle_timeout li = l4_idle_timeout (rt_l4 r) \<and> li_flow_timeout li = l4_flow_timeout (rt_l4 r)
    | Unavailable \<Rightarrow> st' = st \<and> (\<exists>r. l4_route host port mode st = Some r \<and> no_server now st (rt_pool r))
    | NoRoute \<Rightarrow> st' = st \<and> l4_route host port mode st = None"
proof (cases "l4_route host port mode st")
  case None
  then show ?thesis
    using assms(1) by (auto simp: get_l4_backend_def l4_route_def)
next
  case (Some r)
  then have a: "rt_pool r < length (px_pools st)"
    using assms(2) best_match_in unfolding l4_route_def table_ok_def by blast
  obtain o1 st1 where sel: "select_from now rand [] (rt_pool r) st = (o1, st1)"
    by (cases "select_from now rand [] (rt_pool r) st")
  show ?thesis
  proof (cases o1)
    case None
    then show ?thesis
      using assms(1) Some sel selected_from [OF sel a] by (auto simp: get_l4_backend_def l4_route_def)
  next
    case (Some i)
    note leased = leased_betweenI [OF sel [unfolded Some] a]
    then have "be_url (leased_entry (rt_pool r, i) st1) = be_url (leased_entry (rt_pool r, i) st)"
      by (simp add: leased_between_def)
    with leased show ?thesis
      using assms(1) \<open>l4_route host port mode st = Some r\<close> sel Some
      by (auto simp: get_l4_backend_def l4_route_def)
  qed
qed

lemma get_passthrough_backend_spec:
  assumes "get_passthrough_backend now rand sni st = (res, st')" and "table_ok st"
  shows "case res of
      Found l \<Rightarrow> \<exists>r. passthrough_route sni st = Some r \<and> leased_between now st st' r l
    | Unavailable \<Rightarrow> st' = st \<and> (\<exists>r. passthrough_route sni st = Some r \<and> no_server now st (rt_pool r))
    | NoRoute \<Rightarrow> st' = st \<and> passthrough_route sni st = None"
proof (cases "passthrough_route sni st")
  case None
  then show ?thesis
    using assms(1) by (auto simp: get_passthrough_backend_def passthrough_route_def)
next
  case (Some r)
  then have a: "rt_pool r < length (px_pools st)"
    using assms(2) best_match_in unfolding passthrough_route_def table_ok_def by blast
  obtain o1 st1 where sel: "select_from now rand [] (rt_pool r) st = (o1, st1)"
    by (cases "select_from now rand [] (rt_pool r) st")
  show ?thesis
  proof (cases o1)
    case None
    then show ?thesis
      using assms(1) Some sel selected_from [OF sel a]
      by (auto simp: get_passthrough_backend_def passthrough_route_def)
  next
    case (Some i)
    with leased_betweenI [OF sel [unfolded Some] a] show ?thesis
      using assms(1) \<open>passthrough_route sni st = Some r\<close> sel
      by (auto simp: get_passthrough_backend_def passthrough_route_def)
  qed
qed

section \<open>Pools across a reload\<close>

text \<open>The pool a name stands for: that of the last route of the name.\<close>

definition pool_named :: "(route \<Rightarrow> string) \<Rightarrow> route list \<Rightarrow> string \<rightharpoonup> nat" where
  "pool_named key rs k = 
     (let qs = filter (\<lambda>r. key r = k) rs in if qs = [] then None else Some (rt_pool (last qs)))"

lemma pool_named_fold: "fold (\<lambda>r m. m(key r \<mapsto> rt_pool r)) rs Map.empty = pool_named key rs"
proof (induction rs rule: rev_induct)
  case Nil
  then show ?case by (simp add: pool_named_def fun_eq_iff)
next
  case (snoc r rs)
  then show ?case
    by (simp add: pool_named_def fun_eq_iff Let_def)
qed

lemma pool_named_Some_in: "pool_named key rs k = Some a \<Longrightarrow> a \<in> rt_pool ` {r \<in> set rs. key r = k}"
proof -
  assume named: "pool_named key rs k = Some a"
  let ?qs = "filter (\<lambda>r. key r = k) rs"
  from named have "?qs \<noteq> []" "a = rt_pool (last ?qs)"
    by (auto simp: pool_named_def Let_def split: if_splits)
  moreover from this have "last ?qs \<in> set ?qs"
    using last_in_set by blast
  ultimately show ?thesis by auto
qed

lemma length_carry_over [simp]: "length (carry_over key rs m) = length rs"
  by (induction rs arbitrary: m) (simp_all split: option.split)

lemma carry_over_nth:
  "i < length rs \<Longrightarrow> carry_over key rs m ! i =
     (rs ! i)\<lparr>rt_pool := (case m (key (rs ! i)) of
         Some a \<Rightarrow> if \<exists>j < i. key (rs ! j) = key (rs ! i) then rt_pool (rs ! i) else a
       | None \<Rightarrow> rt_pool (rs ! i))\<rparr>"
proof (induction rs arbitrary: m i)
  case (Cons r rs)
  show ?case
  proof (cases i)
    case 0
    then show ?thesis by (simp split: option.split)
  next
    case (Suc k)
    have ex: "(\<exists>j < Suc k. key ((r # rs) ! j) = key (rs ! k)) \<longleftrightarrow>
        key r = key (rs ! k) \<or> (\<exists>j < k. key (rs ! j) = key (rs ! k))"
      by (simp add: Ex_less_Suc2)
    show ?thesis
      using Cons.prems Suc
      by (cases "m (key r)") (auto simp: Cons.IH ex split: option.split)
  qed
qed simp

lemma update_routes_nth:
  "i < length new \<Longrightarrow> px_routes (update_routes esc new st) ! i =
     (new ! i)\<lparr>rt_pool := (case pool_named (pool_key esc (px_pools st)) (px_routes st) (pool_key esc (px_pools st) (new ! i)) of
         Some a \<Rightarrow> if \<exists>j < i. pool_key esc (px_pools st) (new ! j) = pool_key esc (px_pools st) (new ! i)
                   then rt_pool (new ! i) else a
       | None \<Rightarrow> rt_pool (new ! i))\<rparr>"
  by (simp add: update_routes_def Let_def carry_over_nth pool_named_fold)

lemma update_routes_simps [simp]:
  "px_pools (update_routes esc new st) = px_pools st"
  "length (px_routes (update_routes esc new st)) = length new"
  by (simp_all add: update_routes_def Let_def)

lemma pool_named_distinct:
  assumes "distinct (map rt_pool rs)" and "pool_named key rs k = Some a" and "pool_named key rs k' = Some a"
  shows "k = k'"
proof -
  obtain r r' where "r \<in> set rs" "key r = k" "r' \<in> set rs" "key r' = k'" "rt_pool r = rt_pool r'"
    using assms(2, 3) [THEN pool_named_Some_in] by auto
  with assms(1) show ?thesis
    by (auto simp: distinct_map inj_on_def)
qed

lemma pool_named_sole:
  assumes "q \<in> set rs" and "\<forall>q' \<in> set rs. key q' = key q \<longrightarrow> q' = q"
  shows "pool_named key rs (key q) = Some (rt_pool q)"
proof -
  let ?qs = "filter (\<lambda>r. key r = key q) rs"
  have "?qs \<noteq> []"
    using assms(1) by (auto simp: filter_empty_conv)
  then have "last ?qs \<in> set ?qs"
    by (rule last_in_set)
  with assms(2) have "last ?qs = q" by simp
  with \<open>?qs \<noteq> []\<close> show ?thesis
    by (simp add: pool_named_def Let_def)
qed

lemma update_routes_pool_cases:
  assumes "i < length new"
  shows "rt_pool (px_routes (update_routes esc new st) ! i) = rt_pool (new ! i) \<or>
    pool_named (pool_key esc (px_pools st)) (px_routes st) (pool_key esc (px_pools st) (new ! i)) =
      Some (rt_pool (px_routes (update_routes esc new st) ! i)) \<and>
    (\<forall>j < i. pool_key esc (px_pools st) (new ! j) \<noteq> pool_key esc (px_pools st) (new ! i))"
  by (auto simp: update_routes_nth [OF assms] split: option.split)

lemma update_routes_distinct:
  assumes "distinct (map rt_pool (px_routes st))" and "distinct (map rt_pool new)"
    and "rt_pool ` set new \<inter> rt_pool ` set (px_routes st) = {}"
  shows "distinct (map rt_pool (px_routes (update_routes esc new st)))"
proof -
  let ?st' = "update_routes esc new st"
  let ?pool = "\<lambda>i. rt_pool (px_routes ?st' ! i)"
  have ne: "?pool i \<noteq> ?pool j" if "i < j" "j < length new" for i j
  proof -
    let ?named = "pool_named (pool_key esc (px_pools st)) (px_routes st)"
    have fresh: "rt_pool (new ! k) \<noteq> a" if "?named key = Some a" "k < length new" for k key a
    proof -
      have "a \<in> rt_pool ` set (px_routes st)" "rt_pool (new ! k) \<in> rt_pool ` set new"
        using that pool_named_Some_in [OF that(1)] by auto
      with assms(3) show ?thesis by auto
    qed
    have i: "i < length new" and new: "rt_pool (new ! i) \<noteq> rt_pool (new ! j)"
      using assms(2) that by (auto simp: distinct_conv_nth)
    from update_routes_pool_cases [OF i, of esc st] update_routes_pool_cases [OF that(2), of esc st]
    show ?thesis
    proof (elim disjE conjE, goal_cases)
      case 1
      then show ?case using new by simp
    next
      case 2
      then show ?case using fresh [OF _ i] by metis
    next
      case 3
      then show ?case using fresh [OF _ that(2)] by metis
    next
      case 4
      then show ?case using pool_named_distinct [OF assms(1)] that(1) by metis
    qed
  qed
  have "?pool i \<noteq> ?pool j" if "i \<noteq> j" "i < length new" "j < length new" for i j
    using ne [of i j] ne [of j i] that by (cases "i < j") auto
  then show ?thesis
    by (simp add: distinct_conv_nth)
qed


text \<open>
  The table reloaded with the same two routes in the other order: the two new pools are at the end of the
  store.
\<close>

definition sample_reload :: routing_table where
  "sample_reload = sample_table\<lparr>px_pools := px_pools sample_table @
     [pool_new (\<lambda>_. Inl ''no'') [''10.0.0.7:22''] LeastConn,
      pool_new (\<lambda>_. Inl ''no'') [''10.0.0.5:8080'', ''10.0.0.6:8080''] RoundRobin]\<rparr>"


text \<open>
  Two routes that differ only in whether their path is a prefix have one name, and a reload of the same two
  routes gives the first of them the pool of the second and leaves the pool of the first to nobody.
\<close>

lemma reload_of_one_name:
  fixes exact under :: route
  defines "exact \<equiv> (sample_route ''*'' ''/'' 0)\<lparr>rt_path_is_prefix := False\<rparr>"
    and "under \<equiv> sample_route ''*'' ''/'' 1"
  assumes "px_routes st = [exact, under]" and "px_pools st = replicate 4 (pool_new (\<lambda>_. Inl ''no'') [''10.0.0.7:22''] LeastConn)"
  shows "map rt_pool (px_routes (update_routes id [exact\<lparr>rt_pool := 2\<rparr>, under\<lparr>rt_pool := 3\<rparr>] st)) = [1, 3]"
proof -
  let ?key = "pool_key id (px_pools st)"
  have "?key r = ?key exact" if "r \<in> {under, exact\<lparr>rt_pool := 2\<rparr>, under\<lparr>rt_pool := 3\<rparr>}" for r
    using that unfolding assms(4) exact_def under_def
    by (auto simp: pool_key_def sample_route_def)
  then show ?thesis
    by (simp add: update_routes_def assms(3) Let_def) (simp add: under_def sample_route_def)
qed

end
