(* ===== verification/Nexa_Config.thy ===== *)
theory Nexa_Config
  imports Nexa_Routes
begin

text \<open>
  The rules a configuration has to satisfy and its translation into routes:
  \<open>crates/nexapipe/src/config/validate.rs\<close>, \<open>config/routes.rs\<close> and the sections of
  \<open>config/schema.rs\<close> they read. A message is a constructor of \<open>config_error\<close> with what it names. The
  record of the configuration holds the keys that the translation reads, an opaque value being its text;
  the file itself is parsed by serde and toml.
\<close>

section \<open>Sections\<close>

datatype config_error =
    HealthIntervalZero
  | HealthTimeoutZero
  | HealthThresholdZero
  | TimeoutZero string
  | TimeoutTooLong string u64
  | PhaseZero string
  | PhaseTooLong string u64
  | DefaultBackendRemoved
  | BadStrategy string
  | BadMode string
  | BadBackendProtocol string
  | BadHostPattern pattern_fault
  | NoBackends
  | ClientPortsEmpty
  | ClientPortZero
  | IdleTimeoutZero
  | FlowTimeoutZero
  | RouteBoundTooLong string u64
  | NotPassthroughAddress string
  | NotAUrl string string
  | UnfetchableScheme string string
  | L4Empty
  | L4NotAUrl string string
  | L4NoHost string
  | L4HasPath string
  | L4NoPort string
  | H2cOverTls string

definition ensure :: "bool \<Rightarrow> 'e \<Rightarrow> 'e + unit" where
  "ensure ok e = (if ok then Inr () else Inl e)"

lemma ensure_eq_Inr [simp]: "ensure ok e = Inr u \<longleftrightarrow> ok"
  by (simp add: ensure_def)

lemma ensure_eq_Inl [simp]: "ensure ok e = Inl e' \<longleftrightarrow> \<not> ok \<and> e' = e"
  by (auto simp: ensure_def)

primrec for_each :: "('a \<Rightarrow> 'e + unit) \<Rightarrow> 'a list \<Rightarrow> 'e + unit" where
  "for_each f [] = Inr ()"
| "for_each f (x # xs) = rbind (f x) (\<lambda>_. for_each f xs)"

lemma for_each_eq_Inr [simp]: "for_each f xs = Inr u \<longleftrightarrow> (\<forall>x \<in> set xs. f x = Inr ())"
  by (induction xs) auto

record health_check_config =
  hc_enabled :: bool
  hc_interval :: u64
  hc_timeout :: u64
  hc_threshold :: nat
  hc_path :: string

definition health_check_default :: health_check_config where
  "health_check_default =
     \<lparr>hc_enabled = True, hc_interval = 10, hc_timeout = 5, hc_threshold = 3, hc_path = ''/health''\<rparr>"

record route_spec =
  rs_host_pattern :: string
  rs_path_pattern :: string
  rs_path_is_prefix :: "bool option"
  rs_strategy :: "string option"
  rs_backends :: "string list"
  rs_backend_protocol :: "string option"
  rs_mode :: "string option"
  rs_modes :: "string list option"
  rs_path_rewrite :: "string option"
  rs_client_ports :: "u16 list option"
  rs_idle_timeout_secs :: "u64 option"
  rs_flow_timeout_secs :: "u64 option"

record proxy_config =
  pc_default_backend :: "string option"
  pc_routes :: "route_spec list option"
  pc_health_check :: health_check_config
  pc_timeouts :: timeouts_config
  pc_retry :: retry_config
  pc_circuit_breaker :: circuit_breaker_config

section \<open>Single values\<close>

definition get_strategy :: "string option \<Rightarrow> config_error + strategy" where
  "get_strategy s =
     (case s of
        None \<Rightarrow> Inr RoundRobin
      | Some name \<Rightarrow>
          if name \<in> {''random'', ''Random''} then Inr Random
          else if name \<in> {''round_robin'', ''RoundRobin'', ''roundrobin''} then Inr RoundRobin
          else if name \<in> {''least_conn'', ''LeastConn'', ''leastconn''} then Inr LeastConn
          else Inl (BadStrategy name))"

definition parse_route_mode :: "string \<Rightarrow> config_error + route_mode" where
  "parse_route_mode mode =
     (if mode \<in> {''http'', ''Http'', ''HTTP''} then Inr MHttp
      else if mode \<in> {''passthrough'', ''Passthrough''} then Inr MPassthrough
      else if mode \<in> {''tcp'', ''Tcp'', ''TCP''} then Inr MTcp
      else if mode \<in> {''udp'', ''Udp'', ''UDP''} then Inr MUdp
      else Inl (BadMode mode))"

definition get_route_mode :: "string option \<Rightarrow> config_error + route_mode" where
  "get_route_mode mode = (case mode of None \<Rightarrow> Inr MHttp | Some name \<Rightarrow> parse_route_mode name)"

definition push_mode :: "route_mode \<Rightarrow> route_mode list \<Rightarrow> route_mode list" where
  "push_mode mode resolved = (if mode \<in> set resolved then resolved else resolved @ [mode])"

primrec push_modes :: "string list \<Rightarrow> route_mode list \<Rightarrow> config_error + route_mode list" where
  "push_modes [] resolved = Inr resolved"
| "push_modes (name # names) resolved =
     rbind (parse_route_mode name) (\<lambda>mode. push_modes names (push_mode mode resolved))"

definition get_route_modes :: "string option \<Rightarrow> string list option \<Rightarrow> config_error + route_mode list" where
  "get_route_modes mode modes =
     rbind (case mode of
              Some single \<Rightarrow> rbind (parse_route_mode single) (\<lambda>m. Inr (push_mode m []))
            | None \<Rightarrow> Inr [])
       (\<lambda>resolved. rbind (push_modes (case modes of Some names \<Rightarrow> names | None \<Rightarrow> []) resolved)
         (\<lambda>resolved. Inr (if resolved = [] then [MHttp] else resolved)))"

definition get_backend_protocol :: "string option \<Rightarrow> config_error + backend_protocol" where
  "get_backend_protocol v =
     (case map_option str_trim v of
        None \<Rightarrow> Inr Http1
      | Some name \<Rightarrow>
          if name = [] \<or> name = ''http1'' then Inr Http1
          else if name = ''h2c'' then Inr H2c
          else Inl (BadBackendProtocol name))"

section \<open>Backends\<close>

definition validate_l4_backend :: "(string \<Rightarrow> string + parsed_url) \<Rightarrow> string \<Rightarrow> config_error + unit" where
  "validate_l4_backend url_parse backend =
     (let trimmed = str_trim backend in
      rbind (ensure (trimmed \<noteq> []) L4Empty) (\<lambda>_.
      rbind
        (if contains_str ''://'' trimmed then
           (case url_parse trimmed of
              Inl e \<Rightarrow> Inl (L4NotAUrl backend e)
            | Inr url \<Rightarrow>
                let host = unwrap_or (pu_host_str url) [] in
                rbind (ensure (host \<noteq> []) (L4NoHost backend)) (\<lambda>_.
                rbind (ensure (pu_path url = [] \<or> pu_path url = ''/'') (L4HasPath backend)) (\<lambda>_.
                Inr (host, pu_port url))))
         else
           (case rsplit_once CHR '':'' trimmed of
              Some (host, port) \<Rightarrow>
                if host \<noteq> [] then
                  Inr (host, (case parse_u16 port of
                                Some p \<Rightarrow> if p \<noteq> 0 then Some p else None
                              | None \<Rightarrow> None))
                else Inr (trimmed, None)
            | None \<Rightarrow> Inr (trimmed, None)))
        (\<lambda>(host, port). (case port of Some _ \<Rightarrow> Inr () | None \<Rightarrow> Inl (L4NoPort backend)))))"

definition validate_backend ::
    "(string \<Rightarrow> string + parsed_url) \<Rightarrow> route_mode \<Rightarrow> string \<Rightarrow> config_error + unit" where
  "validate_backend url_parse mode backend =
     (if mode = MPassthrough then
        (case passthrough_backend_addr url_parse backend of
           Some (host, port) \<Rightarrow>
             if host \<noteq> [] \<and> port \<noteq> 0 then Inr () else Inl (NotPassthroughAddress backend)
         | None \<Rightarrow> Inl (NotPassthroughAddress backend))
      else if is_l4_mode mode then validate_l4_backend url_parse backend
      else
        (case url_parse backend of
           Inl e \<Rightarrow> Inl (NotAUrl backend e)
         | Inr url \<Rightarrow>
             if pu_scheme url = ''http'' \<or> pu_scheme url = ''https'' then Inr ()
             else Inl (UnfetchableScheme backend (pu_scheme url))))"

section \<open>Whole sections\<close>

definition validate_health_check :: "proxy_config \<Rightarrow> config_error + unit" where
  "validate_health_check config =
     (let health = pc_health_check config in
      rbind (ensure (hc_interval health \<noteq> 0) HealthIntervalZero) (\<lambda>_.
      rbind (ensure (hc_timeout health \<noteq> 0) HealthTimeoutZero) (\<lambda>_.
      ensure (hc_threshold health \<noteq> 0) HealthThresholdZero)))"

definition check_secs ::
    "(string \<Rightarrow> config_error) \<Rightarrow> (string \<Rightarrow> u64 \<Rightarrow> config_error) \<Rightarrow> u64 \<Rightarrow> string \<times> u64 option \<Rightarrow> config_error + unit" where
  "check_secs zero long ceiling key_secs =
     (case key_secs of
        (key, None) \<Rightarrow> Inr ()
      | (key, Some secs) \<Rightarrow>
          rbind (ensure (secs \<noteq> 0) (zero key)) (\<lambda>_. ensure (secs \<le> ceiling) (long key secs)))"

definition validate_timeouts :: "proxy_config \<Rightarrow> config_error + unit" where
  "validate_timeouts config =
     (let t = pc_timeouts config in
      rbind (for_each (check_secs TimeoutZero TimeoutTooLong TIMEOUTS_MAX_SECS)
               [(''connect_secs'', tc_connect_secs t), (''response_secs'', tc_response_secs t)])
        (\<lambda>_. for_each (check_secs PhaseZero PhaseTooLong MAX_SECS)
               [(''header_secs'', tc_header_secs t), (''body_secs'', tc_body_secs t),
                (''response_idle_secs'', tc_response_idle_secs t), (''l4_flow_secs'', tc_l4_flow_secs t),
                (''l4_idle_secs'', tc_l4_idle_secs t), (''tls_hello_secs'', tc_tls_hello_secs t)]))"

section \<open>Routes\<close>

definition check_route_bound :: "string \<times> u64 option \<Rightarrow> config_error + unit" where
  "check_route_bound key_secs =
     (case key_secs of
        (key, None) \<Rightarrow> Inr ()
      | (key, Some secs) \<Rightarrow> ensure (secs \<le> MAX_SECS) (RouteBoundTooLong key secs))"

definition check_client_ports :: "u16 list option \<Rightarrow> config_error + unit" where
  "check_client_ports client_ports =
     (case client_ports of
        None \<Rightarrow> Inr ()
      | Some ports \<Rightarrow>
          rbind (ensure (ports \<noteq> []) ClientPortsEmpty) (\<lambda>_. ensure (0 \<notin> set ports) ClientPortZero))"

definition check_h2c ::
    "(string \<Rightarrow> string + parsed_url) \<Rightarrow> backend_protocol \<Rightarrow> route_mode list \<Rightarrow> string list \<Rightarrow> config_error + unit" where
  "check_h2c url_parse protocol modes backends =
     (if protocol = H2c \<and> MHttp \<in> set modes then
        for_each (\<lambda>backend. ensure
          (\<not> (case url_parse backend of Inr url \<Rightarrow> pu_scheme url = ''https'' | Inl _ \<Rightarrow> False))
          (H2cOverTls backend)) backends
      else Inr ())"

text \<open>A route takes a new pool at the end of the store.\<close>

definition route_try_from ::
    "(string \<Rightarrow> string + parsed_url) \<Rightarrow> route_spec \<Rightarrow> backend_pool list \<Rightarrow> config_error + route \<times> backend_pool list" where
  "route_try_from url_parse spec pools =
     rbind (get_strategy (rs_strategy spec)) (\<lambda>strat.
     rbind (get_route_modes (rs_mode spec) (rs_modes spec)) (\<lambda>modes.
     rbind (case pattern_error (rs_host_pattern spec) of
              Some why \<Rightarrow> Inl (BadHostPattern why) | None \<Rightarrow> Inr ()) (\<lambda>_.
     rbind (ensure (rs_backends spec \<noteq> []) NoBackends) (\<lambda>_.
     rbind (check_client_ports (rs_client_ports spec)) (\<lambda>_.
     rbind (ensure (rs_idle_timeout_secs spec \<noteq> Some 0) IdleTimeoutZero) (\<lambda>_.
     rbind (ensure (rs_flow_timeout_secs spec \<noteq> Some 0) FlowTimeoutZero) (\<lambda>_.
     rbind (for_each check_route_bound
              [(''idle_timeout_secs'', rs_idle_timeout_secs spec),
               (''flow_timeout_secs'', rs_flow_timeout_secs spec)]) (\<lambda>_.
     rbind (for_each (\<lambda>backend. for_each (\<lambda>mode. validate_backend url_parse mode backend) modes)
              (rs_backends spec)) (\<lambda>_.
     rbind (get_backend_protocol (rs_backend_protocol spec)) (\<lambda>protocol.
     rbind (check_h2c url_parse protocol modes (rs_backends spec)) (\<lambda>_.
     let options = \<lparr>l4_client_ports = rs_client_ports spec,
                    l4_idle_timeout = map_option from_secs (rs_idle_timeout_secs spec),
                    l4_flow_timeout = map_option from_secs (rs_flow_timeout_secs spec)\<rparr>;
         (r, pools') = route_new url_parse (rs_host_pattern spec) (rs_path_pattern spec)
                         (unwrap_or (rs_path_is_prefix spec) True) (rs_backends spec) strat (modes ! 0)
                         (rs_path_rewrite spec) pools
     in Inr (with_backend_protocol protocol (with_modes modes (with_l4_options options r)), pools'))))))))))))"

primrec build_specs ::
    "(string \<Rightarrow> string + parsed_url) \<Rightarrow> circuit_breaker \<Rightarrow> route_spec list \<Rightarrow> backend_pool list \<Rightarrow>
      config_error + route list \<times> backend_pool list" where
  "build_specs url_parse breaker [] pools = Inr ([], pools)"
| "build_specs url_parse breaker (spec # specs) pools =
     rbind (route_try_from url_parse spec pools) (\<lambda>(r, pools').
     rbind (build_specs url_parse breaker specs (with_circuit_breaker breaker r pools')) (\<lambda>(rs, pools'').
     Inr (r # rs, pools'')))"

definition build_routes ::
    "(string \<Rightarrow> string + parsed_url) \<Rightarrow> proxy_config \<Rightarrow> backend_pool list \<Rightarrow>
      config_error + route list \<times> backend_pool list" where
  "build_routes url_parse config pools =
     rbind (validate_health_check config) (\<lambda>_.
     rbind (validate_timeouts config) (\<lambda>_.
     rbind (ensure (pc_default_backend config = None) DefaultBackendRemoved) (\<lambda>_.
     build_specs url_parse (circuit_breaker_resolve (pc_circuit_breaker config))
       (case pc_routes config of Some specs \<Rightarrow> specs | None \<Rightarrow> []) pools)))"

text \<open>
  The routing half of a reload: a configuration that cannot be translated leaves the table as it is.
\<close>

definition reload_routes ::
    "(string \<Rightarrow> string + parsed_url) \<Rightarrow> (string \<Rightarrow> string) \<Rightarrow> proxy_config \<Rightarrow> routing_table \<Rightarrow> bool \<times> routing_table" where
  "reload_routes url_parse esc config st =
     (case build_routes url_parse config (px_pools st) of
        Inl e \<Rightarrow> (False, st)
      | Inr (routes, pools) \<Rightarrow> (True, update_routes esc routes (st\<lparr>px_pools := pools\<rparr>)))"

section \<open>What a configuration that is accepted gives\<close>

lemma distinct_push_mode: "distinct ms \<Longrightarrow> distinct (push_mode m ms)"
  by (simp add: push_mode_def)

lemma push_modes_distinct: "push_modes names ms = Inr out \<Longrightarrow> distinct ms \<Longrightarrow> distinct out"
  by (induction names arbitrary: ms) (auto dest: distinct_push_mode)

lemma get_route_modes_ok: "get_route_modes mode modes = Inr ms \<Longrightarrow> ms \<noteq> [] \<and> distinct ms"
  by (auto simp: get_route_modes_def push_mode_def dest!: push_modes_distinct split: option.splits if_splits)

lemma merge_modes:
  "distinct (merged @ modes) \<Longrightarrow>
     fold (\<lambda>mode merged. if mode \<in> set merged then merged else merged @ [mode]) modes merged = merged @ modes"
proof (induction modes arbitrary: merged)
  case (Cons m ms)
  then show ?case
    using Cons.IH [of "merged @ [m]"] by auto
qed simp

lemma with_modes_distinct: "ms \<noteq> [] \<Longrightarrow> distinct ms \<Longrightarrow> with_modes ms r = r\<lparr>rt_modes := ms\<rparr>"
  using merge_modes [of "[]" ms] by (simp add: with_modes_def)

text \<open>A bound a route may carry, and a pool that no traffic has touched.\<close>

definition bound_ok :: "nat option \<Rightarrow> bool" where
  "bound_ok t = (case t of None \<Rightarrow> True | Some d \<Rightarrow> 0 < d \<and> d \<le> from_secs MAX_SECS)"

definition fresh_pool :: "circuit_breaker option \<Rightarrow> string list \<Rightarrow> strategy \<Rightarrow> backend_pool \<Rightarrow> bool" where
  "fresh_pool breaker urls strat p \<longleftrightarrow>
     pool_urls p = urls \<and> bp_strategy p = strat \<and>
     (\<forall>b \<in> set (bp_backends p). be_healthy b \<and> be_in_flight b = 0 \<and> be_breaker b = breaker \<and>
        be_circuit b = circuit_new)"

definition route_sound :: "(string \<Rightarrow> string + parsed_url) \<Rightarrow> route_spec \<Rightarrow> route \<Rightarrow> bool" where
  "route_sound url_parse spec r \<longleftrightarrow>
     rt_host_pattern r = normalize_pattern (rs_host_pattern spec) \<and> pattern_error (rs_host_pattern spec) = None \<and>
     rt_path_pattern r = rs_path_pattern spec \<and> rt_path_is_prefix r = unwrap_or (rs_path_is_prefix spec) True \<and>
     rt_path_rewrite r = rs_path_rewrite spec \<and>
     get_route_modes (rs_mode spec) (rs_modes spec) = Inr (rt_modes r) \<and> rt_modes r \<noteq> [] \<and> distinct (rt_modes r) \<and>
     rs_backends spec \<noteq> [] \<and>
     (\<forall>b \<in> set (rs_backends spec). \<forall>mode \<in> set (rt_modes r). validate_backend url_parse mode b = Inr ()) \<and>
     l4_client_ports (rt_l4 r) = rs_client_ports spec \<and> rs_client_ports spec \<noteq> Some [] \<and>
     bound_ok (l4_idle_timeout (rt_l4 r)) \<and> bound_ok (l4_flow_timeout (rt_l4 r))"

lemma pool_new_fresh: "fresh_pool None urls strat (pool_new url_parse urls strat)"
  by (auto simp: fresh_pool_def pool_new_def pool_urls_def backend_entry_new_def o_def)

lemma set_breaker_fresh:
  "fresh_pool None urls strat p \<Longrightarrow> fresh_pool (Some br) urls strat (set_circuit_breaker br p)"
  by (auto simp: fresh_pool_def set_circuit_breaker_def pool_urls_def intro!: nth_equalityI)

lemma route_bound_ok:
  "check_route_bound (key, secs) = Inr () \<Longrightarrow> secs \<noteq> Some 0 \<Longrightarrow> bound_ok (map_option from_secs secs)"
  by (auto simp: check_route_bound_def bound_ok_def split: option.splits)

lemma route_try_from_ok:
  assumes "route_try_from url_parse spec pools = Inr (r, pools')"
  shows "rt_pool r = length pools \<and> route_sound url_parse spec r \<and>
    (\<exists>strat p. get_strategy (rs_strategy spec) = Inr strat \<and> pools' = pools @ [p] \<and> fresh_pool None (rs_backends spec) strat p)"
proof -
  from assms obtain strat modes protocol where
    strat: "get_strategy (rs_strategy spec) = Inr strat"
    and modes: "get_route_modes (rs_mode spec) (rs_modes spec) = Inr modes"
    and pat: "pattern_error (rs_host_pattern spec) = None"
    and backs: "rs_backends spec \<noteq> []"
    and ports: "check_client_ports (rs_client_ports spec) = Inr ()"
    and zero: "rs_idle_timeout_secs spec \<noteq> Some 0" "rs_flow_timeout_secs spec \<noteq> Some 0"
    and bounds: "check_route_bound (''idle_timeout_secs'', rs_idle_timeout_secs spec) = Inr ()"
      "check_route_bound (''flow_timeout_secs'', rs_flow_timeout_secs spec) = Inr ()"
    and valid: "\<forall>b \<in> set (rs_backends spec). \<forall>mode \<in> set modes. validate_backend url_parse mode b = Inr ()"
    and r: "r = with_backend_protocol protocol (with_modes modes (with_l4_options
        \<lparr>l4_client_ports = rs_client_ports spec, l4_idle_timeout = map_option from_secs (rs_idle_timeout_secs spec),
         l4_flow_timeout = map_option from_secs (rs_flow_timeout_secs spec)\<rparr>
        (fst (route_new url_parse (rs_host_pattern spec) (rs_path_pattern spec)
          (unwrap_or (rs_path_is_prefix spec) True) (rs_backends spec) strat (modes ! 0) (rs_path_rewrite spec) pools))))"
    and pools': "pools' = pools @ [pool_new url_parse (rs_backends spec) strat]"
    unfolding route_try_from_def
    by (auto simp: Let_def route_new_def split: option.splits)
  from get_route_modes_ok [OF modes] have ms: "modes \<noteq> []" "distinct modes" by auto
  have "rs_client_ports spec \<noteq> Some []"
    using ports by (auto simp: check_client_ports_def)
  with ms modes pat backs valid route_bound_ok [OF bounds(1) zero(1)] route_bound_ok [OF bounds(2) zero(2)]
  have "route_sound url_parse spec r"
    by (simp add: route_sound_def r with_backend_protocol_def with_modes_distinct with_l4_options_def route_new_def)
  moreover have "rt_pool r = length pools"
    using ms by (simp add: r with_backend_protocol_def with_modes_distinct with_l4_options_def route_new_def)
  ultimately show ?thesis
    using strat pools' pool_new_fresh by blast
qed

lemma build_specs_ok:
  assumes "build_specs url_parse br specs pools = Inr (rs, pools')"
  shows "\<exists>ps. pools' = pools @ ps \<and> length rs = length specs \<and> length ps = length specs \<and>
    (\<forall>i < length specs. rt_pool (rs ! i) = length pools + i \<and> route_sound url_parse (specs ! i) (rs ! i) \<and>
       (\<exists>strat. get_strategy (rs_strategy (specs ! i)) = Inr strat \<and>
          fresh_pool (Some br) (rs_backends (specs ! i)) strat (ps ! i)))"
  using assms
proof (induction specs arbitrary: pools rs)
  case (Cons spec specs)
  then obtain r pools1 rs1 where r: "route_try_from url_parse spec pools = Inr (r, pools1)"
    and rest: "build_specs url_parse br specs (with_circuit_breaker br r pools1) = Inr (rs1, pools')"
    and rs: "rs = r # rs1"
    by auto
  from route_try_from_ok [OF r] obtain strat p where p: "rt_pool r = length pools" "route_sound url_parse spec r"
    "get_strategy (rs_strategy spec) = Inr strat" "pools1 = pools @ [p]" "fresh_pool None (rs_backends spec) strat p"
    by auto
  have cb: "with_circuit_breaker br r pools1 = pools @ [set_circuit_breaker br p]"
    by (simp add: with_circuit_breaker_def p)
  from Cons.IH [OF rest] obtain ps where ps: "pools' = pools @ set_circuit_breaker br p # ps"
    "length rs1 = length specs" "length ps = length specs"
    "\<forall>i < length specs. rt_pool (rs1 ! i) = length pools + Suc i \<and> route_sound url_parse (specs ! i) (rs1 ! i) \<and>
       (\<exists>strat. get_strategy (rs_strategy (specs ! i)) = Inr strat \<and>
          fresh_pool (Some br) (rs_backends (specs ! i)) strat (ps ! i))"
    by (auto simp: cb)
  show ?case
    using p ps set_breaker_fresh [OF p(5), of br]
    by (intro exI [of _ "set_circuit_breaker br p # ps"]) (auto simp: rs nth_Cons' less_Suc_eq_0_disj)
qed simp

text \<open>
  C18: a configuration that is accepted gives one route per entry, in order, and each route is what the entry
  says: a pattern the host check accepts, at least one mode and none twice, at least one backend, every backend
  checked for every mode, and time bounds, when there are any, that are positive and at most a day. Every
  route has a pool of its own, new at the end of the store, with the backends of the entry, all of them
  healthy, idle and under the configured circuit, whose threshold is positive.
\<close>

theorem accepted_config_gives_sound_routes:
  assumes "build_routes url_parse config pools = Inr (rs, pools')"
  shows "let specs = (case pc_routes config of Some specs \<Rightarrow> specs | None \<Rightarrow> []);
             br = circuit_breaker_resolve (pc_circuit_breaker config) in
    0 < cb_failure_threshold br \<and>
    (\<exists>ps. pools' = pools @ ps \<and> length rs = length specs \<and> length ps = length specs \<and>
      (\<forall>i < length specs. rt_pool (rs ! i) = length pools + i \<and> route_sound url_parse (specs ! i) (rs ! i) \<and>
         (\<exists>strat. get_strategy (rs_strategy (specs ! i)) = Inr strat \<and>
            fresh_pool (Some br) (rs_backends (specs ! i)) strat (ps ! i))))"
proof -
  from assms have "build_specs url_parse (circuit_breaker_resolve (pc_circuit_breaker config))
      (case pc_routes config of Some specs \<Rightarrow> specs | None \<Rightarrow> []) pools = Inr (rs, pools')"
    by (auto simp: build_routes_def)
  from build_specs_ok [OF this] breaker_threshold_bounds show ?thesis
    unfolding Let_def by blast
qed

definition sample_spec :: route_spec where
  "sample_spec = \<lparr>rs_host_pattern = ''*.B'', rs_path_pattern = ''/'', rs_path_is_prefix = None, rs_strategy = None,
     rs_backends = [''10.0.0.5:22''], rs_backend_protocol = None, rs_mode = Some ''tcp'', rs_modes = Some [''passthrough'', ''tcp''],
     rs_path_rewrite = None, rs_client_ports = Some [22], rs_idle_timeout_secs = Some 5, rs_flow_timeout_secs = None\<rparr>"

definition sample_config :: proxy_config where
  "sample_config = \<lparr>pc_default_backend = None, pc_routes = Some [sample_spec], pc_health_check = health_check_default,
     pc_timeouts = \<lparr>tc_connect_secs = Some 3, tc_response_secs = None, tc_header_secs = None,
        tc_body_secs = None, tc_response_idle_secs = None, tc_l4_flow_secs = Some 7200, tc_l4_idle_secs = None,
        tc_tls_hello_secs = None\<rparr>,
     pc_retry = \<lparr>rc_attempts = None, rc_backoff_ms = None\<rparr>,
     pc_circuit_breaker = \<lparr>cc_enabled = None, cc_failure_threshold = Some 0, cc_reset_secs = None\<rparr>\<rparr>"

lemma sample_backend_valid:
  "mode \<in> {MTcp, MPassthrough} \<Longrightarrow> validate_backend (\<lambda>_. Inl ''no'') mode ''10.0.0.5:22'' = Inr ()"
proof -
  have "str_trim ''10.0.0.5:22'' = ''10.0.0.5:22''" "\<not> contains_str ''://'' ''10.0.0.5:22''"
    "rsplit_once CHR '':'' ''10.0.0.5:22'' = Some (''10.0.0.5'', ''22'')"
    by code_simp+
  moreover have "parse_u16 ''22'' = Some 22"
    by (simp add: parse_u16_def parse_nat_def digit_value_def)
  ultimately show "mode \<in> {MTcp, MPassthrough} \<Longrightarrow> validate_backend (\<lambda>_. Inl ''no'') mode ''10.0.0.5:22'' = Inr ()"
    by (auto simp: validate_backend_def validate_l4_backend_def is_l4_mode_def passthrough_backend_addr_def
        parse_backend_addr_def ensure_def)
qed

lemma sample_config_builds:
  "\<exists>r p. build_routes (\<lambda>_. Inl ''no'') sample_config pools = Inr ([r], pools @ [p])"
proof -
  have "pattern_error ''*.B'' = None" "get_route_modes (Some ''tcp'') (Some [''passthrough'', ''tcp'']) = Inr [MTcp, MPassthrough]"
    by code_simp+
  moreover have "validate_health_check sample_config = Inr ()"
    by (simp add: validate_health_check_def sample_config_def health_check_default_def)
  moreover have "validate_timeouts sample_config = Inr ()"
    by (simp add: validate_timeouts_def sample_config_def check_secs_def TIMEOUTS_MAX_SECS_def MAX_SECS_def)
  ultimately show ?thesis
    using sample_backend_valid
    by (simp add: build_routes_def sample_config_def sample_spec_def route_try_from_def get_strategy_def
        check_client_ports_def check_route_bound_def check_h2c_def get_backend_protocol_def MAX_SECS_def ensure_def
        Let_def route_new_def with_modes_distinct with_backend_protocol_def with_l4_options_def with_circuit_breaker_def)
qed

lemma sample_config_accepted: "\<exists>r p. build_routes (\<lambda>_. Inl ''no'') sample_config [] = Inr ([r], [p])"
  using sample_config_builds [of "[]"] by simp

theorem accepted_config_gives_sound_routes_witness:
  "\<exists>r p. build_routes (\<lambda>_. Inl ''no'') sample_config [] = Inr ([r], [p]) \<and> rt_pool r = 0 \<and>
     bound_ok (l4_idle_timeout (rt_l4 r)) \<and> pool_urls p = [''10.0.0.5:22'']"
proof -
  obtain r p where b: "build_routes (\<lambda>_. Inl ''no'') sample_config [] = Inr ([r], [p])"
    using sample_config_accepted by blast
  from accepted_config_gives_sound_routes [OF b] b show ?thesis
    by (auto simp: Let_def sample_config_def sample_spec_def route_sound_def fresh_pool_def)
qed

section \<open>Reloads\<close>

text \<open>
  What a table keeps over any number of reloads: every route has a pool of its own in the store, and no pool is
  taken out of the store or replaced by a reload.
\<close>

definition table_sound :: "routing_table \<Rightarrow> bool" where
  "table_sound st \<longleftrightarrow> table_ok st \<and> distinct (map rt_pool (px_routes st))"

lemma build_routes_pools:
  assumes "build_routes url_parse config pools = Inr (rs, pools')"
  shows "\<exists>ps. pools' = pools @ ps \<and> map rt_pool rs = [length pools ..< length pools']"
proof -
  from assms have "build_specs url_parse (circuit_breaker_resolve (pc_circuit_breaker config))
      (case pc_routes config of Some specs \<Rightarrow> specs | None \<Rightarrow> []) pools = Inr (rs, pools')"
    by (auto simp: build_routes_def)
  from build_specs_ok [OF this] obtain ps where "pools' = pools @ ps" "length ps = length rs"
    "\<forall>i < length rs. rt_pool (rs ! i) = length pools + i"
    by auto
  then show ?thesis
    by (intro exI [of _ ps]) (auto intro!: nth_equalityI)
qed

lemma update_routes_sound:
  assumes "table_sound st" and "map rt_pool new = [n ..< length (px_pools st)]"
    and "\<forall>r \<in> set (px_routes st). rt_pool r < n"
  shows "table_sound (update_routes esc new st)"
proof -
  have new: "rt_pool ` set new = {n ..< length (px_pools st)}"
    using assms(2) by (metis atLeastLessThan_upt set_map)
  have dist: "distinct (map rt_pool (px_routes (update_routes esc new st)))"
  proof (rule update_routes_distinct)
    show "distinct (map rt_pool new)" using assms(2) by simp
    show "distinct (map rt_pool (px_routes st))" using assms(1) by (simp add: table_sound_def)
    show "rt_pool ` set new \<inter> rt_pool ` set (px_routes st) = {}" unfolding new using assms(3) by auto
  qed
  have "rt_pool (px_routes (update_routes esc new st) ! i) < length (px_pools st)" if "i < length new" for i
    using update_routes_pool_cases [OF that, of esc st]
  proof (elim disjE conjE)
    assume eq: "rt_pool (px_routes (update_routes esc new st) ! i) = rt_pool (new ! i)"
    have "rt_pool (new ! i) \<in> {n ..< length (px_pools st)}"
      unfolding new [symmetric] using that by simp
    with eq show ?thesis by simp
  next
    assume "pool_named (pool_key esc (px_pools st)) (px_routes st) (pool_key esc (px_pools st) (new ! i)) =
        Some (rt_pool (px_routes (update_routes esc new st) ! i))"
    then show ?thesis
      using assms(1) by (auto simp: table_sound_def table_ok_def dest!: pool_named_Some_in)
  qed
  then have "table_ok (update_routes esc new st)"
    by (auto simp: table_ok_def in_set_conv_nth)
  with dist show ?thesis by (simp add: table_sound_def)
qed

lemma reload_routes_sound:
  assumes "table_sound st"
  shows "table_sound (snd (reload_routes url_parse esc config st)) \<and>
    prefix (px_pools st) (px_pools (snd (reload_routes url_parse esc config st)))"
proof (cases "build_routes url_parse config (px_pools st)")
  case (Inl e)
  then show ?thesis using assms by (simp add: reload_routes_def)
next
  case (Inr b)
  obtain rs pools' where b: "b = (rs, pools')" by (cases b)
  from build_routes_pools [of url_parse config "px_pools st" rs pools'] Inr b obtain ps
    where pools': "pools' = px_pools st @ ps" and rs: "map rt_pool rs = [length (px_pools st) ..< length pools']"
    by auto
  have "table_sound (update_routes esc rs (st\<lparr>px_pools := pools'\<rparr>))"
  proof (rule update_routes_sound [where n = "length (px_pools st)"])
    show "table_sound (st\<lparr>px_pools := pools'\<rparr>)"
      using assms by (auto simp: table_sound_def table_ok_def pools')
    show "map rt_pool rs = [length (px_pools st) ..< length (px_pools (st\<lparr>px_pools := pools'\<rparr>))]"
      using rs by simp
    show "\<forall>r \<in> set (px_routes (st\<lparr>px_pools := pools'\<rparr>)). rt_pool r < length (px_pools st)"
      using assms by (simp add: table_sound_def table_ok_def)
  qed
  then show ?thesis
    using Inr b pools' by (simp add: reload_routes_def)
qed

section \<open>A backend that is accepted can be dialled\<close>

lemma validate_l4_url:
  assumes "validate_l4_backend url_parse backend = Inr ()" and "contains_str ''://'' (str_trim backend)"
  shows "l4_backend_addr url_parse backend \<noteq> None"
  using assms
  by (auto simp: validate_l4_backend_def l4_backend_addr_def parse_backend_addr_def Let_def unwrap_or_def
           split: sum.splits option.splits)

lemma validate_l4_bare:
  assumes "validate_l4_backend url_parse backend = Inr ()" and "\<not> contains_str ''://'' (str_trim backend)"
    and "\<not> starts_with ''['' (str_trim backend)"
  obtains host p where "l4_backend_addr url_parse backend = Some (host, p)" and "host \<noteq> []" and "p \<noteq> 0"
proof -
  from assms(1, 2) obtain host port p where hp: "rsplit_once CHR '':'' (str_trim backend) = Some (host, port)"
    "host \<noteq> []" "parse_u16 port = Some p" "p \<noteq> 0" "str_trim backend \<noteq> []"
    by (auto simp: validate_l4_backend_def Let_def split: option.splits if_splits)
  moreover have "strip_prefix ''['' (str_trim backend) = None"
    using assms(3) by (simp add: starts_with_def)
  ultimately have "l4_backend_addr url_parse backend = Some (host, p)"
    using assms(2) by (simp add: l4_backend_addr_def parse_backend_addr_def)
  with hp that show ?thesis by blast
qed



text \<open>
  A bracket that is not closed is accepted at startup by the check of the L4 modes and refused by the reading
  that dials it; so is a bracketed address with anything between the bracket and the port.
\<close>

lemma unclosed_bracket_accepted:
  "validate_l4_backend url_parse ''[::1:22'' = Inr () \<and> l4_backend_addr url_parse ''[::1:22'' = None"
proof -
  have "str_trim ''[::1:22'' = ''[::1:22''" "\<not> contains_str ''://'' ''[::1:22''"
    "rsplit_once CHR '':'' ''[::1:22'' = Some (''[::1'', ''22'')"
    "split_once CHR '']'' ''::1:22'' = None"
    by code_simp+
  moreover have "parse_u16 ''22'' = Some 22"
    by (simp add: parse_u16_def parse_nat_def digit_value_def)
  ultimately show ?thesis
    by (simp add: validate_l4_backend_def l4_backend_addr_def parse_backend_addr_def)
qed

section \<open>Deadlines\<close>

lemma check_secs_ok:
  "check_secs zero long ceiling (key, secs) = Inr () \<longleftrightarrow> (\<forall>s. secs = Some s \<longrightarrow> s \<noteq> 0 \<and> s \<le> ceiling)"
  by (auto simp: check_secs_def split: option.split)

lemma or_default_accepted:
  assumes "check_secs zero long MAX_SECS (key, secs) = Inr ()" and "def \<noteq> 0" and "def \<le> MAX_SECS"
  shows "or_default secs def = from_secs (unwrap_or secs def)" "unwrap_or secs def \<noteq> 0"
    "unwrap_or secs def \<le> MAX_SECS"
  using assms by (simp_all add: or_default_def unwrap_or_def check_secs_ok split: option.split)

text \<open>
  With a configuration that is accepted, every wait is what the file says, or the default where it says
  nothing; none is zero, a dial and the wait for a response take at most an hour and no phase more than
  a day. So the cap that is applied when the section is resolved never shortens a wait that was accepted.
\<close>

theorem accepted_timeouts_kept:
  assumes "validate_timeouts config = Inr ()"
  shows "let c = pc_timeouts config; t = timeouts_resolve c; d = to_deadlines t in
    to_connect t = from_secs (unwrap_or (tc_connect_secs c) 10) \<and>
    to_response t = from_secs (unwrap_or (tc_response_secs c) 30) \<and>
    dl_header d = from_secs (unwrap_or (tc_header_secs c) DEFAULT_HEADER_SECS) \<and>
    dl_body d = from_secs (unwrap_or (tc_body_secs c) DEFAULT_BODY_SECS) \<and>
    dl_response_idle d = from_secs (unwrap_or (tc_response_idle_secs c) DEFAULT_RESPONSE_IDLE_SECS) \<and>
    dl_l4_flow d = from_secs (unwrap_or (tc_l4_flow_secs c) DEFAULT_L4_FLOW_SECS) \<and>
    dl_l4_idle d = from_secs (unwrap_or (tc_l4_idle_secs c) DEFAULT_L4_IDLE_SECS) \<and>
    dl_tls_hello d = from_secs (unwrap_or (tc_tls_hello_secs c) DEFAULT_TLS_HELLO_SECS) \<and>
    (\<forall>x \<in> {to_connect t, to_response t}. 0 < x \<and> x \<le> from_secs TIMEOUTS_MAX_SECS) \<and>
    (\<forall>x \<in> {dl_header d, dl_body d, dl_response_idle d, dl_l4_flow d, dl_l4_idle d, dl_tls_hello d}.
       0 < x \<and> x \<le> from_secs MAX_SECS)"
proof -
  let ?c = "pc_timeouts config"
  let ?phase = "\<lambda>key secs. check_secs PhaseZero PhaseTooLong MAX_SECS (key, secs) = Inr ()"
  have phases: "?phase ''header_secs'' (tc_header_secs ?c)" "?phase ''body_secs'' (tc_body_secs ?c)"
    "?phase ''response_idle_secs'' (tc_response_idle_secs ?c)" "?phase ''l4_flow_secs'' (tc_l4_flow_secs ?c)"
    "?phase ''l4_idle_secs'' (tc_l4_idle_secs ?c)" "?phase ''tls_hello_secs'' (tc_tls_hello_secs ?c)"
    and dials: "\<forall>s. tc_connect_secs ?c = Some s \<longrightarrow> s \<noteq> 0 \<and> s \<le> TIMEOUTS_MAX_SECS"
      "\<forall>s. tc_response_secs ?c = Some s \<longrightarrow> s \<noteq> 0 \<and> s \<le> TIMEOUTS_MAX_SECS"
    using assms by (simp_all add: validate_timeouts_def Let_def check_secs_ok)
  have defaults: "DEFAULT_HEADER_SECS \<noteq> 0" "DEFAULT_HEADER_SECS \<le> MAX_SECS" "DEFAULT_BODY_SECS \<noteq> 0" "DEFAULT_BODY_SECS \<le> MAX_SECS"
    "DEFAULT_RESPONSE_IDLE_SECS \<noteq> 0" "DEFAULT_RESPONSE_IDLE_SECS \<le> MAX_SECS" "DEFAULT_L4_FLOW_SECS \<noteq> 0"
    "DEFAULT_L4_FLOW_SECS \<le> MAX_SECS" "DEFAULT_L4_IDLE_SECS \<noteq> 0" "DEFAULT_L4_IDLE_SECS \<le> MAX_SECS"
    "DEFAULT_TLS_HELLO_SECS \<noteq> 0" "DEFAULT_TLS_HELLO_SECS \<le> MAX_SECS"
    by (simp_all add: DEFAULT_HEADER_SECS_def DEFAULT_BODY_SECS_def DEFAULT_RESPONSE_IDLE_SECS_def
        DEFAULT_L4_FLOW_SECS_def DEFAULT_L4_IDLE_SECS_def DEFAULT_TLS_HELLO_SECS_def HEADER_SECS_def
        STREAM_SECS_def TLS_HELLO_SECS_def MAX_SECS_def)
  note ok = or_default_accepted [OF phases(1) defaults(1, 2)] or_default_accepted [OF phases(2) defaults(3, 4)]
    or_default_accepted [OF phases(3) defaults(5, 6)] or_default_accepted [OF phases(4) defaults(7, 8)]
    or_default_accepted [OF phases(5) defaults(9, 10)] or_default_accepted [OF phases(6) defaults(11, 12)]
  have connect: "(case tc_connect_secs ?c of None \<Rightarrow> DEFAULT_CONNECT | Some s \<Rightarrow> from_secs s) =
      from_secs (unwrap_or (tc_connect_secs ?c) 10) \<and> unwrap_or (tc_connect_secs ?c) 10 \<noteq> 0 \<and>
      unwrap_or (tc_connect_secs ?c) 10 \<le> TIMEOUTS_MAX_SECS"
    using dials(1) by (cases "tc_connect_secs ?c") (simp_all add: unwrap_or_def DEFAULT_CONNECT_def TIMEOUTS_MAX_SECS_def)
  have response: "(case tc_response_secs ?c of None \<Rightarrow> DEFAULT_RESPONSE | Some s \<Rightarrow> from_secs s) =
      from_secs (unwrap_or (tc_response_secs ?c) 30) \<and> unwrap_or (tc_response_secs ?c) 30 \<noteq> 0 \<and>
      unwrap_or (tc_response_secs ?c) 30 \<le> TIMEOUTS_MAX_SECS"
    using dials(2) by (cases "tc_response_secs ?c") (simp_all add: unwrap_or_def DEFAULT_RESPONSE_def TIMEOUTS_MAX_SECS_def)
  show ?thesis
    by (simp add: Let_def timeouts_resolve_def deadlines_resolve_def ok connect response)
qed

theorem accepted_timeouts_kept_witness:
  "dl_l4_flow (to_deadlines (timeouts_resolve (pc_timeouts sample_config))) = from_secs 7200"
proof -
  have "validate_timeouts sample_config = Inr ()"
    by (simp add: validate_timeouts_def sample_config_def check_secs_def TIMEOUTS_MAX_SECS_def MAX_SECS_def)
  from accepted_timeouts_kept [OF this] show ?thesis
    by (simp add: Let_def sample_config_def unwrap_or_def)
qed

end
