(* ===== verification/Nexa_Router.thy ===== *)
theory Nexa_Router
  imports Nexa_Config
begin

text \<open>
  The routing table as it lives: requests look backends up and give them back, report how they went, the health
  probe marks backends up and down, and the configuration is reloaded, in any order. A state is the table
  with the leases that are out.
\<close>

section \<open>Steps\<close>

definition valid_ref :: "routing_table \<Rightarrow> lease_ref \<Rightarrow> bool" where
  "valid_ref st l \<longleftrightarrow> fst l < length (px_pools st) \<and> snd l < length (bp_backends (px_pools st ! fst l))"

definition update_pool :: "nat \<Rightarrow> (backend_pool \<Rightarrow> backend_pool) \<Rightarrow> routing_table \<Rightarrow> routing_table" where
  "update_pool a f st = st\<lparr>px_pools := (px_pools st)[a := f (px_pools st ! a)]\<rparr>"

text \<open>How a request went, told to the lease it holds.\<close>

definition report_success :: "lease_ref option \<Rightarrow> routing_table \<Rightarrow> routing_table" where
  "report_success l st = (case l of Some (a, i) \<Rightarrow> update_pool a (record_success i) st | None \<Rightarrow> st)"

definition report_failure :: "nat \<Rightarrow> lease_ref option \<Rightarrow> routing_table \<Rightarrow> routing_table" where
  "report_failure now l st = (case l of Some (a, i) \<Rightarrow> update_pool a (record_failure now i) st | None \<Rightarrow> st)"

type_synonym router = "routing_table \<times> lease_ref list"

inductive router_step :: "router \<Rightarrow> router \<Rightarrow> bool" where
  step_http: "get_backend_with_acl_excluding url_parse now rand host path port acl exclude st = (Found bi, st') \<Longrightarrow>
    bi_lease bi = Some l \<Longrightarrow> router_step (st, ls) (st', l # ls)"
| step_http_refused: "get_backend_with_acl_excluding url_parse now rand host path port acl exclude st = (res, st') \<Longrightarrow>
    lookup_backend res = None \<Longrightarrow> router_step (st, ls) (st', ls)"
| step_passthrough: "get_passthrough_backend now rand sni st = (Found l, st') \<Longrightarrow> router_step (st, ls) (st', l # ls)"
| step_passthrough_refused: "get_passthrough_backend now rand sni st = (res, st') \<Longrightarrow> lookup_backend res = None \<Longrightarrow>
    router_step (st, ls) (st', ls)"
| step_l4: "get_l4_backend now rand host port4 mode st = (Found li, st') \<Longrightarrow> router_step (st, ls) (st', li_lease li # ls)"
| step_l4_refused: "get_l4_backend now rand host port4 mode st = (res4, st') \<Longrightarrow> lookup_backend res4 = None \<Longrightarrow>
    router_step (st, ls) (st', ls)"
| step_release: "l \<in> set ls \<Longrightarrow> router_step (st, ls) (release l st, remove1 l ls)"
| step_success: "l \<in> set ls \<Longrightarrow> router_step (st, ls) (report_success (Some l) st, ls)"
| step_failure: "l \<in> set ls \<Longrightarrow> router_step (st, ls) (report_failure now (Some l) st, ls)"
| step_health: "router_step (st, ls) (update_pool a (set_backend_health now url up) st, ls)"
| step_reload: "router_step (st, ls) (snd (reload_routes url_parse esc config st), ls)"

inductive_cases router_stepE: "router_step (st, ls) s'"

section \<open>Invariant\<close>

definition router_ok :: "router \<Rightarrow> bool" where
  "router_ok s \<longleftrightarrow> table_sound (fst s) \<and> (\<forall>l \<in> set (snd s). valid_ref (fst s) l) \<and>
     (\<forall>l. valid_ref (fst s) l \<longrightarrow> in_flight_at (fst s) l = of_nat (count_list (snd s) l))"

lemma router_ok_count:
  "router_ok (st, ls) \<Longrightarrow> valid_ref st l \<Longrightarrow> in_flight_at st l = of_nat (count_list ls l)"
  by (simp add: router_ok_def del: split_paired_All)

text \<open>A step that neither adds nor removes a route, a pool or a backend.\<close>

definition same_shape :: "routing_table \<Rightarrow> routing_table \<Rightarrow> bool" where
  "same_shape st st' \<longleftrightarrow> px_routes st' = px_routes st \<and> length (px_pools st') = length (px_pools st) \<and>
     (\<forall>a < length (px_pools st). length (bp_backends (px_pools st' ! a)) = length (bp_backends (px_pools st ! a)))"

lemma same_shape_refl [simp]: "same_shape st st"
  by (simp add: same_shape_def)

lemma same_shape_trans: "same_shape st st1 \<Longrightarrow> same_shape st1 st2 \<Longrightarrow> same_shape st st2"
  by (simp add: same_shape_def)

lemma same_shape_valid: "same_shape st st' \<Longrightarrow> valid_ref st' l \<longleftrightarrow> valid_ref st l"
  by (auto simp: same_shape_def valid_ref_def)

lemma same_shape_sound: "same_shape st st' \<Longrightarrow> table_sound st' \<longleftrightarrow> table_sound st"
  by (simp add: same_shape_def table_sound_def table_ok_def)

lemma nth_update_any: "j < length xs \<Longrightarrow> xs[i := x] ! j = (if i = j then x else xs ! j)"
  by (cases "i = j") auto

lemma same_shape_update_pool:
  "(\<And>p. length (bp_backends (f p)) = length (bp_backends p)) \<Longrightarrow> same_shape st (update_pool a f st)"
  by (auto simp: same_shape_def update_pool_def nth_update_any)

lemma select_keeps_length:
  "select_backend_excluding now rand exclude p = (res, p') \<Longrightarrow> length (bp_backends p') = length (bp_backends p)"
  by (erule select_backend_cases) simp_all

lemma same_shape_select: "select_from now rand exclude a st = (res, st') \<Longrightarrow> same_shape st st'"
  by (auto simp: select_from_def Let_def same_shape_def nth_update_any dest: select_keeps_length split: prod.splits)

lemma same_shape_release: "same_shape st (release l st)"
  by (auto simp: same_shape_def release_def drop_lease_def nth_update_any)

lemma same_shape_http:
  assumes "get_backend_with_acl_excluding url_parse now rand host path port acl exclude st = (res, st')"
  shows "same_shape st st'"
proof (cases "acl_admits acl host port \<and> http_route host path st \<noteq> None")
  case False
  then show ?thesis
    using assms unfolding get_backend_eq by (auto split: if_splits)
next
  case True
  then obtain r where r: "http_route host path st = Some r" by auto
  obtain o1 st1 where sel: "select_from now rand exclude (rt_pool r) st = (o1, st1)"
    by (cases "select_from now rand exclude (rt_pool r) st")
  have "st' = st1 \<or> (\<exists>l. st' = release l st1)"
    using assms True r sel by (cases o1) (auto simp: get_backend_eq Let_def split: if_splits)
  then show ?thesis
    using same_shape_select [OF sel] same_shape_release same_shape_trans by blast
qed

lemma same_shape_passthrough: "get_passthrough_backend now rand sni st = (res, st') \<Longrightarrow> same_shape st st'"
  by (auto simp: get_passthrough_backend_def Let_def split: option.splits prod.splits intro: same_shape_select)

lemma same_shape_l4: "get_l4_backend now rand host port mode st = (res, st') \<Longrightarrow> same_shape st st'"
  by (auto simp: get_l4_backend_def Let_def split: option.splits prod.splits intro: same_shape_select)

text \<open>The two ways a step may change the counters.\<close>

lemma router_ok_same:
  assumes "router_ok (st, ls)" and "same_shape st st'" and "\<forall>l. valid_ref st l \<longrightarrow> in_flight_at st' l = in_flight_at st l"
  shows "router_ok (st', ls)"
  using assms by (simp add: router_ok_def same_shape_valid [OF assms(2)] same_shape_sound [OF assms(2)])

lemma router_ok_lease:
  assumes "router_ok (st, ls)" and "same_shape st st'" and "valid_ref st l"
    and "\<forall>l'. in_flight_at st' l' = (if l' = l then in_flight_at st l + 1 else in_flight_at st l')"
  shows "router_ok (st', l # ls)"
proof -
  have "in_flight_at st' l' = of_nat (count_list (l # ls) l')" if "valid_ref st l'" for l'
    using that assms(1, 4) by (cases l') (auto simp: router_ok_def)
  with assms(1, 3) show ?thesis
    by (simp add: router_ok_def same_shape_valid [OF assms(2)] same_shape_sound [OF assms(2)])
qed

lemma router_ok_release:
  assumes "router_ok (st, ls)" and "l \<in> set ls"
  shows "router_ok (release l st, remove1 l ls)"
proof -
  have l: "valid_ref st l" using assms by (simp add: router_ok_def)
  have pos: "0 < count_list ls l"
    using assms(2) count_list_0_iff [of ls l] by (cases "count_list ls l") simp_all
  have "in_flight_at (release l st) l' = of_nat (count_list (remove1 l ls) l')" if "valid_ref st l'" for l'
    using router_ok_count [OF assms(1) that] router_ok_count [OF assms(1) l] pos released [of l st l'] l
    by (auto simp: valid_ref_def count_list_remove1 of_nat_diff Suc_leI assms(2))
  with assms(1) show ?thesis
    by (auto simp: router_ok_def same_shape_valid [OF same_shape_release] same_shape_sound [OF same_shape_release]
             dest: notin_set_remove1 intro: set_remove1_subset [THEN subsetD])
qed

lemma in_flight_update_pool:
  assumes "\<And>p j. j < length (bp_backends p) \<Longrightarrow> be_in_flight (bp_backends (f p) ! j) = be_in_flight (bp_backends p ! j)"
    and "valid_ref st l"
  shows "in_flight_at (update_pool a f st) l = in_flight_at st l"
  using assms by (cases l) (auto simp: in_flight_at_def leased_entry_def update_pool_def valid_ref_def nth_update_any)

lemma in_flight_marks:
  "j < length (bp_backends p) \<Longrightarrow> be_in_flight (bp_backends (record_success i p) ! j) = be_in_flight (bp_backends p ! j)"
  "j < length (bp_backends p) \<Longrightarrow> be_in_flight (bp_backends (record_failure now i p) ! j) = be_in_flight (bp_backends p ! j)"
  "j < length (bp_backends p) \<Longrightarrow> be_in_flight (bp_backends (set_backend_health now url up p) ! j) = be_in_flight (bp_backends p ! j)"
  by (simp_all add: record_success_def record_failure_def update_backend_nth set_backend_health_def)

lemma length_marks [simp]:
  "length (bp_backends (record_success i p)) = length (bp_backends p)"
  "length (bp_backends (record_failure now i p)) = length (bp_backends p)"
  "length (bp_backends (set_backend_health now url up p)) = length (bp_backends p)"
  by (simp_all add: record_success_def record_failure_def set_backend_health_def)

lemma router_ok_mark:
  assumes "router_ok (st, ls)"
    and "\<And>p. length (bp_backends (f p)) = length (bp_backends p)"
    and "\<And>p j. j < length (bp_backends p) \<Longrightarrow> be_in_flight (bp_backends (f p) ! j) = be_in_flight (bp_backends p ! j)"
  shows "router_ok (update_pool a f st, ls)"
  using assms(1) same_shape_update_pool [OF assms(2)]
  by (rule router_ok_same) (simp add: in_flight_update_pool [OF assms(3)])

lemma reload_in_flight:
  assumes "build_routes url_parse config (px_pools st) = Inr (rs, pools')" and "valid_ref (st\<lparr>px_pools := pools'\<rparr>) l"
  shows "in_flight_at (st\<lparr>px_pools := pools'\<rparr>) l = (if valid_ref st l then in_flight_at st l else 0)"
proof -
  from assms(1) have "build_specs url_parse (circuit_breaker_resolve (pc_circuit_breaker config))
      (case pc_routes config of Some specs \<Rightarrow> specs | None \<Rightarrow> []) (px_pools st) = Inr (rs, pools')"
    by (auto simp: build_routes_def)
  from build_specs_ok [OF this] obtain ps where ps: "pools' = px_pools st @ ps"
    "\<forall>i < length ps. \<forall>b \<in> set (bp_backends (ps ! i)). be_in_flight b = 0"
    unfolding fresh_pool_def by metis
  show ?thesis
  proof (cases "fst l < length (px_pools st)")
    case True
    then show ?thesis
      using assms(2) by (simp add: ps valid_ref_def in_flight_at_def leased_entry_def nth_append)
  next
    case False
    then have "fst l - length (px_pools st) < length ps"
      "snd l < length (bp_backends (ps ! (fst l - length (px_pools st))))"
      using assms(2) by (auto simp: ps valid_ref_def nth_append)
    then have "be_in_flight (bp_backends (ps ! (fst l - length (px_pools st))) ! snd l) = 0"
      using ps(2) by (meson nth_mem)
    then show ?thesis
      using False by (simp add: ps valid_ref_def in_flight_at_def leased_entry_def nth_append)
  qed
qed

lemma router_ok_reload:
  assumes "router_ok (st, ls)"
  shows "router_ok (snd (reload_routes url_parse esc config st), ls)"
proof (cases "build_routes url_parse config (px_pools st)")
  case (Inl e)
  then show ?thesis using assms by (simp add: reload_routes_def)
next
  case (Inr b)
  obtain rs pools' where b: "b = (rs, pools')" by (cases b)
  let ?st' = "snd (reload_routes url_parse esc config st)"
  have pools: "px_pools ?st' = pools'"
    using Inr b by (simp add: reload_routes_def)
  have sound: "table_sound ?st'" and pre: "prefix (px_pools st) pools'"
    using reload_routes_sound [of st url_parse esc config] assms by (auto simp: router_ok_def pools)
  have valid: "valid_ref ?st' l \<longleftrightarrow> valid_ref (st\<lparr>px_pools := pools'\<rparr>) l"
    and flight: "in_flight_at ?st' l = in_flight_at (st\<lparr>px_pools := pools'\<rparr>) l" for l
    by (simp_all add: valid_ref_def in_flight_at_def leased_entry_def pools)
  have keep: "valid_ref (st\<lparr>px_pools := pools'\<rparr>) l" if "valid_ref st l" for l
    using that pre by (auto simp: valid_ref_def prefix_def nth_append)
  have "in_flight_at ?st' l = of_nat (count_list ls l)" if "valid_ref ?st' l" for l
  proof (cases "valid_ref st l")
    case True
    then show ?thesis
      using router_ok_count [OF assms True] keep [OF True] reload_in_flight [of url_parse config st rs pools' l] Inr b
      by (simp add: flight)
  next
    case False
    then have "count_list ls l = 0"
      using assms by (auto simp: router_ok_def count_list_0_iff)
    then show ?thesis
      using False that reload_in_flight [of url_parse config st rs pools' l] Inr b
      by (simp add: flight valid)
  qed
  then show ?thesis
    using sound assms keep by (simp add: router_ok_def valid)
qed

lemma router_ok_step: "router_step s s' \<Longrightarrow> router_ok s \<Longrightarrow> router_ok s'"
proof (induction rule: router_step.induct)
  case (step_http url_parse now rand host path port acl exclude st bi st' l ls)
  have ok: "table_ok st" using step_http(3) by (simp add: router_ok_def table_sound_def)
  from step_http(3) same_shape_http [OF step_http(1)] show ?case
  proof (rule router_ok_lease)
    show "valid_ref st l" "\<forall>l'. in_flight_at st' l' = (if l' = l then in_flight_at st l + 1 else in_flight_at st l')"
      using http_lookup_spec [OF step_http(1) ok] step_http(2)
      by (auto simp: valid_ref_def may_serve_def simp del: split_paired_All)
  qed
next
  case (step_http_refused url_parse now rand host path port acl exclude st res st' ls)
  have ok: "table_ok st" using step_http_refused(3) by (simp add: router_ok_def table_sound_def)
  from step_http_refused(3) same_shape_http [OF step_http_refused(1)] show ?case
  proof (rule router_ok_same)
    show "\<forall>l. valid_ref st l \<longrightarrow> in_flight_at st' l = in_flight_at st l"
      using http_lookup_spec [OF step_http_refused(1) ok] step_http_refused(2)
      by (cases res) (simp_all add: lookup_backend_def)
  qed
next
  case (step_passthrough now rand sni st l st' ls)
  have ok: "table_ok st" using step_passthrough(2) by (simp add: router_ok_def table_sound_def)
  from step_passthrough(2) same_shape_passthrough [OF step_passthrough(1)] show ?case
  proof (rule router_ok_lease)
    show "valid_ref st l" "\<forall>l'. in_flight_at st' l' = (if l' = l then in_flight_at st l + 1 else in_flight_at st l')"
      using get_passthrough_backend_spec [OF step_passthrough(1) ok]
      by (auto simp: leased_between_def valid_ref_def may_serve_def simp del: split_paired_All)
  qed
next
  case (step_passthrough_refused now rand sni st res st' ls)
  have ok: "table_ok st" using step_passthrough_refused(3) by (simp add: router_ok_def table_sound_def)
  have "st' = st"
    using get_passthrough_backend_spec [OF step_passthrough_refused(1) ok] step_passthrough_refused(2)
    by (cases res) (simp_all add: lookup_backend_def)
  with step_passthrough_refused(3) show ?case by simp
next
  case (step_l4 now rand host port4 mode st li st' ls)
  have ok: "table_ok st" using step_l4(2) by (simp add: router_ok_def table_sound_def)
  from step_l4(2) same_shape_l4 [OF step_l4(1)] show ?case
  proof (rule router_ok_lease)
    show "valid_ref st (li_lease li)"
      "\<forall>l'. in_flight_at st' l' = (if l' = li_lease li then in_flight_at st (li_lease li) + 1 else in_flight_at st l')"
      using get_l4_backend_spec [OF step_l4(1) ok]
      by (auto simp: leased_between_def valid_ref_def may_serve_def simp del: split_paired_All)
  qed
next
  case (step_l4_refused now rand host port4 mode st res4 st' ls)
  have ok: "table_ok st" using step_l4_refused(3) by (simp add: router_ok_def table_sound_def)
  have "st' = st"
    using get_l4_backend_spec [OF step_l4_refused(1) ok] step_l4_refused(2)
    by (cases res4) (simp_all add: lookup_backend_def)
  with step_l4_refused(3) show ?case by simp
next
  case (step_release l ls st)
  then show ?case by (intro router_ok_release)
next
  case (step_success l ls st)
  then show ?case
    by (cases l rule: prod.exhaust) (auto simp: report_success_def intro!: router_ok_mark in_flight_marks)
next
  case (step_failure l ls st now)
  then show ?case
    by (cases l rule: prod.exhaust) (auto simp: report_failure_def intro!: router_ok_mark in_flight_marks)
next
  case (step_health st ls a now url up)
  then show ?case by (intro router_ok_mark) (auto intro: in_flight_marks)
next
  case (step_reload st ls url_parse esc config)
  then show ?case by (rule router_ok_reload)
qed

lemma router_ok_reachable: "router_step\<^sup>*\<^sup>* s s' \<Longrightarrow> router_ok s \<Longrightarrow> router_ok s'"
  by (induction rule: rtranclp_induct) (auto intro: router_ok_step)

lemma router_ok_start:
  assumes "build_routes url_parse config [] = Inr (rs, pools)"
  shows "router_ok (with_settings rs pools t again, [])"
proof -
  let ?empty = "routing_table_new [] []"
  let ?st = "?empty\<lparr>px_pools := pools\<rparr>"
  have none: "px_pools ?empty = []" "px_routes ?empty = []"
    by (simp_all add: routing_table_new_def)
  have b: "build_routes url_parse config (px_pools ?empty) = Inr (rs, pools)"
    using assms by (simp add: none)
  have flight: "in_flight_at ?st l = 0" if "valid_ref ?st l" for l
    using reload_in_flight [OF b that] by (simp add: valid_ref_def none)
  from build_routes_pools [OF assms] have "map rt_pool rs = [0 ..< length pools]"
    by auto
  then have pools: "rt_pool ` set rs = {0 ..< length pools}" and "distinct (map rt_pool rs)"
    by (metis atLeastLessThan_upt list.set_map, metis distinct_upt)
  moreover from pools have "\<forall>r \<in> set rs. rt_pool r < length pools"
    by (metis atLeastLessThan_iff imageI)
  ultimately show ?thesis
    using flight
    by (auto simp: router_ok_def table_sound_def table_ok_def with_settings_def routing_table_new_def valid_ref_def
        in_flight_at_def leased_entry_def)
qed

section \<open>Properties\<close>

text \<open>
  C9: from the moment a configuration is loaded, through every sequence of lookups of the three kinds, leases given
  back, reports, health marks and reloads, the counter of every backend is the number of leases of it that are
  out, in particular over a reload, and every lease that is out is of a backend that is still there; every route
  has a pool, and no two routes share one.
\<close>

theorem router_leases_counted:
  assumes "build_routes url_parse config [] = Inr (rs, pools)"
    and "router_step\<^sup>*\<^sup>* (with_settings rs pools t again, []) (st, ls)"
  shows "(\<forall>l \<in> set ls. valid_ref st l) \<and>
    (\<forall>l. valid_ref st l \<longrightarrow> in_flight_at st l = of_nat (count_list ls l)) \<and>
    (\<forall>r \<in> set (px_routes st). rt_pool r < length (px_pools st)) \<and> distinct (map rt_pool (px_routes st))"
  using router_ok_reachable [OF assms(2) router_ok_start [OF assms(1)]]
  by (simp add: router_ok_def table_sound_def table_ok_def)

lemma sample_reload_length:
  "length (px_pools (snd (reload_routes (\<lambda>_. Inl ''no'') esc sample_config st))) = Suc (length (px_pools st))"
  using sample_config_builds [of "px_pools st"] by (auto simp: reload_routes_def)

theorem router_leases_counted_witness:
  "\<exists>r p st. build_routes (\<lambda>_. Inl ''no'') sample_config [] = Inr ([r], [p]) \<and>
     router_step\<^sup>*\<^sup>* (with_settings [r] [p] (timeouts_resolve (pc_timeouts sample_config)) (retry_resolve (pc_retry sample_config)), []) (st, []) \<and> length (px_pools st) = 2 \<and>
     distinct (map rt_pool (px_routes st))"
proof -
  obtain r p where b: "build_routes (\<lambda>_. Inl ''no'') sample_config [] = Inr ([r], [p])"
    using sample_config_accepted by blast
  let ?start = "with_settings [r] [p] (timeouts_resolve (pc_timeouts sample_config)) (retry_resolve (pc_retry sample_config))"
  let ?st = "snd (reload_routes (\<lambda>_. Inl ''no'') id sample_config ?start)"
  have "router_step (?start, []) (?st, [])"
    by (rule step_reload)
  then have steps: "router_step\<^sup>*\<^sup>* (?start, []) (?st, [])"
    by blast
  have "length (px_pools ?st) = 2"
    using sample_reload_length [of id ?start] by (simp add: with_settings_def routing_table_new_def)
  with b steps router_leases_counted [OF b steps] show ?thesis
    by blast
qed

end
