(* ===== verification/Nexa_Limits.thy ===== *)
theory Nexa_Limits
  imports Nexa_Prelude
begin

text \<open>
  The ceilings the process runs under, \<open>crates/nexapipe/src/conn/limits/\<close>: connections per peer and in
  total (\<open>connections.rs\<close>), streams (\<open>streams.rs\<close>), bytes held (\<open>budget.rs\<close>), and where the
  numbers come from (\<open>config.rs\<close>, \<open>mod.rs\<close>). Every operation holds a lock or is one atomic update, so
  it is one step; a guard that is dropped is the step that gives back what it holds. A \<open>usize\<close> is
  a natural number below \<open>2 ^ 64\<close>; sums saturate where the code's do.
\<close>

section \<open>What a ceiling promises\<close>

text \<open>
  A ceiling hands out and takes back. Every request has a weight; what is out never weighs more than
  the ceiling, and the load is the weight of what is out.
\<close>

locale ceiling =
  fixes ok :: "'s \<Rightarrow> bool"
    and take :: "'s \<Rightarrow> 'r \<Rightarrow> 's option"
    and give :: "'s \<Rightarrow> 'r \<Rightarrow> 's"
    and load :: "'s \<Rightarrow> nat"
    and cap :: "'s \<Rightarrow> nat"
    and weight :: "'r \<Rightarrow> nat"
  assumes take_load: "ok s \<Longrightarrow> take s r = Some s' \<Longrightarrow> ok s' \<and> load s' = load s + weight r \<and> cap s' = cap s"
    and take_fits: "ok s \<Longrightarrow> take s r = Some s' \<Longrightarrow> load s \<le> cap s \<Longrightarrow> load s' \<le> cap s"
    and give_load: "ok s \<Longrightarrow> weight r \<le> load s \<Longrightarrow>
      ok (give s r) \<and> load (give s r) = load s - weight r \<and> cap (give s r) = cap s"
begin

inductive held_step :: "'s \<times> 'r list \<Rightarrow> 's \<times> 'r list \<Rightarrow> bool" where
  taken: "take s r = Some s' \<Longrightarrow> held_step (s, rs) (s', r # rs)"
| refused: "take s r = None \<Longrightarrow> held_step (s, rs) (s, rs)"
| given: "r \<in> set rs \<Longrightarrow> held_step (s, rs) (give s r, remove1 r rs)"

definition held_ok :: "'s \<times> 'r list \<Rightarrow> bool" where
  "held_ok c \<longleftrightarrow> ok (fst c) \<and> load (fst c) = sum_list (map weight (snd c)) \<and> load (fst c) \<le> cap (fst c)"

lemma held_ok_step: "held_step c c' \<Longrightarrow> held_ok c \<Longrightarrow> held_ok c' \<and> cap (fst c') = cap (fst c)"
proof (induction rule: held_step.induct)
  case (taken s r s' rs)
  then have "ok s" by (simp add: held_ok_def)
  then show ?case
    using taken take_load [OF _ taken(1)] take_fits [OF _ taken(1)] by (simp add: held_ok_def)
next
  case (given r rs s)
  have "sum_list (map weight rs) = weight r + sum_list (map weight (remove1 r rs))"
    using given(1) by (rule sum_list_map_remove1)
  then show ?case
    using given give_load [of s r] by (simp add: held_ok_def)
qed simp

lemma held_reachable:
  "held_step\<^sup>*\<^sup>* c c' \<Longrightarrow> held_ok c \<Longrightarrow> held_ok c' \<and> cap (fst c') = cap (fst c)"
  by (induction rule: rtranclp_induct) (auto dest: held_ok_step)

text \<open>Once everything is given back it is as if nothing had been taken.\<close>

lemma nothing_held: "held_step\<^sup>*\<^sup>* c (s, []) \<Longrightarrow> held_ok c \<Longrightarrow> load s = 0"
  using held_reachable [of c "(s, [])"] by (simp add: held_ok_def)

end

text \<open>A ceiling that refuses only what does not fit.\<close>

locale exact_ceiling = ceiling +
  assumes take_refuses: "ok s \<Longrightarrow> take s r = None \<Longrightarrow> cap s < load s + weight r"
begin

lemma taken_iff: "held_ok (s, rs) \<Longrightarrow> take s r \<noteq> None \<longleftrightarrow> sum_list (map weight rs) + weight r \<le> cap s"
proof (cases "take s r")
  case None
  assume "held_ok (s, rs)"
  then show ?thesis using take_refuses [OF _ None] None by (simp add: held_ok_def)
next
  case (Some s')
  assume h: "held_ok (s, rs)"
  then have "ok s" "load s \<le> cap s" by (simp_all add: held_ok_def)
  then show ?thesis using h take_load [OF _ Some] take_fits [OF _ Some] Some by (simp add: held_ok_def)
qed

end

section \<open>Connections\<close>

definition DEFAULT_MAX_CONNECTIONS_PER_PEER :: nat where "DEFAULT_MAX_CONNECTIONS_PER_PEER = 64"
definition DEFAULT_MAX_CONNECTIONS_GLOBAL :: nat where "DEFAULT_MAX_CONNECTIONS_GLOBAL = 64 * 64"
definition DEFAULT_MAX_STREAMS_GLOBAL :: nat where "DEFAULT_MAX_STREAMS_GLOBAL = 64 * 256"
definition DEFAULT_MAX_BODY_BYTES_GLOBAL :: nat where "DEFAULT_MAX_BODY_BYTES_GLOBAL = 1024 * 1024 * 1024"

definition usize_max :: nat where "usize_max = 2 ^ 64 - 1"

record 'id connection_limiter =
  cl_per_peer :: "'id \<rightharpoonup> nat"
  cl_total :: nat
  cl_max_per_peer :: nat
  cl_max_global :: nat

definition limiter_with_caps :: "nat \<Rightarrow> nat \<Rightarrow> 'id connection_limiter" where
  "limiter_with_caps max_per_peer max_global =
     \<lparr>cl_per_peer = Map.empty, cl_total = 0, cl_max_per_peer = max_per_peer, cl_max_global = max_global\<rparr>"

definition limiter_new :: "nat \<Rightarrow> 'id connection_limiter" where
  "limiter_new max_per_peer = limiter_with_caps max_per_peer usize_max"

definition limiter_count :: "'id connection_limiter \<Rightarrow> 'id \<Rightarrow> nat" where
  "limiter_count lim peer = (case cl_per_peer lim peer of Some n \<Rightarrow> n | None \<Rightarrow> 0)"

definition try_acquire :: "'id connection_limiter \<Rightarrow> 'id \<Rightarrow> 'id connection_limiter option" where
  "try_acquire lim peer =
     (let current = limiter_count lim peer in
      if current \<ge> cl_max_per_peer lim \<or> cl_total lim \<ge> cl_max_global lim then None
      else Some (lim\<lparr>cl_per_peer := (cl_per_peer lim)(peer \<mapsto> current + 1), cl_total := cl_total lim + 1\<rparr>))"

definition try_acquire_global :: "'id connection_limiter \<Rightarrow> 'id connection_limiter option" where
  "try_acquire_global lim =
     (if cl_total lim \<ge> cl_max_global lim then None else Some (lim\<lparr>cl_total := cl_total lim + 1\<rparr>))"

definition release_global :: "'id connection_limiter \<Rightarrow> 'id connection_limiter" where
  "release_global lim = lim\<lparr>cl_total := cl_total lim - 1\<rparr>"

definition release_peer :: "'id connection_limiter \<Rightarrow> 'id \<Rightarrow> 'id connection_limiter" where
  "release_peer lim peer =
     (let lim = lim\<lparr>cl_total := cl_total lim - 1\<rparr> in
      case cl_per_peer lim peer of
        Some n \<Rightarrow>
          (if n - 1 = 0 then lim\<lparr>cl_per_peer := (cl_per_peer lim)(peer := None)\<rparr>
           else lim\<lparr>cl_per_peer := (cl_per_peer lim)(peer \<mapsto> n - 1)\<rparr>)
      | None \<Rightarrow> lim)"

text \<open>A guard: of a peer, or of a connection of the plaintext listener, which has none.\<close>

primrec acquire :: "'id connection_limiter \<Rightarrow> 'id option \<Rightarrow> 'id connection_limiter option" where
  "acquire lim None = try_acquire_global lim"
| "acquire lim (Some peer) = try_acquire lim peer"

primrec drop_guard :: "'id connection_limiter \<Rightarrow> 'id option \<Rightarrow> 'id connection_limiter" where
  "drop_guard lim None = release_global lim"
| "drop_guard lim (Some peer) = release_peer lim peer"

section \<open>Streams\<close>

text \<open>A semaphore of tokio: the permits that are left.\<close>

definition MAX_PERMITS :: nat where "MAX_PERMITS = usize_max div 8"

record stream_limiter =
  sl_slots :: nat
  sl_max_global :: nat

definition stream_limiter_new :: "nat \<Rightarrow> stream_limiter" where
  "stream_limiter_new max_global =
     (let max_global = min max_global MAX_PERMITS in \<lparr>sl_slots = max_global, sl_max_global = max_global\<rparr>)"

definition stream_try_acquire :: "stream_limiter \<Rightarrow> stream_limiter option" where
  "stream_try_acquire lim = (if sl_slots lim = 0 then None else Some (lim\<lparr>sl_slots := sl_slots lim - 1\<rparr>))"

definition stream_release :: "stream_limiter \<Rightarrow> stream_limiter" where
  "stream_release lim = lim\<lparr>sl_slots := sl_slots lim + 1\<rparr>"

section \<open>Bytes\<close>

record byte_budget =
  bb_held :: nat
  bb_max :: nat

definition byte_budget_new :: "nat \<Rightarrow> byte_budget" where
  "byte_budget_new m = \<lparr>bb_held = 0, bb_max = m\<rparr>"

definition set_max :: "nat \<Rightarrow> byte_budget \<Rightarrow> byte_budget" where
  "set_max m b = b\<lparr>bb_max := m\<rparr>"

definition saturating_add :: "nat \<Rightarrow> nat \<Rightarrow> nat" where
  "saturating_add a b = min (a + b) usize_max"

definition try_reserve :: "byte_budget \<Rightarrow> nat \<Rightarrow> nat + byte_budget" where
  "try_reserve b bytes =
     (let next_held = saturating_add (bb_held b) bytes in
      if next_held \<le> bb_max b then Inr (b\<lparr>bb_held := next_held\<rparr>) else Inl (bb_held b))"

definition release_bytes :: "byte_budget \<Rightarrow> nat \<Rightarrow> byte_budget" where
  "release_bytes b bytes = b\<lparr>bb_held := bb_held b - bytes\<rparr>"

text \<open>
  A reservation is the number of bytes it holds. A refusal carries what was held, the ceiling and what
  was asked for, the three numbers of its message.
\<close>

type_synonym reservation = nat

definition take_from :: "byte_budget \<Rightarrow> nat \<Rightarrow> (nat \<times> nat \<times> nat) + reservation \<times> byte_budget" where
  "take_from b bytes =
     (case try_reserve b bytes of
        Inr b' \<Rightarrow> Inr (bytes, b')
      | Inl held \<Rightarrow> Inl (held, bb_max b, bytes))"

definition take_buffers :: "byte_budget \<Rightarrow> nat \<Rightarrow> (nat \<times> nat \<times> nat) + reservation \<times> byte_budget" where
  "take_buffers b bytes =
     (case try_reserve b bytes of
        Inr b' \<Rightarrow> Inr (bytes, b')
      | Inl held \<Rightarrow> Inl (held, bb_max b, bytes))"

definition grow :: "reservation \<Rightarrow> nat \<Rightarrow> byte_budget \<Rightarrow> (nat \<times> nat \<times> nat) + reservation \<times> byte_budget" where
  "grow res bytes b =
     (case try_reserve b bytes of
        Inr b' \<Rightarrow> Inr (res + bytes, b')
      | Inl held \<Rightarrow> Inl (held, bb_max b, bytes))"

definition shrink :: "reservation \<Rightarrow> nat \<Rightarrow> byte_budget \<Rightarrow> reservation \<times> byte_budget" where
  "shrink res bytes b = (let released = min bytes res in (res - released, release_bytes b released))"

definition drop_reservation :: "reservation \<Rightarrow> byte_budget \<Rightarrow> byte_budget" where
  "drop_reservation res b = (if res > 0 then release_bytes b res else b)"

section \<open>Where the numbers come from\<close>

record limits_config =
  lc_max_connections_per_peer :: "nat option"
  lc_max_connections_global :: "nat option"
  lc_max_streams_global :: "nat option"
  lc_max_body_bytes :: "nat option"

record env_caps =
  ec_max_connections_per_peer :: "nat option"
  ec_max_connections_global :: "nat option"
  ec_max_streams_global :: "nat option"
  ec_max_body_bytes :: "nat option"

record limits =
  li_max_connections_per_peer :: nat
  li_max_connections_global :: nat
  li_max_streams_global :: nat
  li_max_body_bytes :: nat

definition parse_max :: "string \<Rightarrow> nat option" where
  "parse_max raw =
     (case parse_nat (str_trim raw) of
        Some n \<Rightarrow> if n = 0 \<or> usize_max < n then None else Some n
      | None \<Rightarrow> None)"

text \<open>The environment, as the value of a variable that is set.\<close>

definition cap_from_env :: "(string \<Rightarrow> string option) \<Rightarrow> string \<Rightarrow> nat option" where
  "cap_from_env env var = (case env var of None \<Rightarrow> None | Some raw \<Rightarrow> parse_max raw)"

definition env_from_environment :: "(string \<Rightarrow> string option) \<Rightarrow> env_caps" where
  "env_from_environment env =
     \<lparr>ec_max_connections_per_peer = cap_from_env env ''NEXAPIPE_MAX_CONNS_PER_PEER'',
      ec_max_connections_global = cap_from_env env ''NEXAPIPE_MAX_CONNS'',
      ec_max_streams_global = cap_from_env env ''NEXAPIPE_MAX_STREAMS'',
      ec_max_body_bytes = cap_from_env env ''NEXAPIPE_MAX_BODY_BYTES''\<rparr>"

definition resolve_one :: "string \<Rightarrow> nat option \<Rightarrow> nat option \<Rightarrow> nat \<Rightarrow> string + nat" where
  "resolve_one key from_config from_env def =
     (let from_env = (case from_env of Some v \<Rightarrow> if v > 0 then Some v else None | None \<Rightarrow> None) in
      case from_config of
        Some v \<Rightarrow>
          if v = 0 then Inl key
          else (case from_env of Some env_value \<Rightarrow> Inr env_value | None \<Rightarrow> Inr v)
      | None \<Rightarrow> Inr (case from_env of Some env_value \<Rightarrow> env_value | None \<Rightarrow> def))"

definition limits_resolve :: "limits_config \<Rightarrow> env_caps \<Rightarrow> string + limits" where
  "limits_resolve config env =
     rbind (resolve_one ''[limits] max_connections_per_peer'' (lc_max_connections_per_peer config)
              (ec_max_connections_per_peer env) DEFAULT_MAX_CONNECTIONS_PER_PEER) (\<lambda>per_peer.
     rbind (resolve_one ''[limits] max_connections_global'' (lc_max_connections_global config)
              (ec_max_connections_global env) DEFAULT_MAX_CONNECTIONS_GLOBAL) (\<lambda>global.
     rbind (resolve_one ''[limits] max_streams_global'' (lc_max_streams_global config)
              (ec_max_streams_global env) DEFAULT_MAX_STREAMS_GLOBAL) (\<lambda>streams.
     rbind (resolve_one ''[limits] max_body_bytes'' (lc_max_body_bytes config)
              (ec_max_body_bytes env) DEFAULT_MAX_BODY_BYTES_GLOBAL) (\<lambda>body.
     Inr \<lparr>li_max_connections_per_peer = per_peer, li_max_connections_global = global,
          li_max_streams_global = streams, li_max_body_bytes = body\<rparr>))))"

record 'id limiters =
  lm_connections :: "'id connection_limiter"
  lm_streams :: stream_limiter
  lm_max_body_bytes :: nat

definition limiters_from_limits :: "limits \<Rightarrow> 'id limiters" where
  "limiters_from_limits l =
     \<lparr>lm_connections = limiter_with_caps (li_max_connections_per_peer l) (li_max_connections_global l),
      lm_streams = stream_limiter_new (li_max_streams_global l), lm_max_body_bytes = li_max_body_bytes l\<rparr>"

section \<open>The ceilings keep their promise\<close>

lemma acquire_total:
  "acquire lim g = Some lim' \<Longrightarrow>
     cl_total lim' = cl_total lim + 1 \<and> cl_total lim < cl_max_global lim \<and>
     cl_max_global lim' = cl_max_global lim \<and> cl_max_per_peer lim' = cl_max_per_peer lim"
  by (cases g) (auto simp: try_acquire_def try_acquire_global_def Let_def split: if_splits)

lemma drop_guard_total [simp]:
  "cl_total (drop_guard lim g) = cl_total lim - 1"
  "cl_max_global (drop_guard lim g) = cl_max_global lim"
  "cl_max_per_peer (drop_guard lim g) = cl_max_per_peer lim"
  by (cases g; simp add: release_global_def release_peer_def Let_def split: option.split)+

interpretation conn_total: ceiling "\<lambda>_. True" acquire drop_guard cl_total cl_max_global "\<lambda>_. Suc 0"
proof (unfold_locales, goal_cases)
  case (1 s r s')
  then show ?case using acquire_total by fastforce
next
  case (2 s r s')
  then show ?case using acquire_total by fastforce
qed simp_all

lemma acquire_count:
  "acquire lim g = Some lim' \<Longrightarrow>
     limiter_count lim' p = limiter_count lim p + (if g = Some p then 1 else 0) \<and>
     (g = Some p \<longrightarrow> limiter_count lim p < cl_max_per_peer lim)"
  by (cases g) (auto simp: try_acquire_def try_acquire_global_def limiter_count_def Let_def split: if_splits)

lemma drop_guard_count:
  "limiter_count (drop_guard lim g) p = limiter_count lim p - (if g = Some p then 1 else 0)"
  by (cases g) (auto simp: release_global_def release_peer_def limiter_count_def Let_def split: option.splits)

interpretation conn_peer: ceiling "\<lambda>_. True" acquire drop_guard "\<lambda>lim. limiter_count lim p" cl_max_per_peer
  "\<lambda>g. if g = Some p then 1 else 0" for p
proof (unfold_locales, goal_cases)
  case (1 s r s')
  then show ?case using acquire_total acquire_count by fastforce
next
  case (2 s r s')
  then show ?case using acquire_count [OF 2(2), of p] by (auto split: if_splits)
next
  case (3 s r)
  then show ?case by (simp add: drop_guard_count)
qed

definition stream_limiter_ok :: "stream_limiter \<Rightarrow> bool" where
  "stream_limiter_ok lim \<longleftrightarrow> sl_slots lim \<le> sl_max_global lim"

definition streams_in_flight :: "stream_limiter \<Rightarrow> nat" where
  "streams_in_flight lim = sl_max_global lim - sl_slots lim"

interpretation stream_slots: exact_ceiling stream_limiter_ok "\<lambda>lim _. stream_try_acquire lim"
  "\<lambda>lim _. stream_release lim" streams_in_flight sl_max_global "\<lambda>_ :: unit. 1"
  by unfold_locales
     (auto simp: stream_limiter_ok_def streams_in_flight_def stream_try_acquire_def stream_release_def split: if_splits)

text \<open>
  A ceiling below the largest \<open>usize\<close>: a saturated sum is above it. Every budget the process has is of
  this kind unless it is configured to the largest number there is.
\<close>

definition byte_budget_ok :: "byte_budget \<Rightarrow> bool" where
  "byte_budget_ok b \<longleftrightarrow> bb_max b < usize_max"

lemma try_reserve_Inr:
  "byte_budget_ok b \<Longrightarrow> try_reserve b n = Inr b' \<longleftrightarrow> bb_held b + n \<le> bb_max b \<and> b' = b\<lparr>bb_held := bb_held b + n\<rparr>"
  by (auto simp: try_reserve_def saturating_add_def byte_budget_ok_def Let_def min_def)

lemma try_reserve_Inl:
  "byte_budget_ok b \<Longrightarrow> try_reserve b n = Inl h \<longleftrightarrow> bb_max b < bb_held b + n \<and> h = bb_held b"
  by (auto simp: try_reserve_def saturating_add_def byte_budget_ok_def Let_def min_def)

interpretation bytes: exact_ceiling byte_budget_ok "\<lambda>b n. res_ok (try_reserve b n)" release_bytes bb_held bb_max "\<lambda>n. n"
proof (unfold_locales, goal_cases)
  case (1 s r s')
  then show ?case
    by (cases "try_reserve s r") (auto simp: try_reserve_Inr byte_budget_ok_def)
next
  case (2 s r s')
  then show ?case
    by (cases "try_reserve s r") (auto simp: try_reserve_Inr)
next
  case (3 s r)
  then show ?case by (simp add: release_bytes_def byte_budget_ok_def)
next
  case (4 s r)
  then show ?case
    by (cases "try_reserve s r") (auto simp: try_reserve_Inl)
qed

section \<open>Connections that are open\<close>

text \<open>No peer is kept in the map with nothing to its name.\<close>

definition no_idle_peer :: "'id connection_limiter \<Rightarrow> bool" where
  "no_idle_peer lim \<longleftrightarrow> (\<forall>p. cl_per_peer lim p \<noteq> Some 0)"

lemma no_idle_acquire: "acquire lim g = Some lim' \<Longrightarrow> no_idle_peer lim \<Longrightarrow> no_idle_peer lim'"
  by (cases g) (auto simp: no_idle_peer_def try_acquire_def try_acquire_global_def Let_def split: if_splits)

lemma no_idle_drop: "no_idle_peer lim \<Longrightarrow> no_idle_peer (drop_guard lim g)"
  by (cases g) (auto simp: no_idle_peer_def release_global_def release_peer_def Let_def split: option.split)

lemma no_idle_step: "conn_total.held_step c c' \<Longrightarrow> no_idle_peer (fst c) \<Longrightarrow> no_idle_peer (fst c')"
  by (induction rule: conn_total.held_step.induct) (auto intro: no_idle_acquire no_idle_drop)

lemma no_idle_reachable: "conn_total.held_step\<^sup>*\<^sup>* c c' \<Longrightarrow> no_idle_peer (fst c) \<Longrightarrow> no_idle_peer (fst c')"
  by (induction rule: rtranclp_induct) (auto dest: no_idle_step)

lemma max_per_peer_reachable:
  "conn_total.held_step\<^sup>*\<^sup>* c c' \<Longrightarrow> cl_max_per_peer (fst c') = cl_max_per_peer (fst c)"
proof (induction rule: rtranclp_induct)
  case (step d e)
  from step(2, 3) show ?case
    by (induction rule: conn_total.held_step.induct) (auto dest: acquire_total)
qed simp

lemma sum_weights_count: "sum_list (map (\<lambda>g. if g = x then 1 else 0 :: nat) gs) = count_list gs x"
  by (induction gs) auto

lemma limiter_start:
  "conn_total.held_ok (limiter_with_caps pp g, [])" "conn_peer.held_ok p (limiter_with_caps pp g, [])"
  "no_idle_peer (limiter_with_caps pp g)"
  unfolding conn_total.held_ok_def conn_peer.held_ok_def
  by (simp_all add: no_idle_peer_def limiter_with_caps_def limiter_count_def)

text \<open>
  C10: however connections of peers and of the plaintext listener open and close, the process never holds more
  than its ceiling and no peer more than its own; the total and the count of a peer are the numbers of
  guards that are out, the map names exactly the peers that hold a connection, so it does not grow with
  peers that left, and a connection is refused exactly when its peer or the process is at the ceiling.
\<close>

theorem connection_ceilings:
  assumes "conn_total.held_step\<^sup>*\<^sup>* (limiter_with_caps per_peer global, []) (lim, gs)"
  shows "cl_total lim = length gs \<and> length gs \<le> global \<and>
    (\<forall>p. limiter_count lim p = count_list gs (Some p) \<and> count_list gs (Some p) \<le> per_peer) \<and>
    dom (cl_per_peer lim) = {p. Some p \<in> set gs} \<and>
    (\<forall>p. try_acquire lim p = None \<longleftrightarrow> count_list gs (Some p) = per_peer \<or> length gs = global) \<and>
    (try_acquire_global lim = None \<longleftrightarrow> length gs = global)"
proof -
  have tot: "conn_total.held_ok (lim, gs)" "cl_max_global lim = global"
    using conn_total.held_reachable [OF assms limiter_start(1)] by (simp_all add: limiter_with_caps_def)
  have peer: "conn_peer.held_ok p (lim, gs)" for p
    using conn_peer.held_reachable [OF assms limiter_start(2)] by simp
  have pp: "cl_max_per_peer lim = per_peer"
    using max_per_peer_reachable [OF assms] by (simp add: limiter_with_caps_def)
  have total: "cl_total lim = length gs" "length gs \<le> global"
    using tot unfolding conn_total.held_ok_def by (simp_all add: sum_list_triv)
  have count: "limiter_count lim p = count_list gs (Some p)" "count_list gs (Some p) \<le> per_peer" for p
    using peer [of p] pp unfolding conn_peer.held_ok_def by (simp_all add: sum_weights_count)
  have "no_idle_peer lim"
    using no_idle_reachable [OF assms] limiter_start(3) [of per_peer global] by simp
  then have "p \<in> dom (cl_per_peer lim) \<longleftrightarrow> Some p \<in> set gs" for p
    using count(1) [of p] count_list_0_iff [of gs "Some p"]
    by (cases "cl_per_peer lim p") (auto simp: limiter_count_def no_idle_peer_def)
  then have "dom (cl_per_peer lim) = {p. Some p \<in> set gs}" by blast
  moreover have "try_acquire lim p = None \<longleftrightarrow> count_list gs (Some p) = per_peer \<or> length gs = global" for p
    using count [of p] total tot(2) pp by (auto simp: try_acquire_def Let_def)
  moreover have "try_acquire_global lim = None \<longleftrightarrow> length gs = global"
    using total tot(2) by (auto simp: try_acquire_global_def)
  ultimately show ?thesis
    using total count by blast
qed

theorem connection_ceilings_witness:
  "\<exists>lim. conn_total.held_step\<^sup>*\<^sup>* (limiter_with_caps 1 5, []) (lim, [Some CHR ''a'']) \<and>
     try_acquire lim CHR ''a'' = None \<and> dom (cl_per_peer lim) = {CHR ''a''}"
proof -
  let ?lim = "(limiter_with_caps 1 5)\<lparr>cl_per_peer := [CHR ''a'' \<mapsto> 1], cl_total := 1\<rparr>"
  have "conn_total.held_step (limiter_with_caps 1 5, []) (?lim, [Some CHR ''a''])"
    by (rule conn_total.taken) (simp add: try_acquire_def limiter_count_def limiter_with_caps_def)
  then have steps: "conn_total.held_step\<^sup>*\<^sup>* (limiter_with_caps 1 5, []) (?lim, [Some CHR ''a''])"
    by blast
  from connection_ceilings [OF steps] steps show ?thesis
    by (intro exI [of _ ?lim]) simp
qed

section \<open>Bytes that are held\<close>

text \<open>The reservations that are out, each with what it holds.\<close>

inductive budget_step :: "byte_budget \<times> reservation list \<Rightarrow> byte_budget \<times> reservation list \<Rightarrow> bool" where
  step_take: "take_from b n = Inr (r, b') \<Longrightarrow> budget_step (b, rs) (b', rs @ [r])"
| step_buffer: "take_buffers b n = Inr (r, b') \<Longrightarrow> budget_step (b, rs) (b', rs @ [r])"
| step_grow: "i < length rs \<Longrightarrow> grow (rs ! i) n b = Inr (r, b') \<Longrightarrow> budget_step (b, rs) (b', rs[i := r])"
| step_shrink: "i < length rs \<Longrightarrow> shrink (rs ! i) n b = (r, b') \<Longrightarrow> budget_step (b, rs) (b', rs[i := r])"
| step_drop: "i < length rs \<Longrightarrow> budget_step (b, rs) (drop_reservation (rs ! i) b, take i rs @ drop (Suc i) rs)"

definition budget_ok :: "byte_budget \<times> reservation list \<Rightarrow> bool" where
  "budget_ok c \<longleftrightarrow> byte_budget_ok (fst c) \<and> bb_held (fst c) = sum_list (snd c) \<and> bb_held (fst c) \<le> bb_max (fst c)"

lemma sum_list_take_drop: "i < length rs \<Longrightarrow> sum_list rs = rs ! i + sum_list (take i rs @ drop (Suc i) rs)" for rs :: "nat list"
  by (subst id_take_nth_drop [of i rs]) simp_all

lemma budget_step_ok: "budget_step c c' \<Longrightarrow> budget_ok c \<Longrightarrow> budget_ok c' \<and> bb_max (fst c') = bb_max (fst c)"
proof (induction rule: budget_step.induct)
  case (step_take b n r b' rs)
  then show ?case
    by (auto simp: budget_ok_def take_from_def try_reserve_Inr byte_budget_ok_def split: sum.splits)
next
  case (step_buffer b n r b' rs)
  then show ?case
    by (auto simp: budget_ok_def take_buffers_def try_reserve_Inr byte_budget_ok_def split: sum.splits)
next
  case (step_grow i rs n b r b')
  then show ?case
    using sum_list_take_drop [of i rs] sum_list_take_drop [of i "rs[i := r]"]
    by (auto simp: budget_ok_def grow_def try_reserve_Inr byte_budget_ok_def split: sum.splits)
next
  case (step_shrink i rs n b r b')
  then show ?case
    using sum_list_take_drop [of i rs] sum_list_take_drop [of i "rs[i := r]"]
    by (auto simp: budget_ok_def shrink_def release_bytes_def byte_budget_ok_def Let_def min_def split: if_splits)
next
  case (step_drop i rs b)
  then show ?case
    using sum_list_take_drop [of i rs]
    by (auto simp: budget_ok_def drop_reservation_def release_bytes_def byte_budget_ok_def)
qed

lemma budget_reachable:
  "budget_step\<^sup>*\<^sup>* c c' \<Longrightarrow> budget_ok c \<Longrightarrow> budget_ok c' \<and> bb_max (fst c') = bb_max (fst c)"
  by (induction rule: rtranclp_induct) (auto dest: budget_step_ok)

text \<open>
  C21: however reservations are taken, grown, shrunk and dropped, the bytes the budget counts are the bytes
  the reservations hold and never more than the ceiling, and all of it is free again once they are dropped;
  a reservation is refused exactly when it does not fit beside what is held.
\<close>

theorem byte_budget_accounts:
  assumes "budget_step\<^sup>*\<^sup>* (byte_budget_new m, []) (b, rs)" and "m < usize_max"
  shows "bb_held b = sum_list rs \<and> sum_list rs \<le> m \<and>
    ((\<exists>e. take_from b n = Inl e) \<longleftrightarrow> m < sum_list rs + n) \<and>
    (i < length rs \<longrightarrow> (\<exists>e. grow (rs ! i) n b = Inl e) \<longleftrightarrow> m < sum_list rs + n)"
proof -
  have "budget_ok (byte_budget_new m, [])"
    using assms(2) by (simp add: budget_ok_def byte_budget_ok_def byte_budget_new_def)
  from budget_reachable [OF assms(1) this] have ok: "budget_ok (b, rs)" "bb_max b = m"
    by (simp_all add: byte_budget_new_def)
  then have b: "byte_budget_ok b" "bb_held b = sum_list rs" "sum_list rs \<le> m"
    by (simp_all add: budget_ok_def)
  moreover have "(\<exists>e. take_from b n = Inl e) \<longleftrightarrow> m < sum_list rs + n"
    using b ok(2) by (auto simp: take_from_def try_reserve_def saturating_add_def byte_budget_ok_def Let_def min_def)
  moreover have "(\<exists>e. grow (rs ! i) n b = Inl e) \<longleftrightarrow> m < sum_list rs + n"
    using b ok(2) by (auto simp: grow_def try_reserve_def saturating_add_def byte_budget_ok_def Let_def min_def)
  ultimately show ?thesis by blast
qed

theorem byte_budget_accounts_witness:
  "\<exists>b. budget_step\<^sup>*\<^sup>* (byte_budget_new 10, []) (b, [7]) \<and> bb_held b = 7 \<and> (\<exists>e. take_from b 4 = Inl e)"
proof -
  have um: "10 < usize_max"
    by (simp add: usize_max_def)
  have "take_from (byte_budget_new 10) 7 = Inr (7, \<lparr>bb_held = 7, bb_max = 10\<rparr>)"
    using um by (simp add: take_from_def try_reserve_def byte_budget_new_def saturating_add_def Let_def)
  then have "budget_step (byte_budget_new 10, []) (\<lparr>bb_held = 7, bb_max = 10\<rparr>, [] @ [7])"
    by (rule step_take)
  then have steps: "budget_step\<^sup>*\<^sup>* (byte_budget_new 10, []) (\<lparr>bb_held = 7, bb_max = 10\<rparr>, [7])"
    by simp
  from byte_budget_accounts [OF steps um, of 4 0] steps show ?thesis
    by auto
qed

section \<open>The numbers\<close>

text \<open>A ceiling from its three sources, in the order they outrank each other.\<close>

definition outranked :: "nat option \<Rightarrow> nat option \<Rightarrow> nat \<Rightarrow> nat" where
  "outranked env config def =
     (case env of
        Some v \<Rightarrow> if v > 0 then v else (case config of Some u \<Rightarrow> u | None \<Rightarrow> def)
      | None \<Rightarrow> (case config of Some u \<Rightarrow> u | None \<Rightarrow> def))"

lemma resolve_one_Inr:
  "resolve_one key c e d = Inr n \<longleftrightarrow> c \<noteq> Some 0 \<and> n = outranked e c d"
  by (auto simp: resolve_one_def outranked_def Let_def split: option.splits)

lemma outranked_pos: "c \<noteq> Some 0 \<Longrightarrow> 0 < d \<Longrightarrow> 0 < outranked e c d"
  by (auto simp: outranked_def split: option.split)

lemma defaults_pos:
  "0 < DEFAULT_MAX_CONNECTIONS_PER_PEER" "0 < DEFAULT_MAX_CONNECTIONS_GLOBAL" "0 < DEFAULT_MAX_STREAMS_GLOBAL"
  "0 < DEFAULT_MAX_BODY_BYTES_GLOBAL"
  by (simp_all add: DEFAULT_MAX_CONNECTIONS_PER_PEER_def DEFAULT_MAX_CONNECTIONS_GLOBAL_def
      DEFAULT_MAX_STREAMS_GLOBAL_def DEFAULT_MAX_BODY_BYTES_GLOBAL_def)

text \<open>
  The ceilings the process runs with are all positive, and each is what the environment says where it
  names a usable number, else what the file says, else the default. The process refuses to start exactly when
  the file names a ceiling of zero, whatever the environment says.
\<close>

theorem ceilings_resolved:
  "limits_resolve config env = Inr l \<longleftrightarrow>
     lc_max_connections_per_peer config \<noteq> Some 0 \<and> lc_max_connections_global config \<noteq> Some 0 \<and>
     lc_max_streams_global config \<noteq> Some 0 \<and> lc_max_body_bytes config \<noteq> Some 0 \<and>
     0 < li_max_connections_per_peer l \<and> 0 < li_max_connections_global l \<and> 0 < li_max_streams_global l \<and>
     0 < li_max_body_bytes l \<and>
     l = \<lparr>li_max_connections_per_peer = outranked (ec_max_connections_per_peer env)
            (lc_max_connections_per_peer config) DEFAULT_MAX_CONNECTIONS_PER_PEER,
          li_max_connections_global = outranked (ec_max_connections_global env)
            (lc_max_connections_global config) DEFAULT_MAX_CONNECTIONS_GLOBAL,
          li_max_streams_global = outranked (ec_max_streams_global env)
            (lc_max_streams_global config) DEFAULT_MAX_STREAMS_GLOBAL,
          li_max_body_bytes = outranked (ec_max_body_bytes env)
            (lc_max_body_bytes config) DEFAULT_MAX_BODY_BYTES_GLOBAL\<rparr>"
  by (auto simp: limits_resolve_def resolve_one_Inr intro: outranked_pos [OF _ defaults_pos(1)]
      outranked_pos [OF _ defaults_pos(2)] outranked_pos [OF _ defaults_pos(3)] outranked_pos [OF _ defaults_pos(4)])

end
