(* ===== verification/Nexa_Stream.thy ===== *)
theory Nexa_Stream
  imports Nexa_Limits Nexa_Timing
begin

text \<open>
  Reading from and copying between byte streams, \<open>crates/nexapipe/src/stream_util.rs\<close>. A reader is
  what its peer does: the list of what arrives and when, an error, or no bytes for the end of the stream; once the
  list is used up nothing arrives any more. Moments and durations are natural numbers of nanoseconds. A
  read gives what has arrived, even when the deadline has passed while it was not being waited for.
\<close>

section \<open>Readers\<close>

datatype io_kind = NotFoundKind | InvalidData | TimedOut | UnexpectedEof | OtherKind

type_synonym io_error = "io_kind \<times> string"
type_synonym reader_events = "(nat \<times> (io_error + bytes)) list"

text \<open>One read of at most \<open>n\<close> bytes under a deadline: \<open>None\<close> when the deadline passes first.\<close>

definition read_by :: "nat \<Rightarrow> nat \<Rightarrow> nat \<Rightarrow> reader_events \<Rightarrow> (io_error + bytes) option \<times> nat \<times> reader_events" where
  "read_by n deadline now rd =
     (case rd of
        [] \<Rightarrow> (None, max now deadline, [])
      | (t, ev) # rest \<Rightarrow>
          if t \<le> max now deadline then
            (case ev of
               Inl e \<Rightarrow> (Some (Inl e), max now t, rest)
             | Inr bs \<Rightarrow>
                 (Some (Inr (take n bs)), max now t,
                  if length bs \<le> n then rest else (t, Inr (drop n bs)) # rest))
          else (None, max now deadline, rd))"

definition CHUNK :: nat where "CHUNK = 4096"

definition read_more_by ::
    "reader_events \<Rightarrow> bytes \<Rightarrow> nat \<Rightarrow> nat \<Rightarrow> (io_error + bool) \<times> bytes \<times> nat \<times> reader_events" where
  "read_more_by rd buf deadline now =
     (case read_by CHUNK deadline now rd of
        (Some (Inr bs), now', rd') \<Rightarrow> if bs = [] then (Inr False, buf, now', rd') else (Inr True, buf @ bs, now', rd')
      | (Some (Inl e), now', rd') \<Rightarrow> (Inl e, buf, now', rd')
      | (None, now', rd') \<Rightarrow> (Inr False, buf, now', rd'))"

definition read_more ::
    "reader_events \<Rightarrow> bytes \<Rightarrow> nat \<Rightarrow> nat \<Rightarrow> (io_error + bool) \<times> bytes \<times> nat \<times> reader_events" where
  "read_more rd buf timeout now = read_more_by rd buf (now + timeout) now"

text \<open>What is left to read, which every read that gives bytes makes smaller.\<close>

fun pending :: "reader_events \<Rightarrow> nat" where
  "pending [] = 0"
| "pending ((t, Inl e) # rd) = Suc (pending rd)"
| "pending ((t, Inr bs) # rd) = Suc (length bs + pending rd)"

lemma CHUNK_pos [simp]: "0 < CHUNK" "CHUNK \<noteq> 0"
  by (simp_all add: CHUNK_def)

lemma read_by_pending: "read_by n deadline now rd = (Some r, now', rd') \<Longrightarrow> 0 < n \<Longrightarrow> pending rd' < pending rd"
  by (cases rd rule: pending.cases) (auto simp: read_by_def split: if_splits)

lemma read_more_by_pending:
  "read_more_by rd buf deadline now = (Inr True, buf', now', rd') \<Longrightarrow> pending rd' < pending rd"
  by (auto simp: read_more_by_def split: prod.splits option.splits sum.splits if_splits intro: read_by_pending [where n = CHUNK])

text \<open>The bytes a reader delivers by a moment, up to its end or its first error.\<close>

fun arrived :: "nat \<Rightarrow> reader_events \<Rightarrow> bytes" where
  "arrived by_when [] = []"
| "arrived by_when ((t, Inl e) # rd) = []"
| "arrived by_when ((t, Inr bs) # rd) = (if t \<le> by_when \<and> bs \<noteq> [] then bs @ arrived by_when rd else [])"

text \<open>Whether a reader stays silent or ends, rather than failing, at that point.\<close>

fun breaks :: "nat \<Rightarrow> reader_events \<Rightarrow> bool" where
  "breaks by_when [] = False"
| "breaks by_when ((t, Inl e) # rd) = (t \<le> by_when)"
| "breaks by_when ((t, Inr bs) # rd) = (t \<le> by_when \<and> bs \<noteq> [] \<and> breaks by_when rd)"

lemma read_more_by_cases:
  assumes "now \<le> deadline"
  obtains (more) bs now' rd' where "read_more_by rd buf deadline now = (Inr True, buf @ bs, now', rd')"
      "bs \<noteq> []" "length bs \<le> CHUNK" "now' \<le> deadline" "arrived deadline rd = bs @ arrived deadline rd'"
      "breaks deadline rd = breaks deadline rd'"
  | (quiet) now' rd' where "read_more_by rd buf deadline now = (Inr False, buf, now', rd')"
      "arrived deadline rd = []" "\<not> breaks deadline rd" "now' \<le> deadline"
  | (failed) e now' rd' where "read_more_by rd buf deadline now = (Inl e, buf, now', rd')"
      "arrived deadline rd = []" "breaks deadline rd" "now' \<le> deadline"
proof (cases rd)
  case Nil
  then show ?thesis
    using quiet assms by (simp add: read_more_by_def read_by_def)
next
  case (Cons x rest)
  obtain t ev where x: "x = (t, ev)" by (cases x)
  have m: "max now deadline = deadline" using assms by simp
  show ?thesis
  proof (cases "t \<le> deadline")
    case False
    then show ?thesis
      using quiet Cons x m by (cases ev) (simp_all add: read_more_by_def read_by_def)
  next
    case True
    show ?thesis
    proof (cases ev)
      case (Inl e)
      with True show ?thesis
        using failed Cons x m assms by (simp add: read_more_by_def read_by_def)
    next
      case (Inr bs)
      show ?thesis
      proof (cases "bs = []")
        case True
        with \<open>t \<le> deadline\<close> Inr show ?thesis
          using quiet Cons x m assms by (simp add: read_more_by_def read_by_def)
      next
        case False
        let ?rd' = "if length bs \<le> CHUNK then rest else (t, Inr (drop CHUNK bs)) # rest"
        have "read_more_by rd buf deadline now = (Inr True, buf @ take CHUNK bs, max now t, ?rd')"
          using False True Inr Cons x m by (simp add: read_more_by_def read_by_def)
        moreover have "arrived deadline rd = take CHUNK bs @ arrived deadline ?rd'"
          using False True Inr Cons x by (simp add: append_assoc [symmetric] del: append_assoc)
        moreover have "breaks deadline rd = breaks deadline ?rd'"
          using False True Inr Cons x by simp
        ultimately show ?thesis
          using more [of "take CHUNK bs" "max now t" ?rd'] False True assms by simp
      qed
    qed
  qed
qed

section \<open>One direction of a copy\<close>

definition COPY_BUF_SIZE :: nat where "COPY_BUF_SIZE = 16 * 1024"
definition COPY_BUFFER_BYTES :: nat where "COPY_BUFFER_BYTES = 2 * COPY_BUF_SIZE"
definition LINGERING :: nat where "LINGERING = from_secs 30"

lemma COPY_BUF_SIZE_pos [simp]: "0 < COPY_BUF_SIZE" "COPY_BUF_SIZE \<noteq> 0"
  by (simp_all add: COPY_BUF_SIZE_def)

text \<open>
  The writer fails at the first chunk it has an error for. The result is what was written and counted, and
  when and how the direction ended: \<open>None\<close> when it never does.
\<close>

function copy_one_way ::
    "(nat \<Rightarrow> io_error option) \<Rightarrow> nat \<Rightarrow> nat \<Rightarrow> reader_events \<Rightarrow> bytes \<times> (nat \<times> (io_error + unit)) option" where
  "copy_one_way wr k now rd =
     (case rd of
        [] \<Rightarrow> ([], None)
      | (t, Inl e) # rest \<Rightarrow> ([], Some (max now t, Inl e))
      | (t, Inr bs) # rest \<Rightarrow>
          if bs = [] then ([], Some (max now t, Inr ()))
          else
            (case wr k of
               Some e \<Rightarrow> ([], Some (max now t, Inl e))
             | None \<Rightarrow>
                 let chunk = take COPY_BUF_SIZE bs;
                     (out, fin) = copy_one_way wr (Suc k) (max now t)
                       (if length bs \<le> COPY_BUF_SIZE then rest else (t, Inr (drop COPY_BUF_SIZE bs)) # rest)
                 in (chunk @ out, fin)))"
  by pat_completeness auto
termination
  by (relation "measure (\<lambda>(wr, k, now, rd). pending rd)") auto

declare copy_one_way.simps [simp del]

section \<open>Both directions\<close>

record copy_buffers =
  cp_client_to_backend :: reservation
  cp_backend_to_client :: reservation

text \<open>The first reservation is given back when the second does not fit.\<close>

definition copy_buffers_take :: "byte_budget \<Rightarrow> ((nat \<times> nat \<times> nat) + copy_buffers) \<times> byte_budget" where
  "copy_buffers_take budget =
     (case take_buffers budget COPY_BUF_SIZE of
        Inl e \<Rightarrow> (Inl e, budget)
      | Inr (r1, budget1) \<Rightarrow>
          (case take_buffers budget1 COPY_BUF_SIZE of
             Inl e \<Rightarrow> (Inl e, drop_reservation r1 budget1)
           | Inr (r2, budget2) \<Rightarrow> (Inr \<lparr>cp_client_to_backend = r1, cp_backend_to_client = r2\<rparr>, budget2)))"

type_synonym direction_end = "(nat \<times> (io_error + unit)) option"

definition result_and :: "io_error + unit \<Rightarrow> io_error + unit \<Rightarrow> io_error + unit" where
  "result_and a b = (case a of Inl e \<Rightarrow> Inl e | Inr _ \<Rightarrow> b)"

definition first_end :: "direction_end \<Rightarrow> direction_end \<Rightarrow> direction_end" where
  "first_end a b =
     (case (a, b) of
        (None, _) \<Rightarrow> b
      | (_, None) \<Rightarrow> a
      | (Some (t1, r1), Some (t2, r2)) \<Rightarrow> if t1 \<le> t2 then a else b)"

text \<open>
  The three arms of the race, each with the moment it is ready: both directions done, the first direction to
  end, after the time the other one is given when it ended cleanly, and the deadline of the whole copy.
\<close>

definition copy_arms :: "nat \<Rightarrow> nat option \<Rightarrow> direction_end \<Rightarrow> direction_end \<Rightarrow> (nat \<times> (io_error + unit)) list" where
  "copy_arms now limit client backend =
     (let lingering = (case limit of Some l \<Rightarrow> min l LINGERING | None \<Rightarrow> LINGERING) in
      (case (client, backend) of
         (Some (t1, r1), Some (t2, r2)) \<Rightarrow> [(max t1 t2, result_and r1 r2)]
       | _ \<Rightarrow> []) @
      (case first_end client backend of
         Some (t, Inl e) \<Rightarrow> [(t, Inl e)]
       | Some (t, Inr _) \<Rightarrow> [(t + lingering, Inl (TimedOut, ''the other direction did not finish in time''))]
       | None \<Rightarrow> []) @
      (case limit of
         Some l \<Rightarrow> [(now + l, Inl (TimedOut, ''the copy ended on its deadline''))]
       | None \<Rightarrow> []))"

text \<open>The arm that is ready first wins; any of them may when several are.\<close>

definition race_winners :: "(nat \<times> 'r) list \<Rightarrow> (nat \<times> 'r) list" where
  "race_winners arms = filter (\<lambda>a. list_all (\<lambda>b. fst a \<le> fst b) arms) arms"

definition copy_race ::
    "nat \<Rightarrow> nat option \<Rightarrow> (nat \<Rightarrow> io_error option) \<Rightarrow> (nat \<Rightarrow> io_error option) \<Rightarrow> reader_events \<Rightarrow> reader_events \<Rightarrow>
      (nat \<times> (io_error + unit)) list" where
  "copy_race now limit to_backend to_client client backend =
     race_winners (copy_arms now limit (snd (copy_one_way to_backend 0 now client))
       (snd (copy_one_way to_client 0 now backend)))"

text \<open>The words of a refused buffer: what is held, the ceiling and the size of the buffer.\<close>

definition buffer_refusal :: "nat \<times> nat \<times> nat \<Rightarrow> string" where
  "buffer_refusal e =
     (case e of (held, most, n) \<Rightarrow>
        ''the server is holding '' @ show_nat held @ '' of '' @ show_nat most @ '' bytes, so this '' @ show_nat n @
        '' byte copy buffer does not fit'')"

text \<open>Under a budget the stream is refused before a byte is read, and what it took is given back at the end.\<close>

definition copy_both_ways_until_with_budget ::
    "byte_budget \<Rightarrow> nat \<Rightarrow> nat option \<Rightarrow> (nat \<Rightarrow> io_error option) \<Rightarrow> (nat \<Rightarrow> io_error option) \<Rightarrow>
      reader_events \<Rightarrow> reader_events \<Rightarrow> (nat \<times> (io_error + unit)) list \<times> byte_budget" where
  "copy_both_ways_until_with_budget budget now limit to_backend to_client client backend =
     (case copy_buffers_take budget of
        (Inl e, budget') \<Rightarrow> ([(now, Inl (OtherKind, buffer_refusal e))], budget')
      | (Inr buffers, budget') \<Rightarrow>
          (copy_race now limit to_backend to_client client backend,
           drop_reservation (cp_backend_to_client buffers) (drop_reservation (cp_client_to_backend buffers) budget')))"

text \<open>The budget of the process is the one a stream is charged to unless another is named.\<close>

definition copy_both_ways_until where
  "copy_both_ways_until body_budget now limit to_backend to_client client backend =
     copy_both_ways_until_with_budget body_budget now limit to_backend to_client client backend"

definition copy_both_ways where
  "copy_both_ways body_budget now to_backend to_client client backend =
     copy_both_ways_until body_budget now None to_backend to_client client backend"

section \<open>What a copy delivers, and when it ends\<close>

text \<open>The bytes of a reader up to its end or its first error.\<close>

fun stream_bytes :: "reader_events \<Rightarrow> bytes" where
  "stream_bytes [] = []"
| "stream_bytes ((t, Inl e) # rd) = []"
| "stream_bytes ((t, Inr bs) # rd) = (if bs = [] then [] else bs @ stream_bytes rd)"

lemma stream_bytes_split:
  "bs \<noteq> [] \<Longrightarrow> stream_bytes ((t, Inr bs) # rest) =
     take n bs @ stream_bytes (if length bs \<le> n then rest else (t, Inr (drop n bs)) # rest)"
  by (simp add: append_assoc [symmetric] del: append_assoc)

lemma copy_one_way_Nil [simp]: "copy_one_way wr k now [] = ([], None)"
  by (subst copy_one_way.simps) simp

lemma copy_one_way_error [simp]: "copy_one_way wr k now ((t, Inl e) # rest) = ([], Some (max now t, Inl e))"
  by (subst copy_one_way.simps) simp

lemma copy_one_way_eof [simp]: "copy_one_way wr k now ((t, Inr []) # rest) = ([], Some (max now t, Inr ()))"
  by (subst copy_one_way.simps) simp

lemma copy_one_way_unwritten:
  "bs \<noteq> [] \<Longrightarrow> wr k = Some e \<Longrightarrow> copy_one_way wr k now ((t, Inr bs) # rest) = ([], Some (max now t, Inl e))"
  by (subst copy_one_way.simps) simp

lemma copy_one_way_chunk:
  "bs \<noteq> [] \<Longrightarrow> wr k = None \<Longrightarrow> copy_one_way wr k now ((t, Inr bs) # rest) =
     (let (out, fin) = copy_one_way wr (Suc k) (max now t)
        (if length bs \<le> COPY_BUF_SIZE then rest else (t, Inr (drop COPY_BUF_SIZE bs)) # rest)
      in (take COPY_BUF_SIZE bs @ out, fin))"
  by (subst copy_one_way.simps) simp

lemma copy_one_way_writes:
  "prefix (fst (copy_one_way wr k now rd)) (stream_bytes rd) \<and>
   (\<forall>t. snd (copy_one_way wr k now rd) = Some (t, Inr ()) \<longrightarrow>
      fst (copy_one_way wr k now rd) = stream_bytes rd)"
proof (induction "pending rd" arbitrary: rd k now rule: less_induct)
  case less
  show ?case
  proof (cases rd rule: stream_bytes.cases)
    case (3 t bs rest)
    show ?thesis
    proof (cases "bs = [] \<or> wr k \<noteq> None")
      case True
      then show ?thesis using 3 by (auto simp: copy_one_way_unwritten)
    next
      case False
      then have ne: "bs \<noteq> []" "wr k = None" by blast+
      let ?rd' = "if length bs \<le> COPY_BUF_SIZE then rest else (t, Inr (drop COPY_BUF_SIZE bs)) # rest"
      obtain out fin where rec: "copy_one_way wr (Suc k) (max now t) ?rd' = (out, fin)"
        by (cases "copy_one_way wr (Suc k) (max now t) ?rd'")
      have step: "copy_one_way wr k now rd = (take COPY_BUF_SIZE bs @ out, fin)"
        unfolding 3 copy_one_way_chunk [of bs wr k, OF ne] rec by simp
      have sb: "stream_bytes rd = take COPY_BUF_SIZE bs @ stream_bytes ?rd'"
        unfolding 3 using False by (intro stream_bytes_split) simp
      have "pending ?rd' < pending rd"
        using False 3 by simp
      from less [OF this, of "Suc k" "max now t"] rec
      have "prefix out (stream_bytes ?rd') \<and> (\<forall>t. fin = Some (t, Inr ()) \<longrightarrow> out = stream_bytes ?rd')"
        by simp
      then show ?thesis unfolding step sb by simp
    qed
  qed simp_all
qed

lemma race_winners_nonempty: "arms \<noteq> [] \<Longrightarrow> race_winners arms \<noteq> []"
proof -
  assume "arms \<noteq> []"
  then obtain a where "a \<in> set arms" "\<forall>b \<in> set arms. fst a \<le> fst b"
    using arg_min_if_finite [of "set arms" fst] by (metis List.finite_set linorder_not_le set_empty)
  then show ?thesis
    by (auto simp: race_winners_def filter_empty_conv list_all_iff)
qed

lemma race_winners_le: "a \<in> set (race_winners arms) \<Longrightarrow> a \<in> set arms \<and> (\<forall>b \<in> set arms. fst a \<le> fst b)"
  by (auto simp: race_winners_def list_all_iff)

lemma race_join:
  "m < a \<Longrightarrow> race_winners [(m, x), (a, y)] = [(m, x)]"
  "m < a \<Longrightarrow> m < b \<Longrightarrow> race_winners [(m, x), (a, y), (b, z)] = [(m, x)]" for m :: nat
  by (simp_all add: race_winners_def)

lemma lingering_le: "(case limit of Some l \<Rightarrow> min l LINGERING | None \<Rightarrow> LINGERING) \<le> LINGERING"
  by (cases limit) simp_all

lemma first_end_cases:
  "first_end a b = None \<longleftrightarrow> a = None \<and> b = None"
  "first_end a b = Some e \<Longrightarrow> a = Some e \<or> b = Some e"
  by (auto simp: first_end_def split: option.splits if_splits)

lemma copy_arms_deadline: "limit = Some l \<Longrightarrow> \<exists>r. (now + l, r) \<in> set (copy_arms now limit a b)"
  by (auto simp: copy_arms_def Let_def)

lemma copy_arms_first:
  assumes "first_end a b = Some (te, re)"
  shows "\<exists>t r. (t, r) \<in> set (copy_arms now limit a b) \<and> t \<le> te + LINGERING"
proof (cases re)
  case (Inl e)
  then have "(te, Inl e) \<in> set (copy_arms now limit a b)"
    using assms by (simp add: copy_arms_def Let_def)
  then show ?thesis by fastforce
next
  case (Inr u)
  let ?lingering = "case limit of Some l \<Rightarrow> min l LINGERING | None \<Rightarrow> LINGERING"
  have "(te + ?lingering, Inl (TimedOut, ''the other direction did not finish in time'')) \<in> set (copy_arms now limit a b)"
    using assms Inr by (simp add: copy_arms_def Let_def)
  then show ?thesis
    using lingering_le [of limit] by (metis add_le_cancel_left)
qed

lemma copy_arms_ok:
  assumes "(t, Inr ()) \<in> set (copy_arms now limit a b)"
  shows "\<exists>t1 t2. a = Some (t1, Inr ()) \<and> b = Some (t2, Inr ()) \<and> t = max t1 t2"
proof -
  have late: "(t, Inr ()) \<notin> set (case e of Some (t, Inl e) \<Rightarrow> [(t, Inl e)]
      | Some (t, Inr _) \<Rightarrow> [(t + w, Inl (TimedOut, ''the other direction did not finish in time''))] | None \<Rightarrow> [])"
    for e :: direction_end and w
    by (auto split: option.split prod.split sum.split)
  have "(t, Inr ()) \<in> set (case (a, b) of (Some (t1, r1), Some (t2, r2)) \<Rightarrow> [(max t1 t2, result_and r1 r2)] | _ \<Rightarrow> [])"
    using assms late by (cases limit) (simp_all add: copy_arms_def Let_def)
  then obtain t1 r1 t2 r2 where "a = Some (t1, r1)" "b = Some (t2, r2)" "t = max t1 t2" "result_and r1 r2 = Inr ()"
    by (cases a; cases b) auto
  then show ?thesis
    by (cases r1) (simp_all add: result_and_def)
qed

text \<open>A copy gives its buffers back, and one that cannot pay for both of them takes none.\<close>

lemma take_buffers_eq:
  "byte_budget_ok b \<Longrightarrow> take_buffers b n =
     (if bb_held b + n \<le> bb_max b then Inr (n, b\<lparr>bb_held := bb_held b + n\<rparr>) else Inl (bb_held b, bb_max b, n))"
  by (simp add: take_buffers_def try_reserve_def saturating_add_def byte_budget_ok_def min_def)

lemma copy_buffers_take_eq:
  assumes "byte_budget_ok budget"
  shows "copy_buffers_take budget =
    (if bb_held budget + COPY_BUFFER_BYTES \<le> bb_max budget
     then (Inr \<lparr>cp_client_to_backend = COPY_BUF_SIZE, cp_backend_to_client = COPY_BUF_SIZE\<rparr>,
           budget\<lparr>bb_held := bb_held budget + COPY_BUFFER_BYTES\<rparr>)
     else (Inl (if bb_held budget + COPY_BUF_SIZE \<le> bb_max budget then bb_held budget + COPY_BUF_SIZE
                else bb_held budget, bb_max budget, COPY_BUF_SIZE), budget))"
proof -
  have "byte_budget_ok (budget\<lparr>bb_held := n\<rparr>)" for n
    using assms by (simp add: byte_budget_ok_def)
  then show ?thesis
    using assms
    by (simp add: copy_buffers_take_def take_buffers_eq drop_reservation_def release_bytes_def COPY_BUFFER_BYTES_def)
qed

lemma copy_with_budget_eq:
  assumes "byte_budget_ok budget"
  shows "copy_both_ways_until_with_budget budget now limit to_backend to_client client backend =
    (if bb_held budget + COPY_BUFFER_BYTES \<le> bb_max budget
     then (copy_race now limit to_backend to_client client backend, budget)
     else ([(now, Inl (OtherKind, buffer_refusal (if bb_held budget + COPY_BUF_SIZE \<le> bb_max budget
              then bb_held budget + COPY_BUF_SIZE else bb_held budget, bb_max budget, COPY_BUF_SIZE)))], budget))"
  by (simp add: copy_both_ways_until_with_budget_def copy_buffers_take_eq [OF assms] drop_reservation_def
      release_bytes_def COPY_BUFFER_BYTES_def)


lemma copy_race_ends:
  assumes "limit \<noteq> None \<or> snd (copy_one_way to_backend 0 now client) \<noteq> None \<or>
      snd (copy_one_way to_client 0 now backend) \<noteq> None"
  shows "copy_race now limit to_backend to_client client backend \<noteq> [] \<and>
    (\<forall>(t, r) \<in> set (copy_race now limit to_backend to_client client backend).
       (\<forall>l. limit = Some l \<longrightarrow> t \<le> now + l) \<and>
       (\<forall>te re. first_end (snd (copy_one_way to_backend 0 now client)) (snd (copy_one_way to_client 0 now backend)) =
          Some (te, re) \<longrightarrow> t \<le> te + LINGERING) \<and>
       (r = Inr () \<longrightarrow> fst (copy_one_way to_backend 0 now client) = stream_bytes client \<and>
          fst (copy_one_way to_client 0 now backend) = stream_bytes backend))"
proof -
  let ?a = "snd (copy_one_way to_backend 0 now client)"
  let ?b = "snd (copy_one_way to_client 0 now backend)"
  let ?arms = "copy_arms now limit ?a ?b"
  have "?arms \<noteq> []"
  proof (cases limit)
    case (Some l)
    then show ?thesis using copy_arms_deadline [OF Some, of now ?a ?b] by auto
  next
    case None
    then have "first_end ?a ?b \<noteq> None" using assms first_end_cases(1) by auto
    then obtain te re where "first_end ?a ?b = Some (te, re)" by auto
    then show ?thesis using copy_arms_first [of ?a ?b te re now limit] by auto
  qed
  then have ne: "race_winners ?arms \<noteq> []" by (rule race_winners_nonempty)
  have "(\<forall>l. limit = Some l \<longrightarrow> t \<le> now + l) \<and>
      (\<forall>te re. first_end ?a ?b = Some (te, re) \<longrightarrow> t \<le> te + LINGERING) \<and>
      (r = Inr () \<longrightarrow> fst (copy_one_way to_backend 0 now client) = stream_bytes client \<and>
         fst (copy_one_way to_client 0 now backend) = stream_bytes backend)"
    if "(t, r) \<in> set (race_winners ?arms)" for t r
  proof (intro conjI allI impI)
    note win = race_winners_le [OF that]
    show "t \<le> now + l" if "limit = Some l" for l
      using win copy_arms_deadline [OF that, of now ?a ?b] by auto
    show "t \<le> te + LINGERING" if "first_end ?a ?b = Some (te, re)" for te re
      using win copy_arms_first [OF that, of now limit] by fastforce
    assume "r = Inr ()"
    then obtain t1 t2 where "?a = Some (t1, Inr ())" "?b = Some (t2, Inr ())"
      using win copy_arms_ok by blast
    then show "fst (copy_one_way to_backend 0 now client) = stream_bytes client"
      "fst (copy_one_way to_client 0 now backend) = stream_bytes backend"
      using copy_one_way_writes by blast+
  qed
  with ne show ?thesis
    unfolding copy_race_def by blast
qed

text \<open>
  C15: a copy of which some direction ends, or which has a deadline, comes to an end, and leaves the budget as
  it found it. When its buffers do not fit the budget it is refused at once. Otherwise
  every outcome is there by the deadline, and no later than the lingering time after the first
  direction ended. The copy succeeds only when both directions ended cleanly, and then every byte the
  client sent has been written to the backend and every byte of the backend to the client, in order.
\<close>

theorem copy_ends:
  assumes "copy_both_ways_until budget now limit to_backend to_client client backend = (outs, budget')"
    and "byte_budget_ok budget"
    and "limit \<noteq> None \<or> snd (copy_one_way to_backend 0 now client) \<noteq> None \<or>
      snd (copy_one_way to_client 0 now backend) \<noteq> None"
  shows "budget' = budget \<and> outs \<noteq> [] \<and>
    (bb_max budget < bb_held budget + COPY_BUFFER_BYTES \<longrightarrow> (\<exists>e. outs = [(now, Inl e)])) \<and>
    (bb_held budget + COPY_BUFFER_BYTES \<le> bb_max budget \<longrightarrow>
      (\<forall>(t, r) \<in> set outs.
         (\<forall>l. limit = Some l \<longrightarrow> t \<le> now + l) \<and>
         (\<forall>te re. first_end (snd (copy_one_way to_backend 0 now client)) (snd (copy_one_way to_client 0 now backend)) =
            Some (te, re) \<longrightarrow> t \<le> te + LINGERING) \<and>
         (r = Inr () \<longrightarrow> fst (copy_one_way to_backend 0 now client) = stream_bytes client \<and>
            fst (copy_one_way to_client 0 now backend) = stream_bytes backend)))"
proof (cases "bb_held budget + COPY_BUFFER_BYTES \<le> bb_max budget")
  case True
  then have "outs = copy_race now limit to_backend to_client client backend" "budget' = budget"
    using assms(1) unfolding copy_both_ways_until_def copy_with_budget_eq [OF assms(2)] by simp_all
  then show ?thesis
    using True copy_race_ends [OF assms(3)] by simp
next
  case False
  then show ?thesis
    using assms(1) unfolding copy_both_ways_until_def copy_with_budget_eq [OF assms(2)] by auto
qed

lemma sample_copy:
  "copy_one_way (\<lambda>_. None) 0 0 [(5, Inr [1, 2]), (9, Inr [3]), (9, Inr [])] = ([1, 2, 3], Some (9, Inr ()))"
  "copy_one_way (\<lambda>_. None) 0 0 [(20, Inr [4]), (30, Inr [])] = ([4], Some (30, Inr ()))"
proof -
  have "2 \<le> COPY_BUF_SIZE" by (simp add: COPY_BUF_SIZE_def)
  then show "copy_one_way (\<lambda>_. None) 0 0 [(5, Inr [1, 2]), (9, Inr [3]), (9, Inr [])] = ([1, 2, 3], Some (9, Inr ()))"
    "copy_one_way (\<lambda>_. None) 0 0 [(20, Inr [4]), (30, Inr [])] = ([4], Some (30, Inr ()))"
    by (simp_all add: copy_one_way_chunk take_Cons')
qed

lemma sample_budget:
  "byte_budget_ok (byte_budget_new 100000)"
  "bb_held (byte_budget_new 100000) + COPY_BUFFER_BYTES \<le> bb_max (byte_budget_new 100000)"
  by (simp_all add: byte_budget_ok_def byte_budget_new_def usize_max_def COPY_BUFFER_BYTES_def COPY_BUF_SIZE_def)

theorem copy_ends_witness:
  "\<exists>outs t r. copy_both_ways_until (byte_budget_new 100000) 0 (Some 100) (\<lambda>_. None) (\<lambda>_. None)
       [(5, Inr [1, 2]), (9, Inr [3]), (9, Inr [])] [(20, Inr [4])] = (outs, byte_budget_new 100000) \<and>
     (t, r) \<in> set outs \<and> t \<le> 100"
proof -
  let ?client = "[(5, Inr [1, 2]), (9, Inr [3]), (9, Inr [])] :: reader_events"
  obtain outs b where run: "copy_both_ways_until (byte_budget_new 100000) 0 (Some 100) (\<lambda>_. None) (\<lambda>_. None) ?client
      [(20, Inr [4])] = (outs, b)"
    by (cases "copy_both_ways_until (byte_budget_new 100000) 0 (Some 100) (\<lambda>_. None) (\<lambda>_. None) ?client [(20, Inr [4])]")
  have "Some (100 :: nat) \<noteq> None" by simp
  note ends = copy_ends [OF run sample_budget(1) disjI1 [OF this]]
  then obtain w where w: "w \<in> set outs"
    by (cases outs) auto
  obtain t r where "w = (t, r)" by (cases w)
  with w ends sample_budget(2) have "(t, r) \<in> set outs \<and> t \<le> 0 + 100" by blast
  with run ends show ?thesis by auto
qed

text \<open>
  C29: a half-close is not an ending. When one side has said all it has to say and the other finishes cleanly
  within the lingering time after it, and before the deadline of the copy, a copy that can pay for its buffers succeeds, with the
  whole of both streams delivered, at the moment the second side finishes.
\<close>

theorem half_close_delivers_reply:
  assumes "snd (copy_one_way to_backend 0 now client) = Some (t1, Inr ())"
    and "snd (copy_one_way to_client 0 now backend) = Some (t2, Inr ())"
    and "max t1 t2 < min t1 t2 + LINGERING"
    and "\<forall>l. limit = Some l \<longrightarrow> max t1 t2 < now + l \<and> max t1 t2 < min t1 t2 + l"
    and "byte_budget_ok budget" and "bb_held budget + COPY_BUFFER_BYTES \<le> bb_max budget"
  shows "copy_both_ways_until budget now limit to_backend to_client client backend = ([(max t1 t2, Inr ())], budget) \<and>
    fst (copy_one_way to_backend 0 now client) = stream_bytes client \<and>
    fst (copy_one_way to_client 0 now backend) = stream_bytes backend"
proof -
  let ?lingering = "case limit of Some l \<Rightarrow> min l LINGERING | None \<Rightarrow> LINGERING"
  have linger: "max t1 t2 < min t1 t2 + ?lingering"
    using assms(3, 4) by (cases limit) (auto simp: min_def split: if_splits)
  have first: "first_end (Some (t1, Inr ())) (Some (t2, Inr ())) = Some (min t1 t2, Inr ())"
    by (simp add: first_end_def min_def)
  have "copy_race now limit to_backend to_client client backend = [(max t1 t2, Inr ())]"
  proof (cases limit)
    case None
    then show ?thesis
      using race_join [OF linger] assms(1, 2) first
      by (simp add: copy_race_def copy_arms_def Let_def result_and_def)
  next
    case (Some l)
    then have "max t1 t2 < now + l" using assms(4) by simp
    with Some show ?thesis
      using race_join(2) [OF linger] assms(1, 2) first
      by (simp add: copy_race_def copy_arms_def Let_def result_and_def)
  qed
  then have "copy_both_ways_until budget now limit to_backend to_client client backend = ([(max t1 t2, Inr ())], budget)"
    using assms(6) unfolding copy_both_ways_until_def copy_with_budget_eq [OF assms(5)] by simp
  with copy_one_way_writes assms(1, 2) show ?thesis by blast
qed

theorem half_close_delivers_reply_witness:
  "copy_both_ways_until (byte_budget_new 100000) 0 None (\<lambda>_. None) (\<lambda>_. None)
     [(5, Inr [1, 2]), (9, Inr [3]), (9, Inr [])] [(20, Inr [4]), (30, Inr [])] = ([(30, Inr ())], byte_budget_new 100000)"
proof -
  have "30 < 9 + LINGERING" by (simp add: LINGERING_def from_secs_def)
  then show ?thesis
    using half_close_delivers_reply [of "\<lambda>_. None" 0 "[(5, Inr [1, 2]), (9, Inr [3]), (9, Inr [])]" 9 "\<lambda>_. None"
        "[(20, Inr [4]), (30, Inr [])]" 30 None "byte_budget_new 100000"] sample_copy sample_budget
    by simp
qed

end
