(* ===== verification/Nexa_Dns.thy ===== *)
theory Nexa_Dns
  imports Nexa_Stream Nexa_Backend "HOL-Library.AList"
begin

text \<open>
  The names the process has resolved, \<open>crates/nexapipe/src/dns.rs\<close>, and the dial of a backend by name,
  \<open>connect\<close> of \<open>crates/nexapipe/src/backend_conn.rs\<close>. The system's resolver, the dial of one address and what is at the
  other end of it are a parameter, the record \<open>network\<close>. The hash map of the cache is an
  association list in the order the map is iterated.
\<close>

section \<open>Addresses and failures\<close>

datatype socket_addr = V4 "32 word" u16 | V6 "128 word" u16 u32 u32

fun with_port :: "socket_addr \<Rightarrow> u16 \<Rightarrow> socket_addr" where
  "with_port (V4 ip _) port = V4 ip port"
| "with_port (V6 ip _ flowinfo scope_id) port = V6 ip port flowinfo scope_id"

datatype resolve_error = NotFound io_error | Transient io_error

fun is_not_found :: "resolve_error \<Rightarrow> bool" where
  "is_not_found (NotFound _) = True"
| "is_not_found (Transient _) = False"

definition NOT_FOUND_MESSAGES :: "string list" where
  "NOT_FOUND_MESSAGES =
     [''name or service not known'', ''name does not resolve'', ''nodename nor servname provided'',
      ''no address associated with hostname'', ''no such host is known'']"

text \<open>The messages of a resolver are ASCII, so the lower case of one is the ASCII one.\<close>

definition classify :: "io_error \<Rightarrow> resolve_error" where
  "classify e =
     (let lowered = to_ascii_lowercase (snd e) in
      if fst e = NotFoundKind \<or> list_ex (\<lambda>known. contains_str known lowered) NOT_FOUND_MESSAGES
      then NotFound e else Transient e)"

text \<open>
  What the process asks of the world. A lookup takes some time and may not run at all; a dial takes some
  time and may connect; what is connected to is a stream.
\<close>

record dialled =
  di_reads :: reader_events
  di_writes :: "nat \<Rightarrow> io_error option"

record network =
  nw_lookup :: "string \<Rightarrow> nat \<Rightarrow> nat \<times> (string + io_error + socket_addr list)"
  nw_dial :: "socket_addr \<Rightarrow> nat \<Rightarrow> nat \<times> bool"
  nw_stream :: "socket_addr \<Rightarrow> dialled"

definition system_resolve :: "network \<Rightarrow> string \<Rightarrow> nat \<Rightarrow> nat \<times> (string + resolve_error + socket_addr list)" where
  "system_resolve nw host now =
     (case nw_lookup nw host now of
        (took, Inl msg) \<Rightarrow> (took, Inl msg)
      | (took, Inr (Inl e)) \<Rightarrow> (took, Inr (Inl (classify e)))
      | (took, Inr (Inr addrs)) \<Rightarrow> (took, Inr (Inr addrs)))"

section \<open>The cache\<close>

definition POSITIVE_TTL :: nat where "POSITIVE_TTL = from_secs 30"
definition NEGATIVE_TTL :: nat where "NEGATIVE_TTL = from_secs 5"
definition MAX_ENTRIES :: nat where "MAX_ENTRIES = 1024"

type_synonym dns_answer = "resolve_error + socket_addr list"

record dns_entry =
  en_answer :: dns_answer
  en_expires_at :: nat
  en_last_used :: nat

record dns_cache =
  dc_entries :: "(string \<times> dns_entry) list"
  dc_started :: nat
  dc_positive_ttl :: nat
  dc_negative_ttl :: nat
  dc_max_entries :: nat

definition dns_cache_new :: "nat \<Rightarrow> nat \<Rightarrow> nat \<Rightarrow> nat \<Rightarrow> dns_cache" where
  "dns_cache_new started positive_ttl negative_ttl max_entries =
     \<lparr>dc_entries = [], dc_started = started, dc_positive_ttl = positive_ttl, dc_negative_ttl = negative_ttl,
      dc_max_entries = max_entries\<rparr>"

definition process_cache :: "nat \<Rightarrow> dns_cache" where
  "process_cache started = dns_cache_new started POSITIVE_TTL NEGATIVE_TTL MAX_ENTRIES"

definition used_at :: "dns_cache \<Rightarrow> nat \<Rightarrow> nat" where
  "used_at c now = min (now - dc_started c) (2 ^ 64 - 1)"

definition evict :: "nat \<Rightarrow> nat \<Rightarrow> (string \<times> dns_entry) list \<Rightarrow> (string \<times> dns_entry) list" where
  "evict now max_entries entries =
     (let live = filter (\<lambda>(_, e). now < en_expires_at e) entries in
      if length live < max_entries then live
      else
        let to_drop = length live + 1 - max_entries;
            by_age = sort_key snd (map (\<lambda>(name, e). (name, en_last_used e)) live)
        in fold (\<lambda>(name, _) es. AList.delete name es) (take to_drop by_age) live)"

definition store :: "nat \<Rightarrow> string \<Rightarrow> dns_entry \<Rightarrow> dns_cache \<Rightarrow> dns_cache" where
  "store now host entry c =
     (let entries = (if length (dc_entries c) \<ge> dc_max_entries c then evict now (dc_max_entries c) (dc_entries c)
                     else dc_entries c)
      in c\<lparr>dc_entries := AList.update host entry entries\<rparr>)"

definition remember :: "nat \<Rightarrow> string \<Rightarrow> dns_answer \<Rightarrow> nat \<Rightarrow> dns_cache \<Rightarrow> dns_cache" where
  "remember now host answer ttl c =
     store now host \<lparr>en_answer = answer, en_expires_at = now + ttl, en_last_used = used_at c now\<rparr> c"

text \<open>A hit says that the name was just asked about.\<close>

definition cache_lookup :: "nat \<Rightarrow> string \<Rightarrow> dns_cache \<Rightarrow> dns_answer option \<times> dns_cache" where
  "cache_lookup now host c =
     (case map_of (dc_entries c) host of
        None \<Rightarrow> (None, c)
      | Some e \<Rightarrow>
          if en_expires_at e \<le> now then (None, c)
          else (Some (en_answer e),
                c\<lparr>dc_entries := AList.update host (e\<lparr>en_last_used := used_at c now\<rparr>) (dc_entries c)\<rparr>))"

text \<open>What is made of what the resolver said, and for how long it is remembered.\<close>

definition resolved :: "string \<Rightarrow> string + dns_answer \<Rightarrow> dns_answer" where
  "resolved host raw =
     (case raw of
        Inl msg \<Rightarrow> Inl (Transient (OtherKind, ''the resolver did not run: '' @ msg))
      | Inr (Inl e) \<Rightarrow> Inl e
      | Inr (Inr addrs) \<Rightarrow>
          if addrs \<noteq> [] then Inr addrs else Inl (NotFound (NotFoundKind, host @ '' does not exist'')))"

definition remembered_for :: "dns_cache \<Rightarrow> dns_answer \<Rightarrow> nat option" where
  "remembered_for c answer =
     (case answer of
        Inr addrs \<Rightarrow> Some (dc_positive_ttl c)
      | Inl e \<Rightarrow> if is_not_found e then Some (dc_negative_ttl c) else None)"

definition resolve_once :: "network \<Rightarrow> nat \<Rightarrow> string \<Rightarrow> dns_cache \<Rightarrow> dns_answer \<times> nat \<times> dns_cache" where
  "resolve_once nw now host c =
     (case cache_lookup now host c of
        (Some answer, c1) \<Rightarrow> (answer, now, c1)
      | (None, c1) \<Rightarrow>
          let (took, raw) = system_resolve nw host now;
              answer = resolved host raw
          in (answer, now + took,
              case remembered_for c1 answer of
                Some ttl \<Rightarrow> remember (now + took) host answer ttl c1
              | None \<Rightarrow> c1))"

text \<open>One caller alone: it finds the answer, or makes the flight and resolves.\<close>

definition cache_resolve :: "network \<Rightarrow> nat \<Rightarrow> string \<Rightarrow> dns_cache \<Rightarrow> dns_answer \<times> nat \<times> dns_cache" where
  "cache_resolve nw now host c =
     (case cache_lookup now host c of
        (Some answer, c1) \<Rightarrow> (answer, now, c1)
      | (None, c1) \<Rightarrow> resolve_once nw now host c1)"

definition resolve_to :: "network \<Rightarrow> nat \<Rightarrow> string \<Rightarrow> u16 \<Rightarrow> dns_cache \<Rightarrow> dns_answer \<times> nat \<times> dns_cache" where
  "resolve_to nw now host port c =
     (case cache_resolve nw now host c of
        (Inl e, now1, c1) \<Rightarrow> (Inl e, now1, c1)
      | (Inr addrs, now1, c1) \<Rightarrow> (Inr (map (\<lambda>a. with_port a port) addrs), now1, c1))"

definition resolve_uncached :: "network \<Rightarrow> nat \<Rightarrow> string \<Rightarrow> (string + dns_answer) \<times> nat" where
  "resolve_uncached nw now host = (let (took, raw) = system_resolve nw host now in (raw, now + took))"

section \<open>The dial of a backend\<close>

datatype connect_error =
    ResolveTimedOut
  | ResolveFailed resolve_error
  | NoAddress
  | NoAddressAnswered "socket_addr dial_outcome list"

text \<open>A resolution that is cut off at the deadline has not remembered anything.\<close>

definition connect ::
    "network \<Rightarrow> string \<Rightarrow> u16 \<Rightarrow> nat \<Rightarrow> nat \<Rightarrow> dns_cache \<Rightarrow> (connect_error + dialled) \<times> nat \<times> dns_cache" where
  "connect nw host port connect_timeout now c =
     (let deadline = now + connect_timeout;
          (answer, now1, c1) = resolve_to nw now host port c
      in if deadline < now1 then (Inl ResolveTimedOut, deadline, c)
         else
           (case answer of
              Inl e \<Rightarrow> (Inl (ResolveFailed e), now1, c1)
            | Inr addrs \<Rightarrow>
                (case connect_addrs_with (nw_dial nw) deadline now1 [] addrs of
                   (Inr addr, now2) \<Rightarrow> (Inr (nw_stream nw addr), now2, c1)
                 | (Inl outcomes, now2) \<Rightarrow>
                     (Inl (if outcomes = [] then NoAddress else NoAddressAnswered outcomes), now2, c1))))"

text \<open>What is shared by everything the process serves: the budget for bytes and the names it resolved.\<close>

record process_state =
  ps_budget :: byte_budget
  ps_dns :: dns_cache

datatype session_error = SessionIo io_error | SessionDial connect_error

section \<open>Making room\<close>

lemma fold_delete: "fold (\<lambda>(name, _). AList.delete name) ps es = filter (\<lambda>(k, _). k \<notin> fst ` set ps) es"
  by (induction ps arbitrary: es) (auto simp: AList.delete_eq intro: filter_cong)

lemma map_fst_filter_keys: "map fst (filter (\<lambda>(k, _). P k) es) = filter P (map fst es)"
  by (induction es) auto

lemma distinct_map_filter_fst: "distinct (map fst es) \<Longrightarrow> distinct (map fst (filter P es))"
  by (induction es) auto

lemma length_without:
  assumes "distinct (map fst es)" and "distinct ns" and "set ns \<subseteq> fst ` set es"
  shows "length (filter (\<lambda>(k, _). k \<notin> set ns) es) = length es - length ns"
proof -
  let ?r = "filter (\<lambda>k. k \<notin> set ns) (map fst es)"
  have "length (filter (\<lambda>(k, _). k \<notin> set ns) es) = length ?r"
    using map_fst_filter_keys [of "\<lambda>k. k \<notin> set ns" es] by (metis length_map)
  also have "\<dots> = card (set ?r)"
    using distinct_filter [OF assms(1)] distinct_card by metis
  also have "set ?r = fst ` set es - set ns" by auto
  also have "card \<dots> = card (fst ` set es) - card (set ns)"
    using assms(3) by (intro card_Diff_subset) simp_all
  also have "\<dots> = length es - length ns"
    using assms(1, 2) by (metis distinct_card length_map set_map)
  finally show ?thesis .
qed

lemma evict_room:
  assumes "distinct (map fst es)"
  shows "distinct (map fst (evict now m es)) \<and> set (evict now m es) \<subseteq> set es \<and> length (evict now m es) \<le> m - 1"
proof -
  define live where "live = filter (\<lambda>(_, e). now < en_expires_at e) es"
  define old where "old = take (length live + 1 - m) (sort_key snd (map (\<lambda>(name, e). (name, en_last_used e)) live))"
  have live: "distinct (map fst live)" "set live \<subseteq> set es"
    using assms by (auto simp: live_def distinct_map_filter_fst)
  have "distinct (map fst (map (\<lambda>(name, e). (name, en_last_used e)) live))"
    using live(1) by (simp add: split_beta comp_def)
  then have keys: "distinct (map fst (sort_key snd (map (\<lambda>(name, e). (name, en_last_used e)) live)))"
    unfolding distinct_map [of fst] by (simp del: map_map)
  have old: "distinct (map fst old)" "fst ` set old \<subseteq> fst ` set live" "length old = min (length live) (length live + 1 - m)"
    using keys by (auto simp: old_def take_map [symmetric] split_beta dest!: in_set_takeD)
  have "length (filter (\<lambda>(k, _). k \<notin> fst ` set old) live) = length live - length old"
    using length_without [of live "map fst old"] live(1) old(1, 2) by simp
  moreover have "evict now m es = (if length live < m then live else filter (\<lambda>(k, _). k \<notin> fst ` set old) live)"
    unfolding evict_def Let_def live_def [symmetric] old_def [symmetric] fold_delete by simp
  ultimately show ?thesis
    using live old(3) distinct_map_filter_fst [OF live(1)] by auto
qed

section \<open>What the cache answers\<close>

definition cache_ok :: "dns_cache \<Rightarrow> bool" where
  "cache_ok c \<longleftrightarrow> distinct (map fst (dc_entries c)) \<and> length (dc_entries c) \<le> max 1 (dc_max_entries c)"

text \<open>Everything in the cache is what the resolver said about the name, with the time it holds.\<close>

definition told_by :: "network \<Rightarrow> nat \<Rightarrow> dns_cache \<Rightarrow> string \<Rightarrow> dns_answer \<Rightarrow> nat \<Rightarrow> bool" where
  "told_by nw now c host answer expires \<longleftrightarrow>
     (\<exists>asked took raw ttl. system_resolve nw host asked = (took, raw) \<and> asked + took \<le> now \<and>
        answer = resolved host raw \<and> remembered_for c answer = Some ttl \<and> expires = asked + took + ttl)"

definition cache_true :: "network \<Rightarrow> nat \<Rightarrow> dns_cache \<Rightarrow> bool" where
  "cache_true nw now c \<longleftrightarrow> cache_ok c \<and>
     (\<forall>(host, e) \<in> set (dc_entries c). told_by nw now c host (en_answer e) (en_expires_at e))"

definition same_settings :: "dns_cache \<Rightarrow> dns_cache \<Rightarrow> bool" where
  "same_settings c c' \<longleftrightarrow> dc_positive_ttl c' = dc_positive_ttl c \<and> dc_negative_ttl c' = dc_negative_ttl c \<and>
     dc_max_entries c' = dc_max_entries c"

lemma told_by_later: "told_by nw t c host a x \<Longrightarrow> t \<le> now \<Longrightarrow> same_settings c c' \<Longrightarrow> told_by nw now c' host a x"
  unfolding told_by_def remembered_for_def same_settings_def by (fastforce split: sum.splits if_splits)

lemma cache_true_later: "cache_true nw t c \<Longrightarrow> t \<le> now \<Longrightarrow> cache_true nw now c"
  unfolding cache_true_def using told_by_later [of nw t c _ _ _ now c] by (auto simp: same_settings_def)

lemma set_update_subset: "set (AList.update k v es) \<subseteq> insert (k, v) (set es)"
  by (induction es) auto

lemma length_update_le:
  "length (AList.update k v es) = (if k \<in> fst ` set es then length es else Suc (length es))"
  by (induction es) auto

lemma cache_lookup_true:
  assumes "cache_lookup now host c = (res, c')" and "cache_true nw now c"
  shows "cache_true nw now c' \<and> same_settings c c' \<and> (res = None \<longrightarrow> c' = c) \<and>
    (\<forall>answer. res = Some answer \<longrightarrow> (\<exists>x. now < x \<and> told_by nw now c host answer x))"
proof (cases "\<exists>e. map_of (dc_entries c) host = Some e \<and> now < en_expires_at e")
  case False
  then have "res = None \<and> c' = c"
    using assms(1) by (auto simp: cache_lookup_def split: option.splits if_splits)
  then show ?thesis using assms(2) by (simp add: same_settings_def)
next
  case True
  then obtain e where e: "map_of (dc_entries c) host = Some e" "now < en_expires_at e" by blast
  let ?e = "e\<lparr>en_last_used := used_at c now\<rparr>"
  have r: "res = Some (en_answer e)" and c': "c' = c\<lparr>dc_entries := AList.update host ?e (dc_entries c)\<rparr>"
    using assms(1) e by (auto simp: cache_lookup_def)
  have told: "told_by nw now c host (en_answer e) (en_expires_at e)"
    using assms(2) map_of_SomeD [OF e(1)] by (auto simp: cache_true_def)
  have same: "same_settings c c'" by (simp add: same_settings_def c')
  have "host \<in> fst ` set (dc_entries c)"
    using map_of_SomeD [OF e(1)] by force
  then have "cache_ok c'"
    using assms(2) by (simp add: cache_true_def cache_ok_def c' length_update_le distinct_update)
  moreover have "told_by nw now c' k (en_answer x) (en_expires_at x)" if "(k, x) \<in> set (dc_entries c')" for k x
    using that set_update_subset [of host ?e "dc_entries c"] told assms(2) told_by_later [OF _ order_refl same]
    by (fastforce simp: cache_true_def c')
  ultimately show ?thesis
    using r told e(2) same by (auto simp: cache_true_def)
qed

lemma remember_true:
  assumes "cache_true nw now c" and "told_by nw now c host answer (now + ttl)"
  shows "cache_true nw now (remember now host answer ttl c) \<and> same_settings c (remember now host answer ttl c)"
proof -
  let ?e = "\<lparr>en_answer = answer, en_expires_at = now + ttl, en_last_used = used_at c now\<rparr>"
  let ?es = "if length (dc_entries c) \<ge> dc_max_entries c then evict now (dc_max_entries c) (dc_entries c) else dc_entries c"
  let ?c = "remember now host answer ttl c"
  have c': "?c = c\<lparr>dc_entries := AList.update host ?e ?es\<rparr>"
    by (simp add: remember_def store_def Let_def)
  have d: "distinct (map fst (dc_entries c))"
    using assms(1) by (simp add: cache_true_def cache_ok_def)
  have es: "distinct (map fst ?es)" "set ?es \<subseteq> set (dc_entries c)" "length ?es \<le> dc_max_entries c - 1"
    using d evict_room [OF d, of now "dc_max_entries c"] by auto
  have same: "same_settings c ?c" by (simp add: same_settings_def c')
  have "cache_ok ?c"
    using es by (auto simp: cache_ok_def c' length_update_le distinct_update)
  moreover have "told_by nw now ?c k (en_answer x) (en_expires_at x)" if "(k, x) \<in> set (dc_entries ?c)" for k x
  proof -
    have "(k, x) = (host, ?e) \<or> (k, x) \<in> set (dc_entries c)"
      using that set_update_subset [of host ?e ?es] es(2) by (auto simp: c')
    then have "told_by nw now c k (en_answer x) (en_expires_at x)"
      using assms by (auto simp: cache_true_def)
    then show ?thesis by (rule told_by_later [OF _ order_refl same])
  qed
  ultimately show ?thesis
    using same by (auto simp: cache_true_def)
qed

lemma cache_resolve_true:
  assumes "cache_resolve nw now host c = (answer, now', c')" and "cache_true nw now c"
  shows "now \<le> now' \<and> cache_true nw now' c' \<and> same_settings c c' \<and>
    (system_resolve nw host now = (now' - now, snd (system_resolve nw host now)) \<and>
       answer = resolved host (snd (system_resolve nw host now)) \<or>
     now' = now \<and> (\<exists>x. now < x \<and> told_by nw now c host answer x))"
proof -
  obtain hit c1 where hit: "cache_lookup now host c = (hit, c1)" by (cases "cache_lookup now host c")
  note true1 = cache_lookup_true [OF hit assms(2)]
  show ?thesis
  proof (cases hit)
    case (Some a)
    then show ?thesis using assms(1) hit true1 by (auto simp: cache_resolve_def)
  next
    case None
    then have c1: "c1 = c" using true1 by simp
    obtain took raw where asked: "system_resolve nw host now = (took, raw)" by (cases "system_resolve nw host now")
    have run: "answer = resolved host raw" "now' = now + took"
      "c' = (case remembered_for c answer of Some ttl \<Rightarrow> remember now' host answer ttl c | None \<Rightarrow> c)"
      using assms(1) hit None c1 asked by (auto simp: cache_resolve_def resolve_once_def Let_def)
    have later: "cache_true nw now' c"
      using cache_true_later [OF assms(2)] run(2) by simp
    have "cache_true nw now' c' \<and> same_settings c c'"
    proof (cases "remembered_for c answer")
      case None
      then show ?thesis using later run(3) by (simp add: same_settings_def)
    next
      case (Some ttl)
      then have "told_by nw now' c host answer (now' + ttl)"
        using asked run by (auto simp: told_by_def)
      then show ?thesis
        using remember_true [OF later] Some run(3) by simp
    qed
    then show ?thesis using asked run by simp
  qed
qed

inductive dns_step :: "network \<Rightarrow> dns_cache \<times> nat \<Rightarrow> dns_cache \<times> nat \<Rightarrow> bool" for nw where
  asked: "t \<le> now \<Longrightarrow> cache_resolve nw now host c = (answer, now', c') \<Longrightarrow> dns_step nw (c, t) (c', now')"

lemma dns_reachable:
  "(dns_step nw)\<^sup>*\<^sup>* (c0, s) (c, t) \<Longrightarrow> cache_true nw s c0 \<Longrightarrow> cache_true nw t c \<and> same_settings c0 c"
proof (induction "(c, t)" arbitrary: c t rule: rtranclp_induct)
  case base
  then show ?case by (simp add: same_settings_def)
next
  case (step d)
  obtain d1 t1 where d: "d = (d1, t1)" by (cases d)
  with step have ih: "cache_true nw t1 d1" "same_settings c0 d1" by blast+
  from step(2) [unfolded d] show ?case
  proof cases
    case (asked now host answer)
    then show ?thesis
      using cache_resolve_true [OF asked(2) cache_true_later [OF ih(1) asked(1)]] ih(2)
      by (simp add: same_settings_def)
  qed
qed

lemma process_cache_true: "cache_true nw s (process_cache s)"
  by (simp add: cache_true_def cache_ok_def process_cache_def dns_cache_new_def)

text \<open>
  C20: whatever was asked before, an answer of the cache is either what the resolver says now, or what
  it said about the same name before, no longer ago than thirty seconds for addresses and five for a
  name that does not exist; a failure of the resolver itself is never repeated from memory. The cache never holds more
  names than its bound.
\<close>

theorem dns_answers_hold:
  assumes "(dns_step nw)\<^sup>*\<^sup>* (process_cache s, s) (c, t)" and "t \<le> now"
    and "cache_resolve nw now host c = (answer, now', c')"
  shows "length (dc_entries c') \<le> MAX_ENTRIES \<and>
    (system_resolve nw host now = (now' - now, snd (system_resolve nw host now)) \<and>
       answer = resolved host (snd (system_resolve nw host now)) \<or>
     now' = now \<and> (\<exists>asked took raw. system_resolve nw host asked = (took, raw) \<and> answer = resolved host raw \<and>
       asked + took \<le> now \<and>
       (case answer of
          Inr addrs \<Rightarrow> now < asked + took + POSITIVE_TTL
        | Inl e \<Rightarrow> is_not_found e \<and> now < asked + took + NEGATIVE_TTL)))"
proof -
  have "cache_true nw now c" and set0: "same_settings (process_cache s) c"
    using dns_reachable [OF assms(1) process_cache_true] cache_true_later assms(2) by blast+
  from cache_resolve_true [OF assms(3) this(1)] have res: "cache_true nw now' c'" "same_settings c c'"
    "system_resolve nw host now = (now' - now, snd (system_resolve nw host now)) \<and>
       answer = resolved host (snd (system_resolve nw host now)) \<or>
     now' = now \<and> (\<exists>x. now < x \<and> told_by nw now c host answer x)" by blast+
  have "dc_max_entries c' = MAX_ENTRIES" "dc_positive_ttl c = POSITIVE_TTL" "dc_negative_ttl c = NEGATIVE_TTL"
    using set0 res(2) by (simp_all add: same_settings_def process_cache_def dns_cache_new_def)
  then have len: "length (dc_entries c') \<le> MAX_ENTRIES"
    and held: "told_by nw now c host answer x \<Longrightarrow> now < x \<Longrightarrow>
      \<exists>asked took raw. system_resolve nw host asked = (took, raw) \<and> answer = resolved host raw \<and> asked + took \<le> now \<and>
       (case answer of
          Inr addrs \<Rightarrow> now < asked + took + POSITIVE_TTL
        | Inl e \<Rightarrow> is_not_found e \<and> now < asked + took + NEGATIVE_TTL)" for x
    using res(1) by (auto simp: cache_true_def cache_ok_def MAX_ENTRIES_def told_by_def remembered_for_def
        split: sum.splits if_splits)
  from res(3) len held show ?thesis by blast
qed

definition sample_network :: network where
  "sample_network =
     \<lparr>nw_lookup = \<lambda>_ _. (1, Inr (Inr [V4 7 0])), nw_dial = \<lambda>_ _. (1, True),
      nw_stream = \<lambda>_. \<lparr>di_reads = [], di_writes = \<lambda>_. None\<rparr>\<rparr>"

lemma sample_resolve:
  "cache_resolve sample_network 0 ''db'' (process_cache 0) =
     (Inr [V4 7 0], 1, (process_cache 0)\<lparr>dc_entries :=
        [(''db'', \<lparr>en_answer = Inr [V4 7 0], en_expires_at = 1 + POSITIVE_TTL, en_last_used = 1\<rparr>)]\<rparr>)"
  by (simp add: cache_resolve_def cache_lookup_def resolve_once_def system_resolve_def sample_network_def resolved_def
      remembered_for_def remember_def store_def process_cache_def dns_cache_new_def used_at_def MAX_ENTRIES_def
      Let_def)

theorem dns_answers_hold_witness:
  "\<exists>c c'. (dns_step sample_network)\<^sup>*\<^sup>* (process_cache 0, 0) (c, 1) \<and>
     cache_resolve sample_network 5 ''db'' c = (Inr [V4 7 0], 5, c') \<and> length (dc_entries c') \<le> MAX_ENTRIES"
proof -
  let ?c = "(process_cache 0)\<lparr>dc_entries :=
    [(''db'', \<lparr>en_answer = Inr [V4 7 0], en_expires_at = 1 + POSITIVE_TTL, en_last_used = 1\<rparr>)]\<rparr>"
  have "dns_step sample_network (process_cache 0, 0) (?c, 1)"
    using asked [OF le0 sample_resolve] by simp
  then have steps: "(dns_step sample_network)\<^sup>*\<^sup>* (process_cache 0, 0) (?c, 1)" by simp
  obtain c' where hit: "cache_resolve sample_network 5 ''db'' ?c = (Inr [V4 7 0], 5, c')"
    by (simp add: cache_resolve_def cache_lookup_def POSITIVE_TTL_def from_secs_def)
  have "1 \<le> (5 :: nat)" by simp
  from dns_answers_hold [OF steps this hit] steps hit show ?thesis by blast
qed

section \<open>One resolution at a time\<close>

text \<open>
  Callers that miss the cache meet at the flight of the name. The cell of a flight runs its initializer in one of them
  and gives the others the outcome; a caller that is cut off while it runs it leaves the cell as it was. A
  caller that leaves, with an outcome or without one, takes the flight out of the table if it is still there.
\<close>

datatype flight_cell = Idle | Running nat | Settled dns_answer

record flight_state =
  fs_cache :: dns_cache
  fs_table :: "string \<rightharpoonup> nat"
  fs_cells :: "flight_cell list"
  fs_callers :: "nat \<rightharpoonup> string \<times> nat"

definition flight :: "string \<Rightarrow> flight_state \<Rightarrow> nat \<times> flight_state" where
  "flight host st =
     (case fs_table st host of
        Some f \<Rightarrow> (f, st)
      | None \<Rightarrow>
          let f = length (fs_cells st) in
          (f, st\<lparr>fs_table := (fs_table st)(host \<mapsto> f), fs_cells := fs_cells st @ [Idle]\<rparr>))"

definition end_flight :: "string \<Rightarrow> nat \<Rightarrow> flight_state \<Rightarrow> flight_state" where
  "end_flight host f st =
     (if fs_table st host = Some f then st\<lparr>fs_table := (fs_table st)(host := None)\<rparr> else st)"

definition caller_leaves :: "nat \<Rightarrow> string \<Rightarrow> nat \<Rightarrow> flight_state \<Rightarrow> flight_state" where
  "caller_leaves k host f st = end_flight host f (st\<lparr>fs_callers := (fs_callers st)(k := None)\<rparr>)"

definition flight_start :: "dns_cache \<Rightarrow> flight_state" where
  "flight_start c = \<lparr>fs_cache = c, fs_table = Map.empty, fs_cells = [], fs_callers = Map.empty\<rparr>"

inductive flight_step :: "network \<Rightarrow> flight_state \<Rightarrow> flight_state \<Rightarrow> bool" for nw where
  found: "cache_lookup now host (fs_cache st) = (Some answer, c') \<Longrightarrow> flight_step nw st (st\<lparr>fs_cache := c'\<rparr>)"
| joins: "fs_callers st k = None \<Longrightarrow> cache_lookup now host (fs_cache st) = (None, c') \<Longrightarrow>
    flight host st = (f, st1) \<Longrightarrow> flight_step nw st (st1\<lparr>fs_callers := (fs_callers st1)(k \<mapsto> (host, f))\<rparr>)"
| begins: "fs_callers st k = Some (host, f) \<Longrightarrow> fs_cells st ! f = Idle \<Longrightarrow>
    cache_lookup now host (fs_cache st) = (None, c') \<Longrightarrow>
    flight_step nw st (st\<lparr>fs_cells := (fs_cells st)[f := Running k]\<rparr>)"
| begins_found: "fs_callers st k = Some (host, f) \<Longrightarrow> fs_cells st ! f = Idle \<Longrightarrow>
    cache_lookup now host (fs_cache st) = (Some answer, c') \<Longrightarrow>
    flight_step nw st (st\<lparr>fs_cache := c', fs_cells := (fs_cells st)[f := Settled answer]\<rparr>)"
| settles: "fs_callers st k = Some (host, f) \<Longrightarrow> fs_cells st ! f = Running k \<Longrightarrow>
    system_resolve nw host began = (took, raw) \<Longrightarrow> answer = resolved host raw \<Longrightarrow>
    flight_step nw st (st\<lparr>fs_cells := (fs_cells st)[f := Settled answer],
      fs_cache := (case remembered_for (fs_cache st) answer of
         Some ttl \<Rightarrow> remember (began + took) host answer ttl (fs_cache st) | None \<Rightarrow> fs_cache st)\<rparr>)"
| leaves: "fs_callers st k = Some (host, f) \<Longrightarrow> fs_cells st ! f = Settled answer \<Longrightarrow>
    flight_step nw st (caller_leaves k host f st)"

text \<open>A caller whose own deadline passes while it waits.\<close>

inductive cancel_step :: "flight_state \<Rightarrow> flight_state \<Rightarrow> bool" where
  cancels: "fs_callers st k = Some (host, f) \<Longrightarrow>
    cancel_step st (caller_leaves k host f
      (st\<lparr>fs_cells := (if fs_cells st ! f = Running k then (fs_cells st)[f := Idle] else fs_cells st)\<rparr>))"

definition resolves_for :: "flight_state \<Rightarrow> string \<Rightarrow> nat \<Rightarrow> bool" where
  "resolves_for st host k \<longleftrightarrow> (\<exists>f. fs_callers st k = Some (host, f) \<and> fs_cells st ! f = Running k)"

definition flights_ok :: "flight_state \<Rightarrow> bool" where
  "flights_ok st \<longleftrightarrow>
     (\<forall>host f. fs_table st host = Some f \<longrightarrow> f < length (fs_cells st)) \<and>
     (\<forall>k host f. fs_callers st k = Some (host, f) \<longrightarrow> f < length (fs_cells st) \<and>
        ((\<forall>answer. fs_cells st ! f \<noteq> Settled answer) \<longrightarrow> fs_table st host = Some f))"

lemma flights_ok_cells:
  assumes "flights_ok st" and "\<And>g. \<forall>answer. cells ! g \<noteq> Settled answer \<Longrightarrow> \<forall>answer. fs_cells st ! g \<noteq> Settled answer"
    and "length cells = length (fs_cells st)"
  shows "flights_ok (st\<lparr>fs_cells := cells\<rparr>)"
  using assms by (simp add: flights_ok_def)

lemma settled_stays:
  "\<forall>answer. fs_cells st ! f \<noteq> Settled answer \<Longrightarrow> \<forall>answer. (fs_cells st)[f := x] ! g \<noteq> Settled answer \<Longrightarrow>
     \<forall>answer. fs_cells st ! g \<noteq> Settled answer"
  by (cases "g = f") auto

lemma flights_ok_cell:
  "flights_ok st \<Longrightarrow> \<forall>answer. fs_cells st ! f \<noteq> Settled answer \<Longrightarrow> flights_ok (st\<lparr>fs_cells := (fs_cells st)[f := x]\<rparr>)"
  by (rule flights_ok_cells) (auto dest: settled_stays)

lemma flights_ok_cache [simp]: "flights_ok (st\<lparr>fs_cache := c\<rparr>) = flights_ok st"
  by (simp add: flights_ok_def)

lemma flights_ok_join:
  assumes "flights_ok st" and "flight host st = (f, st1)"
  shows "flights_ok (st1\<lparr>fs_callers := (fs_callers st1)(k \<mapsto> (host, f))\<rparr>)"
proof (cases "fs_table st host")
  case (Some g)
  then show ?thesis using assms by (auto simp: flight_def flights_ok_def)
next
  case None
  then have "f = length (fs_cells st)"
    "st1 = st\<lparr>fs_table := (fs_table st)(host \<mapsto> f), fs_cells := fs_cells st @ [Idle]\<rparr>"
    using assms(2) by (auto simp: flight_def Let_def)
  then show ?thesis
    using assms(1) None by (fastforce simp: flights_ok_def nth_append less_Suc_eq)
qed

lemma flights_ok_leave:
  "flights_ok st \<Longrightarrow> fs_cells st ! f = Settled answer \<Longrightarrow> flights_ok (caller_leaves k host f st)"
  unfolding flights_ok_def caller_leaves_def end_flight_def by auto (metis option.inject)

lemma flights_ok_step: "flight_step nw st st' \<Longrightarrow> flights_ok st \<Longrightarrow> flights_ok st'"
proof (induction rule: flight_step.induct)
  case (joins st k now host c' f st1)
  then show ?case by (simp add: flights_ok_join)
next
  case (begins_found st k host f now answer c')
  then show ?case using flights_ok_cell [of "st\<lparr>fs_cache := c'\<rparr>" f "Settled answer"] by simp
next
  case (settles st k host f began took raw answer)
  then show ?case using flights_ok_cell [of st f "Settled answer"] flights_ok_cache by simp
qed (auto intro: flights_ok_cell flights_ok_leave)

lemma flights_ok_reachable: "(flight_step nw)\<^sup>*\<^sup>* st st' \<Longrightarrow> flights_ok st \<Longrightarrow> flights_ok st'"
  by (induction rule: rtranclp_induct) (auto dest: flights_ok_step)

lemma flights_ok_start: "flights_ok (flight_start c)"
  by (simp add: flights_ok_def flight_start_def)

lemma flights_ok_one: "flights_ok st \<Longrightarrow> resolves_for st host k \<Longrightarrow> resolves_for st host l \<Longrightarrow> k = l"
proof -
  assume ok: "flights_ok st" and "resolves_for st host k" "resolves_for st host l"
  then obtain f g where f: "fs_callers st k = Some (host, f)" "fs_cells st ! f = Running k"
    and g: "fs_callers st l = Some (host, g)" "fs_cells st ! g = Running l"
    unfolding resolves_for_def by blast
  have "fs_callers st k = Some (host, f) \<Longrightarrow> fs_cells st ! f = Running k \<Longrightarrow> fs_table st host = Some f" for k f
    using ok unfolding flights_ok_def by (metis flight_cell.distinct(5))
  from this [OF f] this [OF g] have "f = g" by simp
  with f(2) g(2) show "k = l" by simp
qed


text \<open>
  A caller that gives up takes the flight out of the table while others still wait on it: one of them then
  resolves, and so does the next caller, at the same time.
\<close>

lemma miss_of_empty: "dc_entries c = [] \<Longrightarrow> cache_lookup now host c = (None, c)"
  by (simp add: cache_lookup_def)

lemma flight_joins:
  "fs_callers st k = None \<Longrightarrow> dc_entries (fs_cache st) = [] \<Longrightarrow>
     flight_step nw st ((snd (flight host st))\<lparr>fs_callers := (fs_callers (snd (flight host st)))(k \<mapsto> (host, fst (flight host st)))\<rparr>)"
  using joins [of st k 0 host "fs_cache st"] miss_of_empty by (metis prod.collapse)

lemma flight_steps_sample:
  defines "st \<equiv> \<lparr>fs_cache = process_cache 0, fs_table = [''db'' \<mapsto> 0], fs_cells = [Running 0],
      fs_callers = [0 \<mapsto> (''db'', 0), 1 \<mapsto> (''db'', 0)]\<rparr>"
  shows "(flight_step nw)\<^sup>*\<^sup>* (flight_start (process_cache 0)) st"
proof -
  have empty: "dc_entries (process_cache 0) = []"
    by (simp add: process_cache_def dns_cache_new_def)
  note miss = miss_of_empty [OF empty, of 0 "''db''"]
  let ?one = "\<lparr>fs_cache = process_cache 0, fs_table = [''db'' \<mapsto> 0], fs_cells = [Idle], fs_callers = [0 \<mapsto> (''db'', 0)]\<rparr>"
  let ?two = "?one\<lparr>fs_callers := [0 \<mapsto> (''db'', 0), 1 \<mapsto> (''db'', 0)]\<rparr>"
  have "flight_step nw (flight_start (process_cache 0)) ?one"
    using flight_joins [of "flight_start (process_cache 0)" 0 nw "''db''"] empty
    by (simp add: flight_start_def flight_def)
  moreover have "flight_step nw ?one ?two"
    using flight_joins [of ?one 1 nw "''db''"] empty by (simp add: flight_def)
  moreover have "flight_step nw ?two st"
    using begins [of ?two 0 "''db''" 0 0] miss by (simp add: st_def)
  ultimately show ?thesis by (meson converse_rtranclp_into_rtranclp rtranclp.rtrancl_refl)
qed


lemma cancelled_flight_resolves_twice:
  "\<exists>st. (sup (flight_step nw) cancel_step)\<^sup>*\<^sup>* (flight_start (process_cache 0)) st \<and>
     resolves_for st ''db'' 1 \<and> resolves_for st ''db'' 2"
proof -
  let ?r = "sup (flight_step nw) cancel_step"
  have empty: "dc_entries (process_cache 0) = []"
    by (simp add: process_cache_def dns_cache_new_def)
  note miss = miss_of_empty [OF empty, of 0 "''db''"]
  let ?a = "\<lparr>fs_cache = process_cache 0, fs_table = [''db'' \<mapsto> 0], fs_cells = [Running 0],
      fs_callers = [0 \<mapsto> (''db'', 0), 1 \<mapsto> (''db'', 0)]\<rparr>"
  let ?b = "\<lparr>fs_cache = process_cache 0, fs_table = Map.empty, fs_cells = [Idle], fs_callers = [1 \<mapsto> (''db'', 0)]\<rparr>"
  let ?c = "?b\<lparr>fs_cells := [Running 1]\<rparr>"
  let ?d = "?c\<lparr>fs_table := [''db'' \<mapsto> 1], fs_cells := [Running 1, Idle], fs_callers := [1 \<mapsto> (''db'', 0), 2 \<mapsto> (''db'', 1)]\<rparr>"
  let ?e = "?d\<lparr>fs_cells := [Running 1, Running 2]\<rparr>"
  have "?r\<^sup>*\<^sup>* (flight_start (process_cache 0)) ?a"
    using flight_steps_sample [of nw] by (rule rtranclp_mono [THEN predicate2D, rotated]) simp
  moreover have "?r ?a ?b"
    using cancels [of ?a 0 "''db''" 0] by (simp add: caller_leaves_def end_flight_def fun_upd_twist)
  moreover have "?r ?b ?c"
    using begins [of ?b 1 "''db''" 0 0] miss by simp
  moreover have "?r ?c ?d"
    using flight_joins [of ?c 2 nw "''db''"] empty by (simp add: flight_def)
  moreover have "?r ?d ?e"
    using begins [of ?d 2 "''db''" 1 0] miss by simp
  ultimately have "?r\<^sup>*\<^sup>* (flight_start (process_cache 0)) ?e"
    by (meson rtranclp.rtrancl_into_rtrancl)
  then show ?thesis
    by (intro exI [of _ ?e]) (simp add: resolves_for_def)
qed

end
