(* ===== verification/Nexa_Passthrough.thy ===== *)
theory Nexa_Passthrough
  imports Nexa_Dns Nexa_Routes
begin

text \<open>
  TLS sessions that are copied and not terminated, \<open>crates/nexapipe/src/passthrough.rs\<close>: reading the first
  record, choosing the backend by the name in it, the dial and the copy.
\<close>

section \<open>The first record\<close>

definition MAX_HANDSHAKE_LEN :: nat where "MAX_HANDSHAKE_LEN = 16 * 1024"

definition first_record_end :: "bytes \<Rightarrow> nat option" where
  "first_record_end buf =
     (if length buf < 5 then None
      else Some (5 + (push_bit 8 (unat (buf ! 3)) OR unat (buf ! 4))))"

function read_tls_record ::
    "reader_events \<Rightarrow> bytes \<Rightarrow> nat \<Rightarrow> nat \<Rightarrow> (io_error + bytes) \<times> nat \<times> reader_events" where
  "read_tls_record rd buf deadline now =
     (case first_record_end buf of
        None \<Rightarrow>
          if length buf > MAX_HANDSHAKE_LEN then (Inl (InvalidData, ''TLS ClientHello header not received''), now, rd)
          else
            (case read_more_by rd buf deadline now of
               (Inl e, buf', now', rd') \<Rightarrow> (Inl e, now', rd')
             | (Inr False, buf', now', rd') \<Rightarrow> (Inr buf', now', rd')
             | (Inr True, buf', now', rd') \<Rightarrow> read_tls_record rd' buf' deadline now')
      | Some record_end \<Rightarrow>
          if length buf \<ge> record_end then (Inr buf, now, rd)
          else if record_end > MAX_HANDSHAKE_LEN then
            (Inl (InvalidData, ''TLS record larger than a ClientHello can be''), now, rd)
          else
            (case read_more_by rd buf deadline now of
               (Inl e, buf', now', rd') \<Rightarrow> (Inl e, now', rd')
             | (Inr False, buf', now', rd') \<Rightarrow> (Inr buf', now', rd')
             | (Inr True, buf', now', rd') \<Rightarrow> read_tls_record rd' buf' deadline now'))"
  by pat_completeness auto
termination
  by (relation "measure (\<lambda>(rd, buf, deadline, now). pending rd)") (auto dest: read_more_by_pending [OF sym])

declare read_tls_record.simps [simp del]

section \<open>The backend of a session\<close>

definition resolve_backend ::
    "(string \<Rightarrow> string + parsed_url) \<Rightarrow> nat \<Rightarrow> u64 \<Rightarrow> bytes \<Rightarrow> client_acl option \<Rightarrow> routing_table \<Rightarrow>
      (string \<times> u16 \<times> lease_ref) option \<times> routing_table" where
  "resolve_backend url_parse now rand handshake acl st =
     (case extract_sni handshake of
        None \<Rightarrow> (None, st)
      | Some sni \<Rightarrow>
          if (case acl of Some a \<Rightarrow> \<not> acl_allows a sni | None \<Rightarrow> False) then (None, st)
          else
            let (found, st1) = get_passthrough_backend now rand sni st in
            (case lookup_backend found of
               None \<Rightarrow> (None, st1)
             | Some l \<Rightarrow>
                 let url = be_url (leased_entry l st1) in
                 if (case (acl, backend_port url_parse url) of
                       (Some a, Some p) \<Rightarrow> \<not> acl_allows_backend_port a p | _ \<Rightarrow> False)
                 then (None, release l st1)
                 else
                   (case passthrough_backend_addr url_parse url of
                      None \<Rightarrow> (None, release l st1)
                    | Some (host, port) \<Rightarrow> (Some (host, port, l), st1))))"

section \<open>The session\<close>

definition copy_tls_session ::
    "byte_budget \<Rightarrow> nat \<Rightarrow> (nat \<Rightarrow> io_error option) \<Rightarrow> (nat \<Rightarrow> io_error option) \<Rightarrow> reader_events \<Rightarrow> reader_events \<Rightarrow>
      (nat \<times> (io_error + unit)) list \<times> byte_budget" where
  "copy_tls_session body_budget now to_backend to_client client backend =
     (let (outs, budget') = copy_both_ways body_budget now to_backend to_client client backend in
      (map (\<lambda>(t, r). (t, case r of Inl (kind, msg) \<Rightarrow> if kind = TimedOut then Inr () else r | Inr _ \<Rightarrow> r)) outs,
       budget'))"

text \<open>
  The outcomes of a session with the bytes the backend was sent before the copy, and the table and the process
  afterwards: the lease is held for as long as the copy runs and given back with it.
\<close>

definition handle_tls_stream ::
    "(string \<Rightarrow> string + parsed_url) \<Rightarrow> network \<Rightarrow> nat \<Rightarrow> u64 \<Rightarrow> (nat \<Rightarrow> io_error option) \<Rightarrow> reader_events \<Rightarrow> bytes \<Rightarrow>
      client_acl option \<Rightarrow> routing_table \<times> process_state \<Rightarrow>
      (bytes \<times> (nat \<times> (session_error + unit)) list) \<times> routing_table \<times> process_state" where
  "handle_tls_stream url_parse nw now rand to_client client initial acl s =
     (let (st, ps) = s in
      case read_tls_record client initial (now + dl_tls_hello (to_deadlines (px_timeouts st))) now of
        (Inl e, now1, client1) \<Rightarrow> (([], [(now1, Inl (SessionIo e))]), st, ps)
      | (Inr handshake, now1, client1) \<Rightarrow>
          (case resolve_backend url_parse now1 rand handshake acl st of
             (None, st1) \<Rightarrow> (([], [(now1, Inr ())]), st1, ps)
           | (Some (host, port, l), st1) \<Rightarrow>
               (case connect nw host port (to_connect (px_timeouts st)) now1 (ps_dns ps) of
                  (Inl e, now2, dns) \<Rightarrow> (([], [(now2, Inl (SessionDial e))]), release l st1, ps\<lparr>ps_dns := dns\<rparr>)
                | (Inr backend, now2, dns) \<Rightarrow>
                    (case di_writes backend 0 of
                       Some e \<Rightarrow> (([], [(now2, Inl (SessionIo e))]), release l st1, ps\<lparr>ps_dns := dns\<rparr>)
                     | None \<Rightarrow>
                         let (outs, budget) = copy_tls_session (ps_budget ps) now2 (\<lambda>k. di_writes backend (Suc k)) to_client
                               client1 (di_reads backend)
                         in ((handshake, map (map_prod id (map_sum SessionIo id)) outs), release l st1,
                             ps\<lparr>ps_budget := budget, ps_dns := dns\<rparr>)))))"

definition handle_iroh_stream where
  "handle_iroh_stream url_parse nw now rand to_client client initial acl s =
     handle_tls_stream url_parse nw now rand to_client client initial acl s"

definition handle_tcp_stream where
  "handle_tcp_stream url_parse nw now rand to_client client initial s =
     handle_tls_stream url_parse nw now rand to_client client initial None s"

section \<open>Properties of the record reader\<close>

definition record_complete :: "bytes \<Rightarrow> bool" where
  "record_complete buf \<longleftrightarrow> (\<exists>e. first_record_end buf = Some e \<and> e \<le> length buf)"

lemma first_record_end_append: "first_record_end buf = Some e \<Longrightarrow> first_record_end (buf @ more_bytes) = Some e"
  by (auto simp: first_record_end_def nth_append split: if_splits)

lemma record_complete_append: "record_complete buf \<Longrightarrow> record_complete (buf @ more_bytes)"
  by (auto simp: record_complete_def dest: first_record_end_append)

text \<open>Whether the reader goes on: the record is not there yet and may still be a hello.\<close>

definition wants_more :: "bytes \<Rightarrow> bool" where
  "wants_more buf \<longleftrightarrow>
     (case first_record_end buf of
        None \<Rightarrow> length buf \<le> MAX_HANDSHAKE_LEN
      | Some e \<Rightarrow> length buf < e \<and> e \<le> MAX_HANDSHAKE_LEN)"

lemma wants_more_len: "wants_more buf \<Longrightarrow> length buf \<le> MAX_HANDSHAKE_LEN \<and> \<not> record_complete buf"
  by (auto simp: wants_more_def record_complete_def split: option.splits)

lemma read_tls_record_more:
  "wants_more buf \<Longrightarrow> read_tls_record rd buf deadline now =
     (case read_more_by rd buf deadline now of
        (Inl e, buf', now', rd') \<Rightarrow> (Inl e, now', rd')
      | (Inr False, buf', now', rd') \<Rightarrow> (Inr buf', now', rd')
      | (Inr True, buf', now', rd') \<Rightarrow> read_tls_record rd' buf' deadline now')"
  by (subst read_tls_record.simps) (auto simp: wants_more_def split: option.splits)

lemma header_short: "first_record_end buf = None \<Longrightarrow> length buf \<le> MAX_HANDSHAKE_LEN"
  by (auto simp: first_record_end_def MAX_HANDSHAKE_LEN_def split: if_splits)

lemma read_tls_record_stop:
  "\<not> wants_more buf \<Longrightarrow> read_tls_record rd buf deadline now =
     (if record_complete buf then Inr buf else Inl (InvalidData, ''TLS record larger than a ClientHello can be''), now, rd)"
  by (subst read_tls_record.simps)
     (auto simp: wants_more_def record_complete_def dest: header_short split: option.splits)

text \<open>Everything that can come of reading the record.\<close>

lemma read_tls_record_spec:
  assumes "now \<le> deadline" and "read_tls_record rd buf deadline now = (res, now', rd')"
  shows "now' \<le> deadline \<and>
    (case res of
       Inr out \<Rightarrow> prefix buf out \<and> prefix out (buf @ arrived deadline rd) \<and>
         (record_complete out \<or> out = buf @ arrived deadline rd \<and> \<not> breaks deadline rd) \<and>
         length out \<le> max (length buf) (MAX_HANDSHAKE_LEN + CHUNK)
     | Inl e \<Rightarrow>
         (\<exists>n. first_record_end (buf @ arrived deadline rd) = Some n \<and> MAX_HANDSHAKE_LEN < n) \<or>
         breaks deadline rd \<and> \<not> record_complete (buf @ arrived deadline rd))"
  using assms
proof (induction "pending rd" arbitrary: rd buf now rule: less_induct)
  case less
  show ?case
  proof (cases "wants_more buf")
    case False
    show ?thesis
    proof (cases "record_complete buf")
      case True
      then show ?thesis
        using less(2, 3) False by (auto simp: read_tls_record_stop)
    next
      case nc: False
      with False obtain n where "first_record_end buf = Some n" "MAX_HANDSHAKE_LEN < n"
        by (auto simp: wants_more_def record_complete_def dest: header_short split: option.splits)
      then show ?thesis
        using less(2, 3) False nc first_record_end_append [of buf n]
        by (auto simp: read_tls_record_stop)
    qed
  next
    case True
    show ?thesis
      using less(2)
    proof (cases rule: read_more_by_cases [where rd = rd and buf = buf])
      case (more bs now1 rd1)
      then have rec: "read_tls_record rd1 (buf @ bs) deadline now1 = (res, now', rd')"
        using less(3) by (simp add: read_tls_record_more [OF True])
      have "pending rd1 < pending rd"
        using read_more_by_pending [OF more(1)] .
      from less(1) [OF this more(4) rec] show ?thesis
        using more wants_more_len [OF True]
        by (cases res) (auto dest: append_prefixD)
    next
      case (quiet now1 rd1)
      then show ?thesis
        using less(2, 3) by (auto simp: read_tls_record_more [OF True])
    next
      case (failed e now1 rd1)
      then show ?thesis
        using less(2, 3) wants_more_len [OF True] by (auto simp: read_tls_record_more [OF True])
    qed
  qed
qed

lemma prefix_record_end:
  assumes "prefix out data" and "first_record_end out = Some n"
  shows "first_record_end data = Some n"
  using assms by (auto simp: prefix_def dest: first_record_end_append)

lemma be16_push_bit: "push_bit 8 (unat (a :: u8)) OR unat (b :: u8) = unat (of_be16 a b)"
proof -
  have a: "take_bit 8 (unat a) = unat a" "take_bit 16 (unat b) = unat b"
    using unsigned_less [of a, where 'a = nat] unsigned_less [of b, where 'a = nat] by (simp_all add: take_bit_nat_eq_self_iff)
  have "unat (of_be16 a b) = take_bit 16 (push_bit 8 (take_bit 16 (unat a))) OR take_bit 16 (unat b)"
    by (simp add: of_be16_def unsigned_or_eq unsigned_push_bit_eq unsigned_ucast_eq)
  also have "take_bit 16 (push_bit 8 (take_bit 16 (unat a))) = push_bit 8 (take_bit 8 (unat a))"
    by (simp add: take_bit_push_bit)
  finally show ?thesis using a by simp
qed

text \<open>
  C22: reading the first record. When the whole record arrives by the deadline and is no larger than a hello can
  be, the reader returns it however it was cut into segments, with the name that is in it; it returns by the
  deadline in every case, never holds more than the size of a hello and one read beyond it, unless it was
  handed more, and gives back an unfinished record only when nothing more arrived.
\<close>

theorem tls_record_read:
  assumes "now \<le> deadline" and "read_tls_record rd buf deadline now = (res, now', rd')"
  shows "now' \<le> deadline \<and>
    (record_complete (buf @ arrived deadline rd) \<and>
     (\<forall>n. first_record_end (buf @ arrived deadline rd) = Some n \<longrightarrow> n \<le> MAX_HANDSHAKE_LEN) \<longrightarrow>
       (\<exists>out. res = Inr out \<and> record_complete out \<and> extract_sni out = extract_sni (buf @ arrived deadline rd))) \<and>
    (\<forall>out. res = Inr out \<longrightarrow> prefix buf out \<and> prefix out (buf @ arrived deadline rd) \<and>
       (record_complete out \<or> out = buf @ arrived deadline rd) \<and>
       length out \<le> max (length buf) (MAX_HANDSHAKE_LEN + CHUNK))"
proof (intro conjI impI allI)
  note spec = read_tls_record_spec [OF assms]
  then show "now' \<le> deadline" by simp
  show "prefix buf out" "prefix out (buf @ arrived deadline rd)" "record_complete out \<or> out = buf @ arrived deadline rd"
    "length out \<le> max (length buf) (MAX_HANDSHAKE_LEN + CHUNK)" if "res = Inr out" for out
    using spec that by simp_all blast
  let ?data = "buf @ arrived deadline rd"
  assume whole: "record_complete ?data \<and> (\<forall>n. first_record_end ?data = Some n \<longrightarrow> n \<le> MAX_HANDSHAKE_LEN)"
  have "\<nexists>e. res = Inl e"
    using spec whole by auto
  then obtain out where res: "res = Inr out"
    by (cases res) simp_all
  have out: "prefix out ?data" "record_complete out \<or> out = ?data"
    using spec unfolding res by simp_all blast
  with whole have complete: "record_complete out" by metis
  obtain rest where data: "?data = out @ rest"
    using out(1) by (rule prefixE)
  obtain n where n: "first_record_end out = Some n" "n \<le> length out"
    using complete unfolding record_complete_def by blast
  then have len: "5 \<le> length out" "n = 5 + unat (of_be16 (out ! 3) (out ! 4))"
    unfolding first_record_end_def be16_push_bit by (simp_all split: if_splits)
  have "out \<noteq> []" using len(1) by auto
  then have "extract_sni (out @ rest) = extract_sni out"
    using len n(2) unfolding extract_sni_record [of "out @ rest"] extract_sni_record [of out]
    by (simp add: nth_append)
  then have "extract_sni out = extract_sni ?data"
    by (simp only: data)
  then show "\<exists>out. res = Inr out \<and> record_complete out \<and> extract_sni out = extract_sni ?data"
    by (intro exI [of _ out] conjI res complete)
qed

theorem tls_record_read_witness:
  "\<exists>out now' rd'. read_tls_record [(3, Inr [3, 1]), (7, Inr [0, 1, 9, 8]), (99, Inr [7])] [0x16] 50 0 = (Inr out, now', rd') \<and>
     record_complete out \<and> now' \<le> 50"
proof -
  let ?rd = "[(3, Inr [3, 1]), (7, Inr [0, 1, 9, 8]), (99, Inr [7])] :: reader_events"
  obtain res now' rd' where run: "read_tls_record ?rd [0x16] 50 0 = (res, now', rd')"
    by (cases "read_tls_record ?rd [0x16] 50 0")
  have data: "[0x16] @ arrived 50 ?rd = [0x16, 3, 1, 0, 1, 9, 8]"
    by simp
  have fe: "first_record_end [0x16, 3, 1, 0, 1, 9, 8] = Some 6"
    by (simp add: first_record_end_def)
  then have "record_complete ([0x16] @ arrived 50 ?rd)"
    unfolding data by (simp add: record_complete_def)
  moreover have "6 \<le> MAX_HANDSHAKE_LEN"
    by (simp add: MAX_HANDSHAKE_LEN_def)
  ultimately obtain out where "res = Inr out" "record_complete out" "now' \<le> 50"
    using tls_record_read [OF _ run] fe unfolding data by auto
  with run show ?thesis by blast
qed

section \<open>Properties of the choice\<close>

text \<open>What choosing a backend can come to.\<close>

lemma resolve_backend_spec:
  assumes "resolve_backend url_parse now rand handshake acl st = (res, st')" and "table_ok st"
  shows "case res of
      Some (host, port, l) \<Rightarrow>
        \<exists>sni r. extract_sni handshake = Some sni \<and>
          (\<forall>a. acl = Some a \<longrightarrow> acl_allows a sni \<and> acl_allows_backend_port a port) \<and>
          passthrough_route sni st = Some r \<and> leased_between now st st' r l \<and>
          passthrough_backend_addr url_parse (be_url (leased_entry l st)) = Some (host, port)
    | None \<Rightarrow> \<forall>l. in_flight_at st' l = in_flight_at st l"
proof (cases "\<exists>sni. extract_sni handshake = Some sni \<and> (\<forall>a. acl = Some a \<longrightarrow> acl_allows a sni)")
  case False
  have "res = None \<and> st' = st"
  proof (cases "extract_sni handshake")
    case None
    then show ?thesis using assms(1) by (simp add: resolve_backend_def)
  next
    case (Some sni)
    with False have "case acl of Some a \<Rightarrow> \<not> acl_allows a sni | None \<Rightarrow> False"
      by (auto split: option.split)
    then show ?thesis using assms(1) Some by (simp add: resolve_backend_def)
  qed
  then show ?thesis by simp
next
  case True
  then obtain sni where sni: "extract_sni handshake = Some sni" and acl: "\<forall>a. acl = Some a \<longrightarrow> acl_allows a sni"
    by blast
  obtain found st1 where got: "get_passthrough_backend now rand sni st = (found, st1)"
    by (cases "get_passthrough_backend now rand sni st")
  note spec = get_passthrough_backend_spec [OF got assms(2)]
  have ok: "\<not> (case acl of Some a \<Rightarrow> \<not> acl_allows a sni | None \<Rightarrow> False)"
    using acl by (auto split: option.split)
  show ?thesis
  proof (cases found)
    case (Found l)
    from spec Found obtain r where r: "passthrough_route sni st = Some r" and leased: "leased_between now st st1 r l"
      by auto
    have url: "be_url (leased_entry l st1) = be_url (leased_entry l st)"
      using leased by (simp add: leased_between_def)
    let ?refused = "case (acl, backend_port url_parse (be_url (leased_entry l st))) of
        (Some a, Some p) \<Rightarrow> \<not> acl_allows_backend_port a p | _ \<Rightarrow> False"
    have eq: "(if ?refused then (None, release l st1)
        else case passthrough_backend_addr url_parse (be_url (leased_entry l st)) of
          None \<Rightarrow> (None, release l st1) | Some (host, port) \<Rightarrow> (Some (host, port, l), st1)) = (res, st')"
      using assms(1) sni ok got Found unfolding url [symmetric]
      by (simp add: resolve_backend_def lookup_backend_def Let_def)
    show ?thesis
    proof (cases "?refused \<or> passthrough_backend_addr url_parse (be_url (leased_entry l st)) = None")
      case True
      then have "res = None" "st' = release l st1"
        using eq by (auto split: if_splits)
      then show ?thesis
        using release_leased [OF leased] by simp
    next
      case False
      then obtain host port where addr: "passthrough_backend_addr url_parse (be_url (leased_entry l st)) = Some (host, port)"
        and nr: "\<not> ?refused" by auto
      then have "res = Some (host, port, l)" "st' = st1"
        using eq by auto
      moreover have "\<forall>a. acl = Some a \<longrightarrow> acl_allows_backend_port a port"
        using nr addr by (auto simp: backend_port_def)
      ultimately show ?thesis
        using sni acl r leased addr by auto
    qed
  qed (use assms(1) sni ok got spec in \<open>auto simp: resolve_backend_def lookup_backend_def\<close>)
qed

text \<open>
  C25: a TLS session is given a backend only when its hello names a host the client may reach, the
  backend serves in the pool of the best passthrough route for that name, and the port that is dialled is one
  the client may reach, the check and the dial reading the same address of the same backend. When it is given
  none, for whatever reason, no session is left counted.
\<close>

theorem passthrough_resolves:
  assumes "resolve_backend url_parse now rand handshake acl st = (res, st')" and "table_ok st"
  shows "case res of
      Some (host, port, l) \<Rightarrow>
        \<exists>sni r. extract_sni handshake = Some sni \<and>
          (\<forall>a. acl = Some a \<longrightarrow> acl_allows a sni \<and> acl_allows_backend_port a port) \<and>
          passthrough_route sni st = Some r \<and> leased_between now st st' r l \<and>
          passthrough_backend_addr url_parse (be_url (leased_entry l st)) = Some (host, port)
    | None \<Rightarrow> \<forall>l. in_flight_at st' l = in_flight_at st l"
  using assms by (rule resolve_backend_spec)

lemma sample_resolves:
  "\<exists>st'. resolve_backend (\<lambda>_. Inl ''no'') 0 0 (hello_bytes sample_hello) (Some sample_acl) sample_table =
     (Some (''10.0.0.5'', 8080, (0, 0)), st')"
proof -
  have sni: "extract_sni (hello_bytes sample_hello) = Some ''a.b''"
    using extract_sni_hello_bytes [OF sample_hello_wf, of "[]"] by (simp add: sample_hello_sni)
  have route: "best_match (px_routes sample_table) MPassthrough (\<lambda>r. serves_host r (normalize_host ''a.b'')) =
      Some (sample_route ''*.b'' ''/api'' 0)"
    unfolding sample_table_simps by code_simp
  obtain st1 where sel: "select_from 0 0 [] 0 sample_table = (Some 0, st1)"
    using sample_select_from by (cases "select_from 0 0 [] 0 sample_table") auto
  have got: "get_passthrough_backend 0 0 ''a.b'' sample_table = (Found (0, 0), st1)"
    using sel unfolding get_passthrough_backend_def Let_def route by (simp add: sample_route_def)
  have "0 < length (px_pools sample_table)"
    by (simp add: sample_table_simps)
  from selected_from [OF sel this]
  have "be_url (leased_entry (0, 0) st1) = be_url (leased_entry (0, 0) sample_table)"
    by simp
  also have "\<dots> = ''10.0.0.5:8080''"
    by (simp add: leased_entry_def sample_table_simps pool_new_def backend_entry_new_def)
  finally have url: "be_url (leased_entry (0, 0) st1) = ''10.0.0.5:8080''" .
  have "acl_allows sample_acl ''a.b''" and "acl_allows_backend_port sample_acl 8080"
    using sample_admits sample_served_port
    by (simp_all add: acl_admits_def served_port_ok_def backend_port_def sample_backend_addr)
  then show ?thesis
    by (simp add: resolve_backend_def sni got lookup_backend_def Let_def url backend_port_def sample_backend_addr)
qed

theorem passthrough_resolves_witness:
  "\<exists>st'. resolve_backend (\<lambda>_. Inl ''no'') 0 0 (hello_bytes sample_hello) (Some sample_acl) sample_table =
     (Some (''10.0.0.5'', 8080, (0, 0)), st') \<and> acl_allows_backend_port sample_acl 8080 \<and>
     in_flight_at st' (0, 0) = in_flight_at sample_table (0, 0) + 1"
proof -
  obtain st' where run: "resolve_backend (\<lambda>_. Inl ''no'') 0 0 (hello_bytes sample_hello) (Some sample_acl) sample_table =
     (Some (''10.0.0.5'', 8080, (0, 0)), st')"
    using sample_resolves by blast
  from passthrough_resolves [OF run sample_table_ok] run show ?thesis
    by (auto simp: leased_between_def)
qed

text \<open>
  A session gives its lease and its buffers back, however it ends, and the backend is sent the hello before
  anything else.
\<close>

lemma copy_tls_session_budget:
  "byte_budget_ok budget \<Longrightarrow> snd (copy_tls_session budget now to_backend to_client client backend) = budget"
  by (simp add: copy_tls_session_def copy_both_ways_def copy_both_ways_until_def copy_with_budget_eq Let_def split_beta)

lemma tls_session_balanced:
  assumes "handle_tls_stream url_parse nw now rand to_client client initial acl (st, ps) = ((sent, outs), st', ps')"
    and "table_ok st" and "byte_budget_ok (ps_budget ps)"
  shows "(\<forall>l. in_flight_at st' l = in_flight_at st l) \<and> ps_budget ps' = ps_budget ps \<and> (sent \<noteq> [] \<longrightarrow> prefix initial sent)"
proof -
  obtain res now1 client1 where rd: "read_tls_record client initial (now + dl_tls_hello (to_deadlines (px_timeouts st))) now =
      (res, now1, client1)"
    by (cases "read_tls_record client initial (now + dl_tls_hello (to_deadlines (px_timeouts st))) now")
  show ?thesis
  proof (cases res)
    case (Inl e)
    then show ?thesis using assms(1) rd by (simp add: handle_tls_stream_def)
  next
    case (Inr handshake)
    have pre: "prefix initial handshake"
      using read_tls_record_spec [OF _ rd] Inr by simp
    obtain found st1 where res: "resolve_backend url_parse now1 rand handshake acl st = (found, st1)"
      by (cases "resolve_backend url_parse now1 rand handshake acl st")
    note spec = resolve_backend_spec [OF res assms(2)]
    show ?thesis
    proof (cases found)
      case None
      then show ?thesis using assms(1) rd Inr res spec by (simp add: handle_tls_stream_def)
    next
      case (Some s)
      obtain host port l where s: "s = (host, port, l)" by (cases s)
      with Some spec have leased: "\<exists>r. leased_between now1 st st1 r l" by auto
      have "st' = release l st1 \<and> ps_budget ps' = ps_budget ps \<and> (sent = [] \<or> sent = handshake)"
        using assms(1) rd Inr res Some s copy_tls_session_budget [OF assms(3)]
        by (auto simp: handle_tls_stream_def split_beta Let_def split: prod.splits sum.splits option.splits)
      with leased pre show ?thesis using release_leased by blast
    qed
  qed
qed

end
