(* ===== verification/Nexa_L4_Flow.thy ===== *)
theory Nexa_L4_Flow
  imports Nexa_L4_Wire Nexa_Dns Nexa_Routes
begin

text \<open>
  The L4 tunnel, \<open>crates/nexapipe/src/l4/mod.rs\<close>: reading the preface, choosing the backend, the slots of
  a connection, the TCP flow and the UDP flow. The stream of the client is what it sends and, for what is
  written to it, the error of each write; the status byte is its first write. The access log, the
  metrics and the reader that watches a flow for the log change nothing about it.
\<close>

section \<open>Constants\<close>

definition PREFACE_TIMEOUT :: nat where "PREFACE_TIMEOUT = from_secs 10"
definition DEFAULT_MAX_FLOWS_PER_CONNECTION :: nat where "DEFAULT_MAX_FLOWS_PER_CONNECTION = 256"
definition UDP_RECV_BUFFER_BYTES :: nat where "UDP_RECV_BUFFER_BYTES = 64 * 1024"
definition UDP_SEND_BUFFER_BYTES :: nat where "UDP_SEND_BUFFER_BYTES = 4 * 1024"
definition UDP_FRAME_BUFFER_BYTES :: nat where "UDP_FRAME_BUFFER_BYTES = FRAME_HEADER_LEN + MAX_UDP_PAYLOAD"
definition UDP_PENDING_BUFFER_BYTES :: nat where
  "UDP_PENDING_BUFFER_BYTES = FRAME_HEADER_LEN + 65535 + UDP_SEND_BUFFER_BYTES"
definition UDP_FLOW_BUFFER_BYTES :: nat where
  "UDP_FLOW_BUFFER_BYTES = UDP_RECV_BUFFER_BYTES + UDP_SEND_BUFFER_BYTES + UDP_FRAME_BUFFER_BYTES + UDP_PENDING_BUFFER_BYTES"

definition is_l4_stream :: "u8 \<Rightarrow> bool" where
  "is_l4_stream first_byte \<longleftrightarrow> first_byte = PREFACE_MAGIC"

section \<open>The flows of a connection\<close>

record flow_limiter =
  fl_current :: nat
  fl_max :: nat

definition flow_limiter_new :: "nat \<Rightarrow> flow_limiter" where
  "flow_limiter_new m = \<lparr>fl_current = 0, fl_max = m\<rparr>"

text \<open>The compare-and-exchange loop ends with a step from the value it last saw.\<close>

definition flow_try_acquire :: "flow_limiter \<Rightarrow> flow_limiter option" where
  "flow_try_acquire lim = (if fl_current lim \<ge> fl_max lim then None else Some (lim\<lparr>fl_current := fl_current lim + 1\<rparr>))"

text \<open>The subtraction wraps.\<close>

definition flow_release :: "flow_limiter \<Rightarrow> flow_limiter" where
  "flow_release lim = lim\<lparr>fl_current := (if fl_current lim = 0 then usize_max else fl_current lim - 1)\<rparr>"

section \<open>The preface\<close>

datatype preface_failure = PrefaceProto proto_error | PrefaceIo io_error

function read_preface ::
    "reader_events \<Rightarrow> bytes \<Rightarrow> nat \<Rightarrow> nat \<Rightarrow> (preface_failure + preface \<times> bytes) \<times> nat \<times> reader_events" where
  "read_preface rd buf deadline now =
     (case preface_decode buf of
        Inr (Some (p, n)) \<Rightarrow> (Inr (p, drop n buf), now, rd)
      | Inl e \<Rightarrow> (Inl (PrefaceProto e), now, rd)
      | Inr None \<Rightarrow>
          (case read_more_by rd buf deadline now of
             (Inl e, buf', now', rd') \<Rightarrow> (Inl (PrefaceIo e), now', rd')
           | (Inr False, buf', now', rd') \<Rightarrow>
               (Inl (PrefaceIo (UnexpectedEof, ''stream ended or went quiet before the L4 preface was complete'')), now', rd')
           | (Inr True, buf', now', rd') \<Rightarrow> read_preface rd' buf' deadline now'))"
  by pat_completeness auto
termination
  by (relation "measure (\<lambda>(rd, buf, deadline, now). pending rd)") (auto dest: read_more_by_pending [OF sym])

declare read_preface.simps [simp del]

section \<open>A TCP flow\<close>

datatype flow_error =
    FlowBadBackend string
  | FlowDial connect_error
  | FlowResolve resolve_error
  | FlowNotRun string
  | FlowNoAddress
  | FlowBuffers "nat \<times> nat \<times> nat"
  | FlowBind io_error
  | FlowSocket io_error
  | FlowIo io_error

text \<open>
  What a flow comes to: the status byte that is written, what goes to the backend before the copy or as
  datagrams and to the client as frames, each with its moment, and when and how the flow ends.
\<close>

record flow_outcome =
  fo_status :: "status option"
  fo_to_backend :: "(nat \<times> bytes) list"
  fo_to_client :: "(nat \<times> bytes) list"
  fo_ends :: "(nat \<times> (flow_error + unit)) list"

definition refused_with :: "status option \<Rightarrow> nat \<Rightarrow> flow_error + unit \<Rightarrow> flow_outcome" where
  "refused_with status now r = \<lparr>fo_status = status, fo_to_backend = [], fo_to_client = [], fo_ends = [(now, r)]\<rparr>"

definition serve_tcp ::
    "(string \<Rightarrow> string + parsed_url) \<Rightarrow> network \<Rightarrow> nat \<Rightarrow> string \<Rightarrow> bytes \<Rightarrow> nat \<Rightarrow> nat \<Rightarrow> (nat \<Rightarrow> io_error option) \<Rightarrow>
      reader_events \<Rightarrow> process_state \<Rightarrow> flow_outcome \<times> process_state" where
  "serve_tcp url_parse nw now backend leftover connect_timeout flow_timeout to_client client ps =
     (case l4_backend_addr url_parse backend of
        None \<Rightarrow> (refused_with (Some StBackendFailed) now (Inl (FlowBadBackend backend)), ps)
      | Some (host, port) \<Rightarrow>
          (case connect nw host port connect_timeout now (ps_dns ps) of
             (Inl e, now1, dns) \<Rightarrow> (refused_with (Some StBackendFailed) now1 (Inl (FlowDial e)), ps\<lparr>ps_dns := dns\<rparr>)
           | (Inr bk, now1, dns) \<Rightarrow>
               (case to_client 0 of
                  Some e \<Rightarrow> (refused_with (Some StOk) now1 (Inl (FlowIo e)), ps\<lparr>ps_dns := dns\<rparr>)
                | None \<Rightarrow>
                    (case (if leftover \<noteq> [] then di_writes bk 0 else None) of
                       Some e \<Rightarrow> (refused_with (Some StOk) now1 (Inl (FlowIo e)), ps\<lparr>ps_dns := dns\<rparr>)
                     | None \<Rightarrow>
                         let first = (if leftover \<noteq> [] then 1 else 0);
                             (outs, budget) = copy_both_ways_until (ps_budget ps) now1 (Some flow_timeout)
                               (\<lambda>k. di_writes bk (first + k)) (\<lambda>k. to_client (Suc k)) client (di_reads bk)
                         in (\<lparr>fo_status = Some StOk,
                              fo_to_backend = (if leftover \<noteq> [] then [(now1, leftover)] else []), fo_to_client = [],
                              fo_ends = map (\<lambda>(t, r). (t, case r of
                                  Inr _ \<Rightarrow> Inr ()
                                | Inl e \<Rightarrow> if fst e = TimedOut then Inr () else Inl (FlowIo e))) outs\<rparr>,
                             ps\<lparr>ps_budget := budget, ps_dns := dns\<rparr>)))))"

section \<open>A UDP flow\<close>

definition is_ipv4 :: "socket_addr \<Rightarrow> bool" where
  "is_ipv4 a = (case a of V4 _ _ \<Rightarrow> True | V6 _ _ _ _ \<Rightarrow> False)"

definition udp_bind_addr :: "socket_addr \<Rightarrow> string" where
  "udp_bind_addr target = (if is_ipv4 target then ''0.0.0.0:0'' else ''[::]:0'')"

definition resolve_udp_target :: "network \<Rightarrow> string \<Rightarrow> u16 \<Rightarrow> nat \<Rightarrow> (flow_error + socket_addr) \<times> nat" where
  "resolve_udp_target nw host port now =
     (case resolve_uncached nw now host of
        (Inl msg, now1) \<Rightarrow> (Inl (FlowNotRun msg), now1)
      | (Inr (Inl e), now1) \<Rightarrow> (Inl (FlowResolve e), now1)
      | (Inr (Inr []), now1) \<Rightarrow> (Inl FlowNoAddress, now1)
      | (Inr (Inr (addr # _)), now1) \<Rightarrow> (Inr (with_port addr port), now1))"

text \<open>Every complete frame of the bytes at hand, sent on; \<open>None\<close> when the flow ends on the way.\<close>

function drain_frames :: "(nat \<Rightarrow> io_error option) \<Rightarrow> nat \<Rightarrow> bytes \<Rightarrow> nat \<Rightarrow> bytes list \<times> (nat \<times> nat) option" where
  "drain_frames send k pend offset =
     (case decode_frame (drop offset pend) of
        Incomplete \<Rightarrow> ([], Some (k, offset))
      | Ready payload consumed \<Rightarrow>
          if \<not> payload_fits_datagram payload then ([], None)
          else
            (case send k of
               Some e \<Rightarrow> ([], None)
             | None \<Rightarrow>
                 let (out, r) = drain_frames send (Suc k) pend (offset + consumed) in (payload # out, r)))"
  by pat_completeness auto
termination
  by (relation "measure (\<lambda>(send, k, pend, offset). length pend - offset)")
     (auto dest!: decode_frame_Ready simp: FRAME_HEADER_LEN_def)

declare drain_frames.simps [simp del]

text \<open>The pump from the client to the backend, with the moments of the datagrams and of its end.\<close>

function udp_up ::
    "(nat \<Rightarrow> io_error option) \<Rightarrow> nat \<Rightarrow> nat \<Rightarrow> bytes \<Rightarrow> nat \<Rightarrow> reader_events \<Rightarrow> (nat \<times> bytes) list \<times> nat" where
  "udp_up send idle k pend now rd =
     (case drain_frames send k pend 0 of
        (out, None) \<Rightarrow> (map (Pair now) out, now)
      | (out, Some (k', offset)) \<Rightarrow>
          let rest = drop offset pend in
          (case read_by UDP_SEND_BUFFER_BYTES (now + idle) now rd of
             (Some (Inr bs), now', rd') \<Rightarrow>
               if bs = [] then (map (Pair now) out, now')
               else if length rest + length bs > UDP_PENDING_BUFFER_BYTES then (map (Pair now) out, now')
               else
                 let (out', fin) = udp_up send idle k' (rest @ bs) now' rd' in (map (Pair now) out @ out', fin)
           | (Some (Inl e), now', rd') \<Rightarrow> (map (Pair now) out, now')
           | (None, now', rd') \<Rightarrow> (map (Pair now) out, now')))"
  by pat_completeness auto
termination
  by (relation "measure (\<lambda>(send, idle, k, pend, now, rd). pending rd)")
     (auto dest!: read_by_pending [OF sym] simp: UDP_SEND_BUFFER_BYTES_def)

declare udp_up.simps [simp del]

text \<open>A datagram that is longer than the buffer is cut, and an empty one is a datagram.\<close>

fun udp_down :: "(nat \<Rightarrow> io_error option) \<Rightarrow> nat \<Rightarrow> nat \<Rightarrow> nat \<Rightarrow> reader_events \<Rightarrow> (nat \<times> bytes) list \<times> nat" where
  "udp_down to_client idle k now [] = ([], now + idle)"
| "udp_down to_client idle k now ((t, ev) # rest) =
     (if t \<le> now + idle then
        (case ev of
           Inl e \<Rightarrow> ([], max now t)
         | Inr datagram \<Rightarrow>
             (case encode_frame (take UDP_RECV_BUFFER_BYTES datagram) [] of
                Inl e \<Rightarrow> udp_down to_client idle k (max now t) rest
              | Inr frame \<Rightarrow>
                  (case to_client k of
                     Some e \<Rightarrow> ([], max now t)
                   | None \<Rightarrow>
                       let (out, fin) = udp_down to_client idle (Suc k) (max now t) rest
                       in ((max now t, frame) # out, fin))))
      else ([], now + idle))"

text \<open>A bound and connected socket: what it receives, and the error of each send.\<close>

record udp_socket =
  us_bind :: "string \<Rightarrow> io_error option"
  us_connect :: "socket_addr \<Rightarrow> io_error option"
  us_recv :: "socket_addr \<Rightarrow> reader_events"
  us_send :: "socket_addr \<Rightarrow> nat \<Rightarrow> io_error option"

text \<open>The first pump to finish, or the bound on the whole flow, ends it: what was due by then has been done.\<close>

definition udp_pumps ::
    "nat \<Rightarrow> bytes \<Rightarrow> nat \<Rightarrow> nat \<Rightarrow> (nat \<Rightarrow> io_error option) \<Rightarrow> (nat \<Rightarrow> io_error option) \<Rightarrow> reader_events \<Rightarrow> reader_events \<Rightarrow>
      flow_outcome" where
  "udp_pumps now leftover idle flow_timeout send to_client client socket =
     (let (up, up_end) = udp_up send idle 0 leftover now client;
          (down, down_end) = udp_down to_client idle 0 now socket;
          over = min (min up_end down_end) (now + flow_timeout)
      in \<lparr>fo_status = Some StOk, fo_to_backend = filter (\<lambda>(t, _). t \<le> over) up,
          fo_to_client = filter (\<lambda>(t, _). t \<le> over) down, fo_ends = [(over, Inr ())]\<rparr>)"

definition serve_udp_flow ::
    "udp_socket \<Rightarrow> socket_addr \<Rightarrow> string \<Rightarrow> nat \<Rightarrow> bytes \<Rightarrow> nat \<Rightarrow> nat \<Rightarrow> (nat \<Rightarrow> io_error option) \<Rightarrow> reader_events \<Rightarrow>
      process_state \<Rightarrow> flow_outcome \<times> process_state" where
  "serve_udp_flow us target bind_addr now leftover idle flow_timeout to_client client ps =
     (case take_buffers (ps_budget ps) UDP_FLOW_BUFFER_BYTES of
        Inl e \<Rightarrow> (refused_with (Some StBackendFailed) now (Inl (FlowBuffers e)), ps)
      | Inr (r, budget) \<Rightarrow>
          let ps1 = ps\<lparr>ps_budget := drop_reservation r budget\<rparr> in
          (case us_bind us bind_addr of
             Some e \<Rightarrow> (refused_with (Some StBackendFailed) now (Inl (FlowBind e)), ps1)
           | None \<Rightarrow>
               (case us_connect us target of
                  Some e \<Rightarrow> (refused_with (Some StBackendFailed) now (Inl (FlowSocket e)), ps1)
                | None \<Rightarrow>
                    (case to_client 0 of
                       Some e \<Rightarrow> (refused_with (Some StOk) now (Inl (FlowIo e)), ps1)
                     | None \<Rightarrow>
                         (udp_pumps now leftover idle flow_timeout (us_send us target) (\<lambda>k. to_client (Suc k)) client
                            (us_recv us target), ps1)))))"

definition serve_udp ::
    "(string \<Rightarrow> string + parsed_url) \<Rightarrow> network \<Rightarrow> udp_socket \<Rightarrow> nat \<Rightarrow> string \<Rightarrow> bytes \<Rightarrow> nat \<Rightarrow> nat \<Rightarrow>
      (nat \<Rightarrow> io_error option) \<Rightarrow> reader_events \<Rightarrow> process_state \<Rightarrow> flow_outcome \<times> process_state" where
  "serve_udp url_parse nw us now backend leftover idle flow_timeout to_client client ps =
     (case l4_backend_addr url_parse backend of
        None \<Rightarrow> (refused_with (Some StBackendFailed) now (Inl (FlowBadBackend backend)), ps)
      | Some (host, port) \<Rightarrow>
          (case resolve_udp_target nw host port now of
             (Inl e, now1) \<Rightarrow> (refused_with (Some StBackendFailed) now1 (Inl e), ps)
           | (Inr target, now1) \<Rightarrow>
               serve_udp_flow us target (udp_bind_addr target) now1 leftover idle flow_timeout to_client client ps))"

section \<open>The stream\<close>

definition or_else :: "nat option \<Rightarrow> nat \<Rightarrow> nat" where
  "or_else x d = (case x of Some v \<Rightarrow> v | None \<Rightarrow> d)"

definition serve_stream ::
    "(string \<Rightarrow> string + parsed_url) \<Rightarrow> network \<Rightarrow> udp_socket \<Rightarrow> nat \<Rightarrow> u64 \<Rightarrow> (nat \<Rightarrow> io_error option) \<Rightarrow> reader_events \<Rightarrow>
      bytes \<Rightarrow> client_acl option \<Rightarrow> routing_table \<times> flow_limiter \<times> process_state \<Rightarrow>
      flow_outcome \<times> routing_table \<times> flow_limiter \<times> process_state" where
  "serve_stream url_parse nw us now rand to_client client initial acl s =
     (let (st, lim, ps) = s in
      case read_preface client initial (now + PREFACE_TIMEOUT) now of
        (Inl (PrefaceProto e), now1, client1) \<Rightarrow> (refused_with (Some StBadPreface) now1 (Inr ()), st, lim, ps)
      | (Inl (PrefaceIo e), now1, client1) \<Rightarrow> (refused_with None now1 (Inl (FlowIo e)), st, lim, ps)
      | (Inr (preface, leftover), now1, client1) \<Rightarrow>
          if (case acl of Some a \<Rightarrow> \<not> acl_allows_target a (pf_host preface) (pf_port preface) | None \<Rightarrow> False)
          then (refused_with (Some StNoRoute) now1 (Inr ()), st, lim, ps)
          else
            let (found, st1) = get_l4_backend now1 rand (pf_host preface) (pf_port preface)
                  (mode_from_l4_proto (pf_proto preface)) st in
            (case lookup_backend found of
               None \<Rightarrow>
                 (refused_with (Some (if found = Unavailable then StBackendFailed else StNoRoute)) now1 (Inr ()), st1, lim, ps)
             | Some route \<Rightarrow>
                 (case flow_try_acquire lim of
                    None \<Rightarrow> (refused_with (Some StTooManyFlows) now1 (Inr ()), release (li_lease route) st1, lim, ps)
                  | Some lim1 \<Rightarrow>
                      let deadlines = to_deadlines (px_timeouts st);
                          flow_timeout = or_else (li_flow_timeout route) (dl_l4_flow deadlines);
                          (out, ps1) =
                            (case pf_proto preface of
                               Tcp \<Rightarrow> serve_tcp url_parse nw now1 (li_backend route) leftover (to_connect (px_timeouts st))
                                 flow_timeout to_client client1 ps
                             | Udp \<Rightarrow> serve_udp url_parse nw us now1 (li_backend route) leftover
                                 (or_else (li_idle_timeout route) (dl_l4_idle deadlines)) flow_timeout to_client client1 ps)
                      in (out, release (li_lease route) st1, flow_release lim1, ps1))))"

section \<open>The slots of a connection\<close>

interpretation flow_slots: exact_ceiling "\<lambda>_. True" "\<lambda>lim _. flow_try_acquire lim" "\<lambda>lim _. flow_release lim"
  fl_current fl_max "\<lambda>_ :: unit. Suc 0"
  by unfold_locales (auto simp: flow_try_acquire_def flow_release_def split: if_splits)

lemma flow_release_acquired: "flow_try_acquire lim = Some lim1 \<Longrightarrow> flow_release lim1 = lim"
  by (auto simp: flow_try_acquire_def flow_release_def split: if_splits)

section \<open>Reading the preface\<close>

lemma take_drop_append: "take n xs @ drop n xs @ ys = xs @ ys"
  by (metis append_assoc append_take_drop_id)

lemma read_more_by_stream:
  "read_more_by rd buf deadline now = (Inr True, buf', now', rd') \<Longrightarrow> buf' @ stream_bytes rd' = buf @ stream_bytes rd"
  by (cases rd rule: pending.cases)
     (auto simp: read_more_by_def read_by_def take_drop_append split: if_splits)

lemma read_preface_spec:
  assumes "now \<le> deadline" and "read_preface rd buf deadline now = (res, now', rd')"
  shows "now' \<le> deadline \<and>
    (case res of
       Inr (p, leftover) \<Rightarrow> \<exists>p0. preface_ok p0 \<and> p = preface_canon p0 \<and>
         prefix (preface_bytes p0 @ leftover) (buf @ arrived deadline rd) \<and>
         preface_bytes p0 @ leftover @ stream_bytes rd' = buf @ stream_bytes rd \<and>
         length leftover \<le> max (length buf) (MAX_PREFACE_LEN + CHUNK)
     | Inl (PrefaceProto e) \<Rightarrow> \<exists>part. prefix part (buf @ arrived deadline rd) \<and> preface_decode part = Inl e
     | Inl (PrefaceIo e) \<Rightarrow> preface_decode (buf @ arrived deadline rd) = Inr None)"
  using assms
proof (induction "pending rd" arbitrary: rd buf now rule: less_induct)
  case less
  note unfold = less(3) [unfolded read_preface.simps [of rd buf]]
  consider e where "preface_decode buf = Inl e" | p n where "preface_decode buf = Inr (Some (p, n))"
    | "preface_decode buf = Inr None"
    by (cases "preface_decode buf") (auto, metis option.exhaust prod.exhaust)
  then show ?case
  proof cases
    case (1 e)
    then have "\<exists>part. prefix part (buf @ arrived deadline rd) \<and> preface_decode part = Inl e"
      by (intro exI [of _ buf]) simp
    then show ?thesis using unfold less(2) 1 by auto
  next
    case (2 p n)
    obtain p0 rest where p0: "preface_ok p0" "buf = preface_bytes p0 @ rest" "p = preface_canon p0" "n = length (preface_bytes p0)"
      using preface_decode_Some [OF 2] by blast
    then have "res = Inr (p, rest)" "now' = now" "rd' = rd" using unfold 2 by auto
    then show ?thesis using p0 less(2) by (auto intro!: exI [of _ p0])
  next
    case 3
    have short: "length buf < MAX_PREFACE_LEN" using 3 by (rule preface_decode_None_bound)
    show ?thesis
      using less(2)
    proof (cases rule: read_more_by_cases [where rd = rd and buf = buf])
      case (more bs now1 rd1)
      then have rec: "read_preface rd1 (buf @ bs) deadline now1 = (res, now', rd')"
        using unfold 3 by simp
      have "pending rd1 < pending rd" and sb: "(buf @ bs) @ stream_bytes rd1 = buf @ stream_bytes rd"
        using more(1) read_more_by_pending read_more_by_stream by blast+
      note ih = less(1) [OF this(1) more(4) rec]
      have len: "max (length (buf @ bs)) (MAX_PREFACE_LEN + CHUNK) = max (length buf) (MAX_PREFACE_LEN + CHUNK)"
        using short more(3) by simp
      show ?thesis
        using ih unfolding len sb unfolding more(5) append_assoc .
    next
      case (quiet now1 rd1)
      then show ?thesis using unfold 3 by auto
    next
      case (failed e now1 rd1)
      then show ?thesis using unfold 3 by auto
    qed
  qed
qed

text \<open>
  C31: reading a preface. When the encoding of a preface has arrived by the deadline, cut into segments in any
  way and with payload right behind it, the reader returns that preface, its host in lower case, and every byte after it
  is either in what it hands over or still to be read. Whatever it returns is the decoding of bytes that
  arrived, it returns by the deadline, and it never holds more than a preface and one read.
\<close>

theorem l4_preface_read:
  assumes "now \<le> deadline" and "read_preface rd buf deadline now = (res, now', rd')"
  shows "now' \<le> deadline \<and>
    (preface_to_bytes p = Inr bs \<and> prefix bs (buf @ arrived deadline rd) \<longrightarrow>
       (\<exists>leftover. res = Inr (p\<lparr>pf_host := to_ascii_lowercase (pf_host p)\<rparr>, leftover) \<and>
          bs @ leftover @ stream_bytes rd' = buf @ stream_bytes rd)) \<and>
    (\<forall>q leftover. res = Inr (q, leftover) \<longrightarrow>
       (\<exists>h qs. preface_to_bytes (q\<lparr>pf_host := h\<rparr>) = Inr qs \<and> pf_host q = to_ascii_lowercase h \<and>
          prefix qs (buf @ arrived deadline rd) \<and> qs @ leftover @ stream_bytes rd' = buf @ stream_bytes rd \<and>
          length leftover \<le> max (length buf) (MAX_PREFACE_LEN + CHUNK)))"
proof (intro conjI allI impI)
  note spec = read_preface_spec [OF assms]
  then show "now' \<le> deadline" by simp
  show "\<exists>h qs. preface_to_bytes (q\<lparr>pf_host := h\<rparr>) = Inr qs \<and> pf_host q = to_ascii_lowercase h \<and>
      prefix qs (buf @ arrived deadline rd) \<and> qs @ leftover @ stream_bytes rd' = buf @ stream_bytes rd \<and>
      length leftover \<le> max (length buf) (MAX_PREFACE_LEN + CHUNK)" if got: "res = Inr (q, leftover)" for q leftover
  proof -
    obtain p0 where p0: "preface_ok p0" "q = preface_canon p0"
      "prefix (preface_bytes p0 @ leftover) (buf @ arrived deadline rd)"
      "preface_bytes p0 @ leftover @ stream_bytes rd' = buf @ stream_bytes rd"
      "length leftover \<le> max (length buf) (MAX_PREFACE_LEN + CHUNK)"
      using spec got by auto
    then have "preface_to_bytes (q\<lparr>pf_host := pf_host p0\<rparr>) = Inr (preface_bytes p0)"
      by (simp add: preface_to_bytes_eq preface_canon_def)
    with p0 show ?thesis
      by (intro exI [of _ "pf_host p0"] exI [of _ "preface_bytes p0"]) (auto simp: preface_canon_def dest: append_prefixD)
  qed
  assume "preface_to_bytes p = Inr bs \<and> prefix bs (buf @ arrived deadline rd)"
  then have p: "preface_ok p" "bs = preface_bytes p" and pre: "prefix bs (buf @ arrived deadline rd)"
    by (auto simp: preface_to_bytes_eq)
  obtain tl where data: "buf @ arrived deadline rd = preface_bytes p @ tl"
    using pre p(2) by (auto elim: prefixE)
  note arrival = preface_framing.dec_arrival [OF p(1)]
  show "\<exists>leftover. res = Inr (p\<lparr>pf_host := to_ascii_lowercase (pf_host p)\<rparr>, leftover) \<and>
      bs @ leftover @ stream_bytes rd' = buf @ stream_bytes rd"
  proof (cases res)
    case (Inl f)
    then show ?thesis
      using spec arrival [of _ tl] unfolding data by (cases f) (auto split: if_splits)
  next
    case (Inr r)
    obtain q leftover where r: "r = (q, leftover)" by (cases r)
    obtain p0 where p0: "preface_ok p0" "q = preface_canon p0" "prefix (preface_bytes p0 @ leftover) (preface_bytes p @ tl)"
      "preface_bytes p0 @ leftover @ stream_bytes rd' = buf @ stream_bytes rd"
      using spec Inr r unfolding data by auto
    obtain w where "preface_bytes p @ tl = preface_bytes p0 @ leftover @ w"
      using p0(3) by (auto elim!: prefixE)
    from preface_framing.enc_unambiguous [OF p(1) p0(1) this] have "preface_canon p = q" "preface_bytes p = preface_bytes p0"
      using p0(2) by simp_all
    then show ?thesis
      using p0(4) p(2) by (simp add: Inr r preface_canon_def)
  qed
qed

theorem l4_preface_read_witness:
  "\<exists>leftover now' rd'. read_preface [(3, Inr [4, 0x44, 0x42, 0x2E, 0x78, 0x15, 0x38, 0x53])] [5, 1, 1] PREFACE_TIMEOUT 0 =
     (Inr (\<lparr>pf_proto = Tcp, pf_host = ''db.x'', pf_port = 5432\<rparr>, leftover), now', rd') \<and>
     [5, 1, 1, 4, 0x44, 0x42, 0x2E, 0x78, 0x15, 0x38] @ leftover @ stream_bytes rd' =
       [5, 1, 1, 4, 0x44, 0x42, 0x2E, 0x78, 0x15, 0x38, 0x53]"
proof -
  let ?p = "\<lparr>pf_proto = Tcp, pf_host = ''DB.x'', pf_port = 5432\<rparr>"
  let ?bs = "[5, 1, 1, 4, 0x44, 0x42, 0x2E, 0x78, 0x15, 0x38] :: bytes"
  let ?rd = "[(3, Inr [4, 0x44, 0x42, 0x2E, 0x78, 0x15, 0x38, 0x53])] :: reader_events"
  have enc: "preface_to_bytes ?p = Inr ?bs" and low: "to_ascii_lowercase ''DB.x'' = ''db.x''"
    by code_simp+
  have t: "3 \<le> PREFACE_TIMEOUT"
    by (simp add: PREFACE_TIMEOUT_def from_secs_def)
  obtain res now' rd' where run: "read_preface ?rd [5, 1, 1] PREFACE_TIMEOUT 0 = (res, now', rd')"
    by (cases "read_preface ?rd [5, 1, 1] PREFACE_TIMEOUT 0")
  from l4_preface_read [OF le0 run, of ?p ?bs] enc t low show ?thesis
    unfolding run by auto
qed

section \<open>Datagrams up\<close>

lemma drain_frames_Incomplete:
  "decode_frame (drop offset buf) = Incomplete \<Longrightarrow> drain_frames send k buf offset = ([], Some (k, offset))"
  by (subst drain_frames.simps) simp

lemma drain_frames_Ready:
  "decode_frame (drop offset buf) = Ready payload n \<Longrightarrow> payload_fits_datagram payload \<Longrightarrow> send k = None \<Longrightarrow>
     drain_frames send k buf offset = (let (out, r) = drain_frames send (Suc k) buf (offset + n) in (payload # out, r))"
  by (subst drain_frames.simps) simp

lemma drain_frames_stops:
  "decode_frame (drop offset buf) = Ready payload n \<Longrightarrow> \<not> payload_fits_datagram payload \<or> send k \<noteq> None \<Longrightarrow>
     drain_frames send k buf offset = ([], None)"
  by (subst drain_frames.simps) auto

text \<open>What is sent is whole frames from the front, each of them a datagram; what is left is not a whole frame.\<close>

lemma drain_frames_sound:
  assumes "drain_frames send k buf offset = (out, r)"
  shows "(\<forall>d \<in> set out. payload_fits_datagram d) \<and>
    (\<exists>rest. drop offset buf = concat (map frame_bytes out) @ rest \<and>
      (\<forall>k' offset'. r = Some (k', offset') \<longrightarrow> rest = drop offset' buf \<and> decode_frame rest = Incomplete))"
  using assms
proof (induction send k buf offset arbitrary: out r rule: drain_frames.induct)
  case (1 send k buf offset)
  show ?case
  proof (cases "decode_frame (drop offset buf)")
    case Incomplete
    then show ?thesis using 1(2) by (auto simp: drain_frames_Incomplete)
  next
    case (Ready payload n)
    show ?thesis
    proof (cases "payload_fits_datagram payload \<and> send k = None")
      case False
      then show ?thesis using 1(2) drain_frames_stops [OF Ready] by auto
    next
      case True
      obtain out' r' where rec: "drain_frames send (Suc k) buf (offset + n) = (out', r')"
        by (cases "drain_frames send (Suc k) buf (offset + n)")
      have out: "out = payload # out'" "r = r'"
        using 1(2) True drain_frames_Ready [OF Ready] rec by auto
      have "drop offset buf = frame_bytes payload @ drop (offset + n) buf"
        using decode_frame_Ready [OF Ready] by (simp add: add.commute)
      with 1(1) [OF Ready _ _ rec] True out show ?thesis by auto
    qed
  qed
qed

lemma incomplete_short: "decode_frame rest = Incomplete \<Longrightarrow> length rest < FRAME_HEADER_LEN + 65536"
proof -
  have "unat (of_be16 (rest ! 0) (rest ! 1)) < 65536"
    using unsigned_less [of "of_be16 (rest ! 0) (rest ! 1)"] by simp
  moreover assume "decode_frame rest = Incomplete"
  ultimately show ?thesis
    by (auto simp: decode_frame_def Let_def FRAME_HEADER_LEN_def split: if_splits)
qed

lemma fits_frame: "payload_fits_datagram d \<Longrightarrow> length d < 65536"
  by (simp add: payload_fits_datagram_def MAX_UDP_PAYLOAD_def)

text \<open>On the frames of datagrams, cut off anywhere, it sends exactly those that are whole.\<close>

lemma drain_frames_complete:
  assumes "prefix (drop offset buf) (concat (map frame_bytes ds))" and "\<forall>d \<in> set ds. payload_fits_datagram d"
    and "\<forall>k. send k = None"
  shows "\<exists>ds1 ds2 k' offset'. ds = ds1 @ ds2 \<and> drain_frames send k buf offset = (ds1, Some (k', offset')) \<and>
    drop offset buf = concat (map frame_bytes ds1) @ drop offset' buf \<and>
    prefix (drop offset' buf) (concat (map frame_bytes ds2)) \<and> decode_frame (drop offset' buf) = Incomplete"
  using assms(1, 2)
proof (induction ds arbitrary: offset k)
  case Nil
  then have "decode_frame (drop offset buf) = Incomplete"
    by (simp add: decode_frame_def FRAME_HEADER_LEN_def)
  then show ?case using Nil by (simp add: drain_frames_Incomplete)
next
  case (Cons d ds)
  have arrival: "decode_frame (drop offset buf) =
      (if length (drop offset buf) < FRAME_HEADER_LEN + length d then Incomplete else Ready d (FRAME_HEADER_LEN + length d))"
    using Cons(2, 3) fits_frame [of d] by (intro decode_frame_arrival) auto
  show ?case
  proof (cases "length (drop offset buf) < FRAME_HEADER_LEN + length d")
    case True
    then have "decode_frame (drop offset buf) = Incomplete" using arrival by simp
    then show ?thesis
      using Cons(2) by (intro exI [of _ "[]"] exI [of _ "d # ds"] exI [of _ k] exI [of _ offset])
        (simp add: drain_frames_Incomplete)
  next
    case False
    let ?n = "FRAME_HEADER_LEN + length d"
    have ready: "decode_frame (drop offset buf) = Ready d ?n" using arrival False by simp
    have split: "drop offset buf = frame_bytes d @ drop (offset + ?n) buf"
      using decode_frame_Ready [OF ready] by (simp add: add.commute)
    then have "prefix (drop (offset + ?n) buf) (concat (map frame_bytes ds))"
      using Cons(2) by simp
    from Cons(1) [OF this, of "Suc k"] Cons(3) obtain ds1 ds2 k' offset' where
      "ds = ds1 @ ds2" "drain_frames send (Suc k) buf (offset + ?n) = (ds1, Some (k', offset'))"
      "drop (offset + ?n) buf = concat (map frame_bytes ds1) @ drop offset' buf"
      "prefix (drop offset' buf) (concat (map frame_bytes ds2))" "decode_frame (drop offset' buf) = Incomplete" by auto
    then have "d # ds = (d # ds1) @ ds2 \<and> drain_frames send k buf offset = (d # ds1, Some (k', offset')) \<and>
        drop offset buf = concat (map frame_bytes (d # ds1)) @ drop offset' buf \<and>
        prefix (drop offset' buf) (concat (map frame_bytes ds2)) \<and> decode_frame (drop offset' buf) = Incomplete"
      using drain_frames_Ready [OF ready, of send k] Cons(3) assms(3) split by simp
    then show ?thesis by blast
  qed
qed

text \<open>No silence of the peer is longer than the idle time.\<close>

fun no_gap :: "nat \<Rightarrow> nat \<Rightarrow> reader_events \<Rightarrow> bool" where
  "no_gap idle now [] = True"
| "no_gap idle now ((t, Inl e) # rd) = True"
| "no_gap idle now ((t, Inr bs) # rd) = (t \<le> now + idle \<and> (bs = [] \<or> no_gap idle (max now t) rd))"

lemma read_by_cases:
  assumes "0 < n" and "no_gap idle now rd"
  obtains (more) bs now' rd' where "read_by n (now + idle) now rd = (Some (Inr bs), now', rd')" "bs \<noteq> []" "length bs \<le> n"
      "now \<le> now'" "stream_bytes rd = bs @ stream_bytes rd'" "no_gap idle now' rd'" "pending rd' < pending rd"
  | (over) r now' rd' where "read_by n (now + idle) now rd = (r, now', rd')" "r = None \<or> (\<exists>e. r = Some (Inl e)) \<or> r = Some (Inr [])"
      "stream_bytes rd = []" "now \<le> now'"
proof (cases rd rule: pending.cases)
  case 1
  then show ?thesis using over by (simp add: read_by_def)
next
  case (2 t e rest)
  then show ?thesis
    using over [of "Some (Inl e)" "max now t" rest] over [of None "now + idle" rd]
    by (cases "t \<le> now + idle") (simp_all add: read_by_def)
next
  case (3 t bs rest)
  show ?thesis
  proof (cases "bs = []")
    case True
    then show ?thesis using over assms(2) 3 by (simp add: read_by_def)
  next
    case False
    let ?rd' = "if length bs \<le> n then rest else (t, Inr (drop n bs)) # rest"
    have "read_by n (now + idle) now rd = (Some (Inr (take n bs)), max now t, ?rd')"
      using assms(2) 3 by (simp add: read_by_def)
    moreover have "stream_bytes rd = take n bs @ stream_bytes ?rd'"
      using False 3 by (simp add: take_drop_append)
    moreover have "no_gap idle (max now t) ?rd'" "pending ?rd' < pending rd"
      using False 3 assms by auto
    ultimately show ?thesis
      using more [of "take n bs" "max now t" ?rd'] False assms(1) by simp
  qed
qed

lemma udp_sizes:
  "0 < UDP_SEND_BUFFER_BYTES" "FRAME_HEADER_LEN + 65535 + UDP_SEND_BUFFER_BYTES = UDP_PENDING_BUFFER_BYTES"
  by (simp_all add: UDP_SEND_BUFFER_BYTES_def UDP_PENDING_BUFFER_BYTES_def)

lemma udp_up_complete:
  assumes "buf @ stream_bytes rd = concat (map frame_bytes ds)" and "\<forall>d \<in> set ds. payload_fits_datagram d"
    and "\<forall>k. send k = None" and "no_gap idle now rd"
  shows "map snd (fst (udp_up send idle k buf now rd)) = ds"
  using assms(1, 2, 4)
proof (induction "pending rd" arbitrary: rd buf ds k now rule: less_induct)
  case less
  have "prefix (drop 0 buf) (concat (map frame_bytes ds))"
    using less(2) by (metis drop0 prefixI)
  from drain_frames_complete [OF this less(3) assms(3), of k] obtain ds1 ds2 k' offset where
    d: "ds = ds1 @ ds2" "drain_frames send k buf 0 = (ds1, Some (k', offset))"
      "buf = concat (map frame_bytes ds1) @ drop offset buf" "decode_frame (drop offset buf) = Incomplete" by auto
  have rest: "drop offset buf @ stream_bytes rd = concat (map frame_bytes ds2)"
    using less(2) d(1) by (subst (asm) d(3)) simp
  show ?case
    using udp_sizes(1) less(4)
  proof (cases rule: read_by_cases)
    case (more bs now' rd')
    have "length (drop offset buf) + length bs \<le> UDP_PENDING_BUFFER_BYTES"
      using incomplete_short [OF d(4)] more(3) udp_sizes(2) by linarith
    then have step: "udp_up send idle k buf now rd =
        (let (out', fin) = udp_up send idle k' (drop offset buf @ bs) now' rd' in (map (Pair now) ds1 @ out', fin))"
      using d(2) more(1, 2) by (subst udp_up.simps) (simp add: Let_def)
    have "map snd (fst (udp_up send idle k' (drop offset buf @ bs) now' rd')) = ds2"
      using less(1) [OF more(7), of "drop offset buf @ bs" ds2] rest more(5, 6) less(3) d(1) by simp
    then show ?thesis
      by (simp add: step d(1) split_beta comp_def)
  next
    case (over r now' rd')
    have "ds2 = []"
    proof (rule ccontr)
      assume "ds2 \<noteq> []"
      then obtain e es where "ds2 = e # es" by (cases ds2) auto
      then show False
        using rest over(3) d(1, 4) less(3) udp_framing.dec_complete [of e "concat (map frame_bytes es)"] fits_frame [of e]
        by (simp add: frame_result_def)
    qed
    then show ?thesis
      using over(1, 2) d(1, 2) by (subst udp_up.simps) (auto simp: comp_def)
  qed
qed

lemma udp_up_sound:
  "(\<forall>(t, d) \<in> set (fst (udp_up send idle k buf now rd)).
      payload_fits_datagram d \<and> now \<le> t \<and> t \<le> snd (udp_up send idle k buf now rd)) \<and>
   now \<le> snd (udp_up send idle k buf now rd) \<and>
   prefix (concat (map (frame_bytes \<circ> snd) (fst (udp_up send idle k buf now rd)))) (buf @ stream_bytes rd)"
proof (induction "pending rd" arbitrary: rd buf k now rule: less_induct)
  case less
  obtain out r where dr: "drain_frames send k buf 0 = (out, r)" by (cases "drain_frames send k buf 0")
  from drain_frames_sound [OF dr] obtain rest where fit: "\<forall>d \<in> set out. payload_fits_datagram d"
    and buf: "buf = concat (map frame_bytes out) @ rest" and rest: "\<forall>k' offset'. r = Some (k', offset') \<longrightarrow> rest = drop offset' buf"
    by auto
  have stop: ?case if "udp_up send idle k buf now rd = (map (Pair now) out, now')" "now \<le> now'" for now'
    using that fit by (subst buf) (auto simp: comp_def)
  obtain ev now' rd' where rb: "read_by UDP_SEND_BUFFER_BYTES (now + idle) now rd = (ev, now', rd')"
    by (cases "read_by UDP_SEND_BUFFER_BYTES (now + idle) now rd")
  have later: "now \<le> now'"
    using rb by (auto simp: read_by_def split: list.splits if_splits sum.splits)
  show ?case
  proof (cases "\<exists>k' offset bs. r = Some (k', offset) \<and> ev = Some (Inr bs) \<and> bs \<noteq> [] \<and>
      length (drop offset buf) + length bs \<le> UDP_PENDING_BUFFER_BYTES")
    case False
    then have "udp_up send idle k buf now rd = (map (Pair now) out, now) \<or>
        udp_up send idle k buf now rd = (map (Pair now) out, now')"
      using dr rb by (subst (1 2) udp_up.simps) (auto simp: Let_def split: option.splits sum.splits)
    then show ?thesis using stop later by blast
  next
    case True
    then obtain k' offset bs where t: "r = Some (k', offset)" "ev = Some (Inr bs)" "bs \<noteq> []"
      "length (drop offset buf) + length bs \<le> UDP_PENDING_BUFFER_BYTES" by blast
    obtain out' fin where rec: "udp_up send idle k' (rest @ bs) now' rd' = (out', fin)"
      by (cases "udp_up send idle k' (rest @ bs) now' rd'")
    have restd: "rest = drop offset buf" using rest t(1) by simp
    have step: "udp_up send idle k buf now rd = (map (Pair now) out @ out', fin)"
      using dr rb t rec unfolding restd by (subst udp_up.simps) (simp add: Let_def)
    have p: "pending rd' < pending rd"
      using read_by_pending rb t(2) udp_sizes(1) by blast
    have sb: "stream_bytes rd = bs @ stream_bytes rd'"
      using rb t(2, 3) by (cases rd rule: pending.cases) (auto simp: read_by_def take_drop_append split: if_splits)
    from less [OF p, of k' "rest @ bs" now'] rec
    have "(\<forall>(t, d) \<in> set out'. payload_fits_datagram d \<and> now' \<le> t \<and> t \<le> fin)" "now' \<le> fin"
      "prefix (concat (map (frame_bytes \<circ> snd) out')) ((rest @ bs) @ stream_bytes rd')" by auto
    then show ?thesis
      unfolding step fst_conv snd_conv sb using fit later by (subst buf) (auto simp: comp_def)
  qed
qed

section \<open>Datagrams down\<close>

text \<open>The datagrams a socket gives within the idle time of each other, up to its first error.\<close>

fun datagrams :: "nat \<Rightarrow> nat \<Rightarrow> reader_events \<Rightarrow> bytes list" where
  "datagrams idle now [] = []"
| "datagrams idle now ((t, Inl e) # rd) = []"
| "datagrams idle now ((t, Inr d) # rd) = (if t \<le> now + idle then d # datagrams idle (max now t) rd else [])"

lemma fits_recv: "payload_fits_datagram d \<Longrightarrow> take UDP_RECV_BUFFER_BYTES d = d"
  by (simp add: payload_fits_datagram_def MAX_UDP_PAYLOAD_def UDP_RECV_BUFFER_BYTES_def)

lemma udp_down_frames:
  assumes "\<forall>k. to_client k = None"
  shows "map snd (fst (udp_down to_client idle k now rd)) =
    map frame_bytes (filter payload_fits_datagram (map (take UDP_RECV_BUFFER_BYTES) (datagrams idle now rd)))"
  using assms
proof (induction to_client idle k now rd rule: udp_down.induct)
  case (2 to_client idle k now t ev rest)
  show ?case
  proof (cases "t \<le> now + idle \<and> (\<exists>d. ev = Inr d)")
    case False
    then show ?thesis by (cases ev) auto
  next
    case True
    then obtain d where d: "t \<le> now + idle" "ev = Inr d" by blast
    show ?thesis
    proof (cases "payload_fits_datagram (take UDP_RECV_BUFFER_BYTES d)")
      case True
      then have enc: "encode_frame (take UDP_RECV_BUFFER_BYTES d) [] = Inr (frame_bytes (take UDP_RECV_BUFFER_BYTES d))"
        using encode_frame_to_vec_eq by (simp add: encode_frame_to_vec_def)
      show ?thesis
        using 2(2) [OF d enc] 2(3) True by (simp add: d enc split_beta)
    next
      case False
      then have enc: "encode_frame (take UDP_RECV_BUFFER_BYTES d) [] = Inl PayloadTooLarge"
        by (simp add: encode_frame_def payload_fits_datagram_def min_le_iff_disj not_le)
      show ?thesis
        using 2(1) [OF d enc] 2(3) False by (simp add: d enc)
    qed
  qed
qed simp

lemma udp_down_times:
  "(\<forall>(t, f) \<in> set (fst (udp_down to_client idle k now rd)). now \<le> t \<and> t \<le> snd (udp_down to_client idle k now rd)) \<and>
   now \<le> snd (udp_down to_client idle k now rd)"
proof (induction rd arbitrary: k now)
  case (Cons x rest)
  obtain t ev where x: "x = (t, ev)" by (cases x)
  let ?rec = "\<lambda>k. udp_down to_client idle k (max now t) rest"
  have "udp_down to_client idle k now (x # rest) = ([], max now t) \<or>
      udp_down to_client idle k now (x # rest) = ([], now + idle) \<or>
      udp_down to_client idle k now (x # rest) = ?rec k \<or>
      (\<exists>f. udp_down to_client idle k now (x # rest) = ((max now t, f) # fst (?rec (Suc k)), snd (?rec (Suc k))))"
    by (simp add: x split_beta Let_def split: sum.split option.split)
  then show ?case
    using Cons [of k "max now t"] Cons [of "Suc k" "max now t"] by (elim disjE exE) auto
qed simp

section \<open>The tunnel of a UDP flow\<close>

lemma filter_all_times: "(\<forall>(t, d) \<in> set xs. t \<le> b) \<Longrightarrow> filter (\<lambda>(t, _). t \<le> b) xs = xs"
  by (rule filter_True) auto

text \<open>
  C19: the UDP tunnel carries datagrams. When the client writes the frames of some datagrams, in any segments and
  starting in the bytes behind the preface, without falling silent for longer than the idle time, and the flow is not cut
  before its pump is done, then exactly these datagrams are sent to the backend, in order. Whatever the client
  writes, only whole frames of at most a datagram are sent, in the order they were written. Of the datagrams
  of the backend every one that fits a frame reaches the client framed, in order, when the flow is not cut before. The flow ends
  within its bound.
\<close>

theorem udp_tunnel_carries:
  assumes "udp_pumps now leftover idle flow_timeout send to_client client socket = out"
    and "\<forall>k. send k = None" and "\<forall>k. to_client k = None"
  shows "(\<exists>t. fo_ends out = [(t, Inr ())] \<and> t \<le> now + flow_timeout \<and>
      (leftover @ stream_bytes client = concat (map frame_bytes ds) \<and> (\<forall>d \<in> set ds. payload_fits_datagram d) \<and>
       no_gap idle now client \<and> snd (udp_up send idle 0 leftover now client) \<le> t \<longrightarrow>
         map snd (fo_to_backend out) = ds) \<and>
      (snd (udp_down to_client idle 0 now socket) \<le> t \<longrightarrow>
         map snd (fo_to_client out) =
           map frame_bytes (filter payload_fits_datagram (map (take UDP_RECV_BUFFER_BYTES) (datagrams idle now socket))))) \<and>
    (\<forall>d \<in> set (map snd (fo_to_backend out)). payload_fits_datagram d)"
proof -
  obtain up up_end where up: "udp_up send idle 0 leftover now client = (up, up_end)"
    by (cases "udp_up send idle 0 leftover now client")
  obtain down down_end where down: "udp_down to_client idle 0 now socket = (down, down_end)"
    by (cases "udp_down to_client idle 0 now socket")
  define over where "over = min (min up_end down_end) (now + flow_timeout)"
  have out: "out = \<lparr>fo_status = Some StOk, fo_to_backend = filter (\<lambda>(t, _). t \<le> over) up,
      fo_to_client = filter (\<lambda>(t, _). t \<le> over) down, fo_ends = [(over, Inr ())]\<rparr>"
    using assms(1) up down by (simp add: udp_pumps_def over_def)
  have "map snd (fo_to_backend out) = ds" if "leftover @ stream_bytes client = concat (map frame_bytes ds)"
    "\<forall>d \<in> set ds. payload_fits_datagram d" "no_gap idle now client" "up_end \<le> over"
  proof -
    have "filter (\<lambda>(t, _). t \<le> over) up = up"
      using udp_up_sound [of send idle 0 leftover now client] up that(4) by (intro filter_all_times) fastforce
    then show ?thesis
      using udp_up_complete [OF that(1, 2) assms(2) that(3), of 0] up by (simp add: out)
  qed
  moreover have "map snd (fo_to_client out) =
      map frame_bytes (filter payload_fits_datagram (map (take UDP_RECV_BUFFER_BYTES) (datagrams idle now socket)))"
    if "down_end \<le> over"
  proof -
    have "filter (\<lambda>(t, _). t \<le> over) down = down"
      using udp_down_times [of to_client idle 0 now socket] down that by (intro filter_all_times) fastforce
    then show ?thesis
      using udp_down_frames [OF assms(3), of idle 0 now socket] down by (simp add: out)
  qed
  moreover have "\<forall>d \<in> set (map snd (fo_to_backend out)). payload_fits_datagram d"
    using udp_up_sound [of send idle 0 leftover now client] up by (fastforce simp: out)
  moreover have "fo_ends out = [(over, Inr ())]" "over \<le> now + flow_timeout"
    by (simp_all add: out over_def)
  ultimately show ?thesis
    unfolding up down snd_conv by blast
qed

lemma sample_udp_up:
  "udp_up (\<lambda>_. None) 10 0 [0, 2, 1] 0 [(3, Inr [2, 0, 1, 3]), (4, Inr [])] = ([(3, [1, 2]), (3, [3])], 4)"
proof -
  have dec: "decode_frame [0, 2, 1] = Incomplete" "decode_frame [0, 2, 1, 2, 0, 1, 3] = Ready [1, 2] 4"
    "decode_frame [0, 1, 3] = Ready [3] 3" "decode_frame [] = Incomplete"
    by code_simp+
  have fit: "payload_fits_datagram [1, 2]" "payload_fits_datagram [3]"
    by (simp_all add: payload_fits_datagram_def MAX_UDP_PAYLOAD_def)
  have "drain_frames (\<lambda>_. None) 0 [0, 2, 1] 0 = ([], Some (0, 0))"
    using dec by (simp add: drain_frames_Incomplete)
  moreover have "drain_frames (\<lambda>_. None) 0 [0, 2, 1, 2, 0, 1, 3] 0 = ([[1, 2], [3]], Some (2, 7))"
    using dec fit by (simp add: drain_frames_Ready drain_frames_Incomplete numeral_eq_Suc)
  moreover have "read_by UDP_SEND_BUFFER_BYTES 10 0 [(3, Inr [2, 0, 1, 3]), (4, Inr [])] = (Some (Inr [2, 0, 1, 3]), 3, [(4, Inr [])])"
    by (simp add: read_by_def UDP_SEND_BUFFER_BYTES_def)
  moreover have "read_by UDP_SEND_BUFFER_BYTES 13 3 [(4, Inr [])] = (Some (Inr []), 4, [])"
    by (simp add: read_by_def)
  ultimately show ?thesis
    by (simp add: udp_up.simps UDP_PENDING_BUFFER_BYTES_def)
qed

theorem udp_tunnel_carries_witness:
  "map snd (fo_to_backend (udp_pumps 0 [0, 2, 1] 10 100 (\<lambda>_. None) (\<lambda>_. None) [(3, Inr [2, 0, 1, 3]), (4, Inr [])] [])) =
     [[1, 2], [3]]"
proof -
  let ?out = "udp_pumps 0 [0, 2, 1] 10 100 (\<lambda>_. None) (\<lambda>_. None) [(3, Inr [2, 0, 1, 3]), (4, Inr [])] []"
  have none: "\<forall>k :: nat. (\<lambda>_. None :: io_error option) k = None" by simp
  note carries = udp_tunnel_carries [OF refl none none, of 0 "[0, 2, 1]" 10 100 "[(3, Inr [2, 0, 1, 3]), (4, Inr [])]" "[]"
    "[[1, 2], [3]]"]
  then obtain t where t: "fo_ends ?out = [(t, Inr ())]"
    and ok: "[0, 2, 1] @ stream_bytes [(3, Inr [2, 0, 1, 3]), (4, Inr [])] = concat (map frame_bytes [[1, 2], [3]]) \<and>
      (\<forall>d \<in> set [[1, 2], [3]]. payload_fits_datagram d) \<and> no_gap 10 0 [(3, Inr [2, 0, 1, 3]), (4, Inr [])] \<and>
      snd (udp_up (\<lambda>_. None) 10 0 [0, 2, 1] 0 [(3, Inr [2, 0, 1, 3]), (4, Inr [])]) \<le> t \<longrightarrow>
      map snd (fo_to_backend ?out) = [[1, 2], [3]]" by (elim conjE exE)
  have "t = 4"
    using t by (simp add: udp_pumps_def sample_udp_up)
  moreover have "concat (map frame_bytes [[1, 2], [3]]) = [0, 2, 1, 2, 0, 1, 3]"
    by code_simp
  ultimately show ?thesis
    using ok by (simp add: sample_udp_up payload_fits_datagram_def MAX_UDP_PAYLOAD_def)
qed

section \<open>What a stream is answered\<close>

lemma copy_until_budget:
  "byte_budget_ok budget \<Longrightarrow> snd (copy_both_ways_until budget now limit to_backend to_client client backend) = budget"
  by (simp add: copy_both_ways_until_def copy_with_budget_eq)

lemma copy_until_some:
  assumes "byte_budget_ok budget"
  shows "fst (copy_both_ways_until budget now (Some l) to_backend to_client client backend) \<noteq> []"
proof -
  obtain outs b where run: "copy_both_ways_until budget now (Some l) to_backend to_client client backend = (outs, b)"
    by (cases "copy_both_ways_until budget now (Some l) to_backend to_client client backend")
  have limit: "Some l \<noteq> None" by simp
  show ?thesis
    using copy_race_ends [OF disjI1 [OF limit]] run
    unfolding copy_both_ways_until_def copy_with_budget_eq [OF assms] by (auto split: if_splits)
qed

lemma serve_tcp_balanced:
  assumes "serve_tcp url_parse nw now backend leftover ct ft to_client client ps = (out, ps')" and "byte_budget_ok (ps_budget ps)"
  shows "ps_budget ps' = ps_budget ps \<and> fo_ends out \<noteq> [] \<and>
    fo_status out \<in> {Some StOk, Some StBackendFailed} \<and>
    (fo_status out = Some StOk \<longrightarrow> l4_backend_addr url_parse backend \<noteq> None)"
  using assms(1) copy_until_budget [OF assms(2)] copy_until_some [OF assms(2)]
  by (auto simp: serve_tcp_def refused_with_def Let_def split_beta split: option.splits sum.splits prod.splits if_splits)

lemma serve_udp_balanced:
  assumes "serve_udp url_parse nw us now backend leftover idle ft to_client client ps = (out, ps')"
    and "byte_budget_ok (ps_budget ps)"
  shows "ps_budget ps' = ps_budget ps \<and> fo_ends out \<noteq> [] \<and>
    fo_status out \<in> {Some StOk, Some StBackendFailed} \<and>
    (fo_status out = Some StOk \<longrightarrow> l4_backend_addr url_parse backend \<noteq> None)"
  using assms
  by (auto simp: serve_udp_def serve_udp_flow_def udp_pumps_def refused_with_def take_buffers_eq drop_reservation_def
      release_bytes_def Let_def split_beta split: option.splits sum.splits prod.splits if_splits)

text \<open>A host that the client may not reach, or that no route of the protocol serves.\<close>

definition unreachable_target :: "client_acl option \<Rightarrow> preface \<Rightarrow> routing_table \<Rightarrow> bool" where
  "unreachable_target acl p st \<longleftrightarrow>
     (\<exists>a. acl = Some a \<and> \<not> acl_allows_target a (pf_host p) (pf_port p)) \<or>
     l4_route (pf_host p) (pf_port p) (mode_from_l4_proto (pf_proto p)) st = None"


definition sample_process :: process_state where
  "sample_process = \<lparr>ps_budget = byte_budget_new 1000000, ps_dns = process_cache 0\<rparr>"

definition sample_socket :: udp_socket where
  "sample_socket = \<lparr>us_bind = \<lambda>_. None, us_connect = \<lambda>_. None, us_recv = \<lambda>_. [], us_send = \<lambda>_ _. None\<rparr>"


end
