(* ===== verification/Nexa_Auth.thy ===== *)
theory Nexa_Auth
  imports Nexa_Acl
begin

text \<open>
  The second factor: the credentials of clients and devices, the counters kept about them, and what one attempt to
  authenticate does to them. Sources: \<open>crates/nexapipe/src/auth/config/mod.rs\<close>, \<open>client.rs\<close>, \<open>device.rs\<close>,
  \<open>step.rs\<close>, \<open>auth/otpauth.rs\<close> (the spelling of a secret), \<open>auth/device_key.rs\<close>, \<open>auth/totp.rs\<close>,
  \<open>auth/state.rs\<close> and \<open>conn/auth/authenticator.rs\<close>. A table of clients or devices is a map. An attempt
  happens at one second of the clock, \<open>now\<close>. Base32, hex, HMAC, SHA-256, TOTP and Ed25519 are
  libraries: the fields of \<open>crypto\<close>.
\<close>

section \<open>Libraries\<close>

record crypto =
  base32_decode :: "string \<Rightarrow> bytes option"
  hex_decode :: "string \<Rightarrow> bytes option"
  hex_encode :: "bytes \<Rightarrow> string"
  sha256 :: "bytes \<Rightarrow> bytes"
  hmac_sha256 :: "bytes \<Rightarrow> bytes \<Rightarrow> unit + bytes"
  is_point :: "bytes \<Rightarrow> bool"
  is_signature :: "bytes \<Rightarrow> bool"
  key_verifies :: "bytes \<Rightarrow> bytes \<Rightarrow> bytes \<Rightarrow> bool"

section \<open>Configuration\<close>

datatype totp_algorithm = SHA1 | SHA256 | SHA512

text \<open>
  The builder of the TOTP library: an algorithm, digits, skew, step and secret give a check of a code at a second, or
  nothing when the library refuses them.
\<close>

type_synonym totp_library =
  "totp_algorithm \<Rightarrow> u8 \<Rightarrow> u16 \<Rightarrow> u64 \<Rightarrow> bytes \<Rightarrow> (u64 \<Rightarrow> string \<Rightarrow> u64 option) option"

fun totp_algorithm_name :: "totp_algorithm \<Rightarrow> string" where
  "totp_algorithm_name SHA1 = ''sha1''"
| "totp_algorithm_name SHA256 = ''sha256''"
| "totp_algorithm_name SHA512 = ''sha512''"

fun wire_algorithm :: "totp_algorithm \<Rightarrow> algorithm" where
  "wire_algorithm SHA1 = Sha1"
| "wire_algorithm SHA256 = Sha256"
| "wire_algorithm SHA512 = Sha512"

record device_auth =
  da_secret :: string
  da_public_key :: "string option"
  da_created_at :: string
  da_last_used :: "u64 option"
  da_last_used_step :: "u64 option"

record client_auth =
  ca_secret :: string
  ca_created_at :: string
  ca_allow_hosts :: "string list option"
  ca_allow_ports :: "u16 list option"
  ca_allow_ports_strict :: bool
  ca_pending_enrollment :: "string option"
  ca_devices :: "string \<rightharpoonup> device_auth"
  ca_unnamed_device_allowed :: bool
  ca_last_used :: "u64 option"
  ca_last_used_step :: "u64 option"
  ca_failed_attempts :: u32
  ca_locked_until :: "u64 option"
  ca_enrollment_failed_attempts :: u32
  ca_enrollment_locked_until :: "u64 option"

record auth_config =
  au_enabled :: bool
  au_issuer :: string
  au_algorithm :: totp_algorithm
  au_time_step :: u32
  au_digits :: u32
  au_window :: u32
  au_clients :: "string \<rightharpoonup> client_auth"
  au_max_attempts :: u32
  au_lockout_duration :: u64

definition DEFAULT_ISSUER :: string where "DEFAULT_ISSUER = ''NexaPipe''"

definition auth_config_default :: auth_config where
  "auth_config_default =
     \<lparr>au_enabled = False, au_issuer = DEFAULT_ISSUER, au_algorithm = SHA1, au_time_step = 30, au_digits = 6,
      au_window = 1, au_clients = Map.empty, au_max_attempts = 5, au_lockout_duration = 300\<rparr>"

text \<open>\<open>get_mut\<close> on a table: the entry is changed in place when it is there.\<close>

definition map_entry :: "'k \<Rightarrow> ('v \<Rightarrow> 'v) \<Rightarrow> ('k \<rightharpoonup> 'v) \<Rightarrow> ('k \<rightharpoonup> 'v)" where
  "map_entry k f t = (case t k of Some v \<Rightarrow> t(k \<mapsto> f v) | None \<Rightarrow> t)"

definition upd_client :: "string \<Rightarrow> (client_auth \<Rightarrow> client_auth) \<Rightarrow> auth_config \<Rightarrow> auth_config" where
  "upd_client i f cfg = cfg\<lparr>au_clients := map_entry i f (au_clients cfg)\<rparr>"

section \<open>Secrets\<close>

function without_seqs :: "string list \<Rightarrow> string \<Rightarrow> string" where
  "without_seqs ws s =
     (case s of
        [] \<Rightarrow> []
      | c # cs \<Rightarrow>
          (case List.find (\<lambda>w. w \<noteq> [] \<and> starts_with w s) ws of
             Some w \<Rightarrow> without_seqs ws (drop (length w) s)
           | None \<Rightarrow> c # without_seqs ws cs))"
  by pat_completeness auto
termination
  by (relation "measure (\<lambda>(ws, s). length s)") (auto simp: find_Some_iff)

declare without_seqs.simps [simp del]

definition BASE32_ALPHABET :: string where
  "BASE32_ALPHABET = ''ABCDEFGHIJKLMNOPQRSTUVWXYZ234567''"

definition ascii_upper :: "char \<Rightarrow> char" where
  "ascii_upper c = (if 97 \<le> (of_char c :: nat) \<and> (of_char c :: nat) \<le> 122 then char_of ((of_char c :: nat) - 32) else c)"

definition normalize_secret :: "string \<Rightarrow> string option" where
  "normalize_secret raw =
     (let cleaned = map ascii_upper (filter (\<lambda>c. c \<noteq> CHR ''='') (without_seqs white_space raw)) in
      if cleaned = [] \<or> \<not> list_all (\<lambda>c. c \<in> set BASE32_ALPHABET) cleaned then None else Some cleaned)"

definition decode_base32_secret :: "crypto \<Rightarrow> string \<Rightarrow> bytes option" where
  "decode_base32_secret cr stored =
     (case normalize_secret stored of None \<Rightarrow> None | Some secret \<Rightarrow> base32_decode cr secret)"

section \<open>Device keys\<close>

definition PUBLIC_KEY_LEN :: nat where "PUBLIC_KEY_LEN = 32"

datatype key_error = KeyNotHex string | KeyLength string nat | KeyNotPoint string

definition parse_public_key :: "crypto \<Rightarrow> string \<Rightarrow> key_error + bytes" where
  "parse_public_key cr stored =
     (let spelled = str_trim stored in
      case hex_decode cr spelled of
        None \<Rightarrow> Inl (KeyNotHex spelled)
      | Some decoded \<Rightarrow>
          if length decoded \<noteq> PUBLIC_KEY_LEN then Inl (KeyLength spelled (length decoded))
          else if is_point cr decoded then Inr decoded
          else Inl (KeyNotPoint spelled))"

definition public_key_hex :: "crypto \<Rightarrow> bytes \<Rightarrow> string" where
  "public_key_hex cr key = hex_encode cr key"

definition ed25519_verify :: "crypto \<Rightarrow> bytes \<Rightarrow> bytes \<Rightarrow> i64 \<Rightarrow> bytes \<Rightarrow> bool" where
  "ed25519_verify cr key nonce timestamp signature =
     (if \<not> is_signature cr signature then False
      else key_verifies cr key (challenge_message nonce timestamp) signature)"

section \<open>Counters\<close>

datatype step_verdict = StepAccepted bool | StepRefused

definition accept_step :: "u64 option \<Rightarrow> u64 \<Rightarrow> step_verdict \<times> u64 option" where
  "accept_step memory step =
     (case memory of
        Some previous \<Rightarrow>
          if step < previous then (StepRefused, memory) else (StepAccepted (memory \<noteq> Some step), Some step)
      | None \<Rightarrow> (StepAccepted (memory \<noteq> Some step), Some step))"

definition device_accept_step :: "u64 \<Rightarrow> device_auth \<Rightarrow> step_verdict \<times> device_auth" where
  "device_accept_step step d =
     (let (v, memory) = accept_step (da_last_used_step d) step in (v, d\<lparr>da_last_used_step := memory\<rparr>))"

definition client_accept_step :: "u64 \<Rightarrow> client_auth \<Rightarrow> step_verdict \<times> client_auth" where
  "client_accept_step step c =
     (let (v, memory) = accept_step (ca_last_used_step c) step in (v, c\<lparr>ca_last_used_step := memory\<rparr>))"

definition config_accept_step ::
    "string \<Rightarrow> string option \<Rightarrow> u64 \<Rightarrow> auth_config \<Rightarrow> step_verdict \<times> auth_config" where
  "config_accept_step client_id device_id step cfg =
     (case au_clients cfg client_id of
        None \<Rightarrow> (StepRefused, cfg)
      | Some client \<Rightarrow>
          (case device_id of
             Some name \<Rightarrow>
               (case ca_devices client name of
                  Some device \<Rightarrow>
                    let (v, device') = device_accept_step step device in
                    (v, upd_client client_id (\<lambda>c. c\<lparr>ca_devices := (ca_devices c)(name \<mapsto> device')\<rparr>) cfg)
                | None \<Rightarrow> (StepRefused, cfg))
           | None \<Rightarrow>
               let (v, client') = client_accept_step step client in (v, upd_client client_id (\<lambda>_. client') cfg)))"

definition is_locked_out :: "client_auth \<Rightarrow> u64 \<Rightarrow> bool" where
  "is_locked_out c now = (case ca_locked_until c of None \<Rightarrow> False | Some until \<Rightarrow> now < until)"

definition refresh_lockout :: "u64 \<Rightarrow> client_auth \<Rightarrow> client_auth" where
  "refresh_lockout now c =
     (if (case ca_locked_until c of None \<Rightarrow> False | Some until \<Rightarrow> until \<le> now)
      then c\<lparr>ca_locked_until := None, ca_failed_attempts := 0\<rparr> else c)"

definition client_record_failure :: "u32 \<Rightarrow> u64 \<Rightarrow> u64 \<Rightarrow> client_auth \<Rightarrow> client_auth" where
  "client_record_failure max_attempts lockout_duration now c =
     (let c = c\<lparr>ca_failed_attempts := ca_failed_attempts c + 1\<rparr> in
      if max_attempts \<le> ca_failed_attempts c then c\<lparr>ca_locked_until := Some (now + lockout_duration)\<rparr> else c)"

definition is_enrollment_locked_out :: "client_auth \<Rightarrow> u64 \<Rightarrow> bool" where
  "is_enrollment_locked_out c now =
     (case ca_enrollment_locked_until c of None \<Rightarrow> False | Some until \<Rightarrow> now < until)"

definition refresh_enrollment_lockout :: "u64 \<Rightarrow> client_auth \<Rightarrow> client_auth" where
  "refresh_enrollment_lockout now c =
     (if (case ca_enrollment_locked_until c of None \<Rightarrow> False | Some until \<Rightarrow> until \<le> now)
      then c\<lparr>ca_enrollment_locked_until := None, ca_enrollment_failed_attempts := 0\<rparr> else c)"

definition record_enrollment_success :: "client_auth \<Rightarrow> client_auth" where
  "record_enrollment_success c = c\<lparr>ca_enrollment_failed_attempts := 0, ca_enrollment_locked_until := None\<rparr>"

definition record_enrollment_failure :: "u32 \<Rightarrow> u64 \<Rightarrow> u64 \<Rightarrow> client_auth \<Rightarrow> client_auth" where
  "record_enrollment_failure max_attempts lockout_duration now c =
     (let c = c\<lparr>ca_enrollment_failed_attempts := ca_enrollment_failed_attempts c + 1\<rparr> in
      if max_attempts \<le> ca_enrollment_failed_attempts c
      then c\<lparr>ca_enrollment_locked_until := Some (now + lockout_duration)\<rparr> else c)"

definition client_record_success :: "u64 \<Rightarrow> client_auth \<Rightarrow> client_auth" where
  "client_record_success now c = c\<lparr>ca_failed_attempts := 0, ca_locked_until := None, ca_last_used := Some now\<rparr>"

definition record_device_success_at :: "string \<Rightarrow> u64 \<Rightarrow> client_auth \<Rightarrow> bool \<times> client_auth" where
  "record_device_success_at device now c =
     (case ca_devices c device of
        None \<Rightarrow> (False, c)
      | Some entry \<Rightarrow>
          (da_last_used entry \<noteq> Some now,
           c\<lparr>ca_devices := (ca_devices c)(device \<mapsto> entry\<lparr>da_last_used := Some now\<rparr>)\<rparr>))"

definition acl_of_client :: "client_auth \<Rightarrow> client_acl" where
  "acl_of_client c =
     acl_with_strict_ports (ca_allow_ports_strict c) (acl_from_hosts_and_ports (ca_allow_hosts c) (ca_allow_ports c))"

section \<open>Verification of a response\<close>

definition TIMESTAMP_WINDOW_SECS :: int where "TIMESTAMP_WINDOW_SECS = 30"

datatype credential_proof = SecretProof bytes | KeyProof bytes

datatype verified = Accepted "u64 option" | WrongCode

datatype auth_error =
    ClientNotFound
  | UnknownDevice
  | InvalidSecret
  | TotpCreationFailed
  | LockedOut
  | InvalidCode
  | StaleTimestamp
  | ChallengeMismatch
  | UnnamedDeviceNotAllowed
  | WrongSignature
  | MalformedSignature
  | ProtocolError string

record auth_request =
  rq_client_id :: string
  rq_device_id :: "string option"
  rq_nonce :: bytes
  rq_timestamp :: i64
  rq_signature :: bytes
  rq_code :: string

definition tag_eq :: "bytes \<Rightarrow> bytes \<Rightarrow> bool" where
  "tag_eq a b =
     (if length a \<noteq> length b then False
      else foldl (\<lambda>diff (x, y). diff OR (x XOR y)) 0 (zip a b) = 0)"

text \<open>The distance of two signed words.\<close>

definition abs_diff :: "i64 \<Rightarrow> i64 \<Rightarrow> int" where
  "abs_diff a b = \<bar>sint a - sint b\<bar>"

definition find_proof :: "crypto \<Rightarrow> client_auth \<Rightarrow> string option \<Rightarrow> auth_error + credential_proof" where
  "find_proof cr client device_id =
     (case device_id of
        None \<Rightarrow>
          if \<not> ca_unnamed_device_allowed client then Inl UnnamedDeviceNotAllowed
          else
            (case decode_base32_secret cr (ca_secret client) of
               None \<Rightarrow> Inl InvalidSecret | Some secret \<Rightarrow> Inr (SecretProof secret))
      | Some name \<Rightarrow>
          (case ca_devices client name of
             None \<Rightarrow> Inl UnknownDevice
           | Some device \<Rightarrow>
               (case da_public_key device of
                  Some key \<Rightarrow>
                    (case parse_public_key cr key of Inl _ \<Rightarrow> Inl InvalidSecret | Inr k \<Rightarrow> Inr (KeyProof k))
                | None \<Rightarrow>
                    (case decode_base32_secret cr (da_secret device) of
                       None \<Rightarrow> Inl InvalidSecret | Some secret \<Rightarrow> Inr (SecretProof secret)))))"

definition check_code :: "totp_library \<Rightarrow> auth_config \<Rightarrow> u64 \<Rightarrow> bytes \<Rightarrow> string \<Rightarrow> auth_error + u64 option" where
  "check_code totp cfg now secret code =
     (if 255 < au_digits cfg then Inl TotpCreationFailed
      else if 65535 < au_window cfg then Inl TotpCreationFailed
      else
        (case totp (au_algorithm cfg) (ucast (au_digits cfg)) (ucast (au_window cfg)) (ucast (au_time_step cfg)) secret of
           None \<Rightarrow> Inl TotpCreationFailed
         | Some check \<Rightarrow> Inr (check now code)))"

definition check_proof ::
    "crypto \<Rightarrow> totp_library \<Rightarrow> auth_config \<Rightarrow> u64 \<Rightarrow> auth_request \<Rightarrow> credential_proof \<Rightarrow> auth_error + verified" where
  "check_proof cr totp cfg now req proof =
     (case proof of
        SecretProof secret \<Rightarrow>
          (case hmac_challenge (hmac_sha256 cr) secret (rq_nonce req) (rq_timestamp req) of
             Inl _ \<Rightarrow> Inl InvalidSecret
           | Inr expected \<Rightarrow>
               if \<not> tag_eq (rq_signature req) expected then Inl ChallengeMismatch
               else
                 (case check_code totp cfg now secret (rq_code req) of
                    Inl e \<Rightarrow> Inl e
                  | Inr (Some step) \<Rightarrow> Inr (Accepted (Some step))
                  | Inr None \<Rightarrow> Inr WrongCode))
      | KeyProof key \<Rightarrow>
          if \<not> is_signature cr (rq_signature req) then Inl MalformedSignature
          else if \<not> ed25519_verify cr key (rq_nonce req) (rq_timestamp req) (rq_signature req) then Inl WrongSignature
          else Inr (Accepted None))"

text \<open>What the response of a client is worth once the client is known and may answer.\<close>

definition verify_against ::
    "crypto \<Rightarrow> totp_library \<Rightarrow> auth_config \<Rightarrow> client_auth \<Rightarrow> u64 \<Rightarrow> auth_request \<Rightarrow> auth_error + verified" where
  "verify_against cr totp cfg client now req =
     rbind (find_proof cr client (rq_device_id req)) (\<lambda>proof.
       if TIMESTAMP_WINDOW_SECS < abs_diff now (rq_timestamp req) then Inl StaleTimestamp
       else check_proof cr totp cfg now req proof)"

definition verify_response ::
    "crypto \<Rightarrow> totp_library \<Rightarrow> auth_config \<Rightarrow> u64 \<Rightarrow> auth_request \<Rightarrow> auth_error + verified" where
  "verify_response cr totp cfg now req =
     (if \<not> au_enabled cfg then Inr (Accepted None)
      else
        (case au_clients cfg (rq_client_id req) of
           None \<Rightarrow> Inl ClientNotFound
         | Some client \<Rightarrow>
             if is_locked_out client now then Inl LockedOut else verify_against cr totp cfg client now req))"

section \<open>An attempt\<close>

record peer_identity =
  pi_client_id :: "string option"
  pi_device :: "string option"

text \<open>
  The verdict, with the authorization and the identity the connection is registered under; the configuration after
  it; and whether the counters have to be written down.
\<close>

definition accepted_attempt ::
    "u64 \<Rightarrow> auth_request \<Rightarrow> u64 option \<Rightarrow> auth_config \<Rightarrow>
      (auth_error + client_acl \<times> peer_identity) \<times> auth_config \<times> bool" where
  "accepted_attempt now req step cfg =
     (let client_id = rq_client_id req;
          (step_verdict, cfg) =
            (case step of
               Some step \<Rightarrow> config_accept_step client_id (rq_device_id req) step cfg
             | None \<Rightarrow> (StepAccepted False, cfg))
      in
      case step_verdict of
        StepRefused \<Rightarrow> (Inl InvalidCode, cfg, False)
      | StepAccepted step_moved \<Rightarrow>
          let (device_stamp_moved, cfg) =
                (case rq_device_id req of
                   Some name \<Rightarrow>
                     (case au_clients cfg client_id of
                        Some client \<Rightarrow>
                          let (moved, client') = record_device_success_at name now client in
                          (moved, upd_client client_id (\<lambda>_. client') cfg)
                      | None \<Rightarrow> (False, cfg))
                 | None \<Rightarrow> (False, cfg));
              dirty = (step_moved \<or> device_stamp_moved \<or>
                (case au_clients cfg client_id of
                   Some c \<Rightarrow> ca_failed_attempts c \<noteq> 0 \<or> ca_locked_until c \<noteq> None
                 | None \<Rightarrow> False));
              cfg = (if dirty then upd_client client_id (client_record_success now) cfg else cfg);
              acl = (case au_clients cfg client_id of Some c \<Rightarrow> acl_of_client c | None \<Rightarrow> acl_unrestricted)
          in (Inr (acl, \<lparr>pi_client_id = Some client_id, pi_device = rq_device_id req\<rparr>), cfg, dirty))"

definition authenticate ::
    "crypto \<Rightarrow> totp_library \<Rightarrow> u64 \<Rightarrow> auth_request \<Rightarrow> auth_config \<Rightarrow>
      (auth_error + client_acl \<times> peer_identity) \<times> auth_config \<times> bool" where
  "authenticate cr totp now req cfg =
     (let client_id = rq_client_id req;
          cfg = upd_client client_id (refresh_lockout now) cfg
      in
      case verify_response cr totp cfg now req of
        Inr (Accepted step) \<Rightarrow> accepted_attempt now req step cfg
      | Inr WrongCode \<Rightarrow>
          (Inl InvalidCode,
           upd_client client_id (client_record_failure (au_max_attempts cfg) (au_lockout_duration cfg) now) cfg, True)
      | Inl e \<Rightarrow> (Inl e, cfg, False))"

section \<open>The state file\<close>

record device_state =
  ds_last_used :: "u64 option"
  ds_last_used_step :: "u64 option"

record client_state =
  cs_failed_attempts :: u32
  cs_locked_until :: "u64 option"
  cs_enrollment_failed_attempts :: u32
  cs_enrollment_locked_until :: "u64 option"
  cs_enrollment_token_fingerprint :: "string option"
  cs_last_used :: "u64 option"
  cs_last_used_step :: "u64 option"
  cs_devices :: "string \<rightharpoonup> device_state"

record runtime_state =
  rs_clients :: "string \<rightharpoonup> client_state"

definition counter_snapshot :: "auth_config \<Rightarrow> auth_config" where
  "counter_snapshot cfg =
     cfg\<lparr>au_issuer := [],
       au_clients := (\<lambda>i. map_option (\<lambda>client.
         client\<lparr>ca_secret := [], ca_created_at := [], ca_allow_hosts := None, ca_allow_ports := None,
           ca_allow_ports_strict := False,
           ca_devices := (\<lambda>name. map_option (\<lambda>device.
             device\<lparr>da_secret := [], da_public_key := None, da_created_at := []\<rparr>) (ca_devices client name))\<rparr>)
         (au_clients cfg i))\<rparr>"

definition token_fingerprint :: "crypto \<Rightarrow> string \<Rightarrow> string" where
  "token_fingerprint cr token = hex_encode cr (take 16 (sha256 cr (as_bytes token)))"

definition enrollment_fingerprint :: "crypto \<Rightarrow> client_auth \<Rightarrow> string option" where
  "enrollment_fingerprint cr client =
     (if ca_enrollment_failed_attempts client = 0 \<and> ca_enrollment_locked_until client = None then None
      else map_option (token_fingerprint cr) (ca_pending_enrollment client))"

definition snapshot_devices :: "client_auth \<Rightarrow> (string \<rightharpoonup> device_state)" where
  "snapshot_devices client = (\<lambda>name.
     case ca_devices client name of
       None \<Rightarrow> None
     | Some device \<Rightarrow>
         if da_last_used device = None \<and> da_last_used_step device = None then None
         else Some \<lparr>ds_last_used = da_last_used device, ds_last_used_step = da_last_used_step device\<rparr>)"

definition state_is_empty :: "client_state \<Rightarrow> bool" where
  "state_is_empty s \<longleftrightarrow>
     cs_failed_attempts s = 0 \<and> cs_locked_until s = None \<and> cs_enrollment_failed_attempts s = 0 \<and>
     cs_enrollment_locked_until s = None \<and> cs_last_used s = None \<and> cs_last_used_step s = None \<and>
     cs_devices s = Map.empty"

definition snapshot :: "crypto \<Rightarrow> auth_config \<Rightarrow> runtime_state" where
  "snapshot cr cfg =
     \<lparr>rs_clients = (\<lambda>i.
        case au_clients cfg i of
          None \<Rightarrow> None
        | Some client \<Rightarrow>
            let state =
              \<lparr>cs_failed_attempts = ca_failed_attempts client, cs_locked_until = ca_locked_until client,
               cs_enrollment_failed_attempts = ca_enrollment_failed_attempts client,
               cs_enrollment_locked_until = ca_enrollment_locked_until client,
               cs_enrollment_token_fingerprint = enrollment_fingerprint cr client,
               cs_last_used = ca_last_used client, cs_last_used_step = ca_last_used_step client,
               cs_devices = snapshot_devices client\<rparr>
            in if state_is_empty state then None else Some state)\<rparr>"

definition counters_belong_to_this_token :: "crypto \<Rightarrow> client_state \<Rightarrow> client_auth \<Rightarrow> bool" where
  "counters_belong_to_this_token cr state client =
     (case cs_enrollment_token_fingerprint state of
        None \<Rightarrow> True
      | Some recorded \<Rightarrow>
          (case ca_pending_enrollment client of
             None \<Rightarrow> False
           | Some token \<Rightarrow> recorded = token_fingerprint cr token))"

definition apply_device :: "client_state \<Rightarrow> string \<Rightarrow> device_auth \<Rightarrow> device_auth" where
  "apply_device state name device =
     (case cs_devices state name of
        None \<Rightarrow> device
      | Some ds \<Rightarrow> device\<lparr>da_last_used := ds_last_used ds, da_last_used_step := ds_last_used_step ds\<rparr>)"

definition apply_client :: "crypto \<Rightarrow> client_state \<Rightarrow> client_auth \<Rightarrow> client_auth" where
  "apply_client cr state client =
     (let mine = counters_belong_to_this_token cr state client in
      client\<lparr>ca_failed_attempts := cs_failed_attempts state, ca_locked_until := cs_locked_until state,
        ca_enrollment_failed_attempts :=
          (if mine then cs_enrollment_failed_attempts state else ca_enrollment_failed_attempts client),
        ca_enrollment_locked_until :=
          (if mine then cs_enrollment_locked_until state else ca_enrollment_locked_until client),
        ca_last_used := cs_last_used state, ca_last_used_step := cs_last_used_step state,
        ca_devices := (\<lambda>name. map_option (apply_device state name) (ca_devices client name))\<rparr>)"

definition apply_state :: "crypto \<Rightarrow> runtime_state \<Rightarrow> auth_config \<Rightarrow> auth_config" where
  "apply_state cr state cfg =
     cfg\<lparr>au_clients := (\<lambda>i.
       map_option (\<lambda>client.
         case rs_clients state i of None \<Rightarrow> client | Some cs \<Rightarrow> apply_client cr cs client) (au_clients cfg i))\<rparr>"

definition save_auth_state_to :: "crypto \<Rightarrow> auth_config \<Rightarrow> runtime_state" where
  "save_auth_state_to cr cfg = snapshot cr cfg"

definition persist_auth_state :: "crypto \<Rightarrow> auth_config \<Rightarrow> runtime_state" where
  "persist_auth_state cr cfg = save_auth_state_to cr (counter_snapshot cfg)"

section \<open>Tables\<close>

lemma map_entry_simps [simp]:
  "t k = Some v \<Longrightarrow> map_entry k f t = t(k \<mapsto> f v)"
  "t k = None \<Longrightarrow> map_entry k f t = t"
  by (simp_all add: map_entry_def)

lemma map_entry_apply: "map_entry k f t j = (if j = k then map_option f (t k) else t j)"
  by (simp add: map_entry_def split: option.split)

lemma upd_client_simps [simp]:
  "au_enabled (upd_client i f cfg) = au_enabled cfg"
  "au_algorithm (upd_client i f cfg) = au_algorithm cfg"
  "au_time_step (upd_client i f cfg) = au_time_step cfg"
  "au_digits (upd_client i f cfg) = au_digits cfg"
  "au_window (upd_client i f cfg) = au_window cfg"
  "au_max_attempts (upd_client i f cfg) = au_max_attempts cfg"
  "au_lockout_duration (upd_client i f cfg) = au_lockout_duration cfg"
  by (simp_all add: upd_client_def)

lemma upd_client_lookup: "au_clients (upd_client i f cfg) j = (if j = i then map_option f (au_clients cfg i) else au_clients cfg j)"
  by (simp add: upd_client_def map_entry_apply)

lemma upd_client_upd_client [simp]: "upd_client i g (upd_client i f cfg) = upd_client i (g \<circ> f) cfg"
  by (cases "au_clients cfg i") (simp_all add: upd_client_def)

lemma upd_client_cong: "(\<And>c. au_clients cfg i = Some c \<Longrightarrow> f c = g c) \<Longrightarrow> upd_client i f cfg = upd_client i g cfg"
  by (cases "au_clients cfg i") (simp_all add: upd_client_def)

section \<open>The comparison in constant time\<close>

lemma foldl_or_zero:
  fixes d :: "8 word"
  shows "length a = length b \<Longrightarrow> foldl (\<lambda>diff (x, y). diff OR (x XOR y)) d (zip a b) = 0 \<longleftrightarrow> d = 0 \<and> a = b"
proof (induction a b arbitrary: d rule: list_induct2)
  case (Cons x xs y ys)
  have "d OR (x XOR y) = 0 \<longleftrightarrow> d = 0 \<and> x = y"
    by (metis or_eq_0_iff xor_self_eq xor.left_neutral xor.assoc xor.right_neutral)
  then show ?case using Cons.IH by auto
qed simp

lemma tag_eq_iff: "tag_eq a b \<longleftrightarrow> a = b"
  by (auto simp: tag_eq_def foldl_or_zero)

section \<open>Lockouts\<close>

text \<open>
  What a lockout promises, whoever keeps it: a slot that is open counts the wrong guesses, and is shut for a time when
  they are too many.
\<close>

datatype guard = GOpen u32 | GShut u64

definition guard_of :: "u32 \<Rightarrow> u64 option \<Rightarrow> guard" where
  "guard_of tries until = (case until of None \<Rightarrow> GOpen tries | Some u \<Rightarrow> GShut u)"

fun guard_at :: "u64 \<Rightarrow> guard \<Rightarrow> guard" where
  "guard_at now (GOpen n) = GOpen n"
| "guard_at now (GShut u) = (if now < u then GShut u else GOpen 0)"

fun guard_fail :: "u32 \<Rightarrow> u64 \<Rightarrow> u64 \<Rightarrow> guard \<Rightarrow> guard" where
  "guard_fail m d now (GOpen n) = (if m \<le> n + 1 then GShut (now + d) else GOpen (n + 1))"
| "guard_fail m d now (GShut u) = GShut u"

locale lockout_slot =
  fixes tries :: "'s \<Rightarrow> u32" and until :: "'s \<Rightarrow> u64 option" and locked :: "'s \<Rightarrow> u64 \<Rightarrow> bool"
    and refresh :: "u64 \<Rightarrow> 's \<Rightarrow> 's" and fails :: "u32 \<Rightarrow> u64 \<Rightarrow> u64 \<Rightarrow> 's \<Rightarrow> 's"
  assumes locked_iff: "locked s now \<longleftrightarrow> (\<exists>u. until s = Some u \<and> now < u)"
    and refresh_over: "until s = Some u \<Longrightarrow> u \<le> now \<Longrightarrow> tries (refresh now s) = 0 \<and> until (refresh now s) = None"
    and refresh_else: "(\<And>u. until s = Some u \<Longrightarrow> now < u) \<Longrightarrow> refresh now s = s"
    and fails_tries: "tries (fails m d now s) = tries s + 1"
    and fails_until: "until (fails m d now s) = (if m \<le> tries s + 1 then Some (now + d) else until s)"
begin

lemma guard_refresh: "guard_of (tries (refresh now s)) (until (refresh now s)) = guard_at now (guard_of (tries s) (until s))"
proof (cases "\<exists>u. until s = Some u \<and> u \<le> now")
  case True
  then show ?thesis using refresh_over by (auto simp: guard_of_def)
next
  case False
  then have "refresh now s = s" using refresh_else [of s now] by (metis linorder_not_le)
  with False show ?thesis by (auto simp: guard_of_def split: option.split)
qed

lemma locked_refresh: "locked (refresh now s) now \<longleftrightarrow> (\<exists>u. guard_at now (guard_of (tries s) (until s)) = GShut u)"
proof (cases "\<exists>u. until s = Some u \<and> u \<le> now")
  case True
  then show ?thesis using refresh_over by (auto simp: guard_of_def locked_iff split: if_splits)
next
  case False
  then have "refresh now s = s" using refresh_else [of s now] by (metis linorder_not_le)
  with False show ?thesis by (auto simp: guard_of_def locked_iff split: option.split)
qed

lemma guard_fails:
  assumes "\<not> locked (refresh now s) now"
  shows "guard_of (tries (fails m d now (refresh now s))) (until (fails m d now (refresh now s))) =
    guard_fail m d now (guard_at now (guard_of (tries s) (until s)))"
proof -
  have open_now: "until (refresh now s) = None"
  proof (rule ccontr)
    assume "until (refresh now s) \<noteq> None"
    then obtain u where u: "until (refresh now s) = Some u" by blast
    show False
    proof (cases "\<exists>u. until s = Some u \<and> u \<le> now")
      case True
      then show False using refresh_over u by auto
    next
      case False
      then have "refresh now s = s" using refresh_else [of s now] by (metis linorder_not_le)
      with False u assms show False by (auto simp: locked_iff)
    qed
  qed
  then have "guard_at now (guard_of (tries s) (until s)) = GOpen (tries (refresh now s))"
    using guard_refresh [of now s] by (simp add: guard_of_def)
  then show ?thesis using open_now by (simp add: fails_tries fails_until guard_of_def)
qed

end

interpretation own_lock: lockout_slot ca_failed_attempts ca_locked_until is_locked_out refresh_lockout client_record_failure
  by unfold_locales
    (auto simp: is_locked_out_def refresh_lockout_def client_record_failure_def Let_def split: option.splits)

interpretation token_lock: lockout_slot ca_enrollment_failed_attempts ca_enrollment_locked_until is_enrollment_locked_out
    refresh_enrollment_lockout record_enrollment_failure
  by unfold_locales
    (auto simp: is_enrollment_locked_out_def refresh_enrollment_lockout_def record_enrollment_failure_def Let_def
      split: option.splits)

section \<open>The door\<close>

text \<open>
  The contract of the authenticator, per client: a guard against guessing, and for every credential the latest step a
  code was accepted for. What a response is worth against the credential on file is all that an attempt
  brings to it.
\<close>

record door =
  dr_guard :: guard
  dr_steps :: "string option \<rightharpoonup> u64"

datatype worth = Proves "u64 option" | Guesses | Worthless

definition knock :: "u32 \<Rightarrow> u64 \<Rightarrow> u64 \<Rightarrow> string option \<Rightarrow> worth \<Rightarrow> door \<Rightarrow> bool \<times> door" where
  "knock m d now who w dr =
     (let g = guard_at now (dr_guard dr) in
      case g of
        GShut u \<Rightarrow> (False, dr\<lparr>dr_guard := g\<rparr>)
      | GOpen n \<Rightarrow>
          (case w of
             Worthless \<Rightarrow> (False, dr\<lparr>dr_guard := g\<rparr>)
           | Guesses \<Rightarrow> (False, dr\<lparr>dr_guard := guard_fail m d now g\<rparr>)
           | Proves None \<Rightarrow> (True, dr\<lparr>dr_guard := GOpen 0\<rparr>)
           | Proves (Some step) \<Rightarrow>
               if \<exists>previous. dr_steps dr who = Some previous \<and> step < previous then (False, dr\<lparr>dr_guard := g\<rparr>)
               else (True, \<lparr>dr_guard = GOpen 0, dr_steps = (dr_steps dr)(who \<mapsto> step)\<rparr>)))"

definition step_memory :: "client_auth \<Rightarrow> string option \<rightharpoonup> u64" where
  "step_memory c = (\<lambda>who. case who of None \<Rightarrow> ca_last_used_step c | Some name \<Rightarrow> Option.bind (ca_devices c name) da_last_used_step)"

definition door_of :: "client_auth \<Rightarrow> door" where
  "door_of c = \<lparr>dr_guard = guard_of (ca_failed_attempts c) (ca_locked_until c), dr_steps = step_memory c\<rparr>"

fun worth_of :: "auth_error + verified \<Rightarrow> worth" where
  "worth_of (Inl e) = Worthless"
| "worth_of (Inr WrongCode) = Guesses"
| "worth_of (Inr (Accepted step)) = Proves step"

definition device_without :: "device_auth \<Rightarrow> device_auth" where
  "device_without d = d\<lparr>da_last_used := None, da_last_used_step := None\<rparr>"

definition client_without :: "client_auth \<Rightarrow> client_auth" where
  "client_without c =
     c\<lparr>ca_devices := (\<lambda>name. map_option device_without (ca_devices c name)),
       ca_last_used := None, ca_last_used_step := None, ca_failed_attempts := 0, ca_locked_until := None,
       ca_enrollment_failed_attempts := 0, ca_enrollment_locked_until := None\<rparr>"

definition without_counters :: "auth_config \<Rightarrow> auth_config" where
  "without_counters cfg = cfg\<lparr>au_clients := (\<lambda>i. map_option client_without (au_clients cfg i))\<rparr>"

lemma device_without_simps [simp]:
  "device_without (d\<lparr>da_last_used := u\<rparr>) = device_without d"
  "device_without (d\<lparr>da_last_used_step := v\<rparr>) = device_without d"
  "da_secret (device_without d) = da_secret d"
  "da_public_key (device_without d) = da_public_key d"
  by (simp_all add: device_without_def)

lemma client_without_device:
  "device_without d = device_without e \<Longrightarrow> ca_devices c name = Some e \<Longrightarrow>
     client_without (c\<lparr>ca_devices := (ca_devices c)(name \<mapsto> d)\<rparr>) = client_without c"
proof -
  assume "device_without d = device_without e" "ca_devices c name = Some e"
  then have "(\<lambda>n. map_option device_without (((ca_devices c)(name \<mapsto> d)) n)) = (\<lambda>n. map_option device_without (ca_devices c n))"
    by auto
  then show ?thesis by (simp add: client_without_def del: fun_upd_apply)
qed

lemma client_without_simps [simp]:
  "client_without (c\<lparr>ca_last_used := u\<rparr>) = client_without c"
  "client_without (c\<lparr>ca_last_used_step := u\<rparr>) = client_without c"
  "client_without (c\<lparr>ca_failed_attempts := n\<rparr>) = client_without c"
  "client_without (c\<lparr>ca_locked_until := u\<rparr>) = client_without c"
  "client_without (refresh_lockout now c) = client_without c"
  "client_without (client_record_failure m d now c) = client_without c"
  "client_without (client_record_success now c) = client_without c"
  by (simp_all add: client_without_def refresh_lockout_def client_record_failure_def client_record_success_def Let_def)

lemma find_proof_without: "find_proof cr (client_without c) who = find_proof cr c who"
  by (simp add: find_proof_def client_without_def split: option.splits)

lemma verify_against_cong:
  assumes "client_without c = client_without c'" and "without_counters cfg = without_counters cfg'"
  shows "verify_against cr totp cfg c now req = verify_against cr totp cfg' c' now req"
proof -
  have "find_proof cr c who = find_proof cr c' who" for who
    using find_proof_without assms(1) by metis
  moreover have "au_digits cfg = au_digits cfg'" "au_window cfg = au_window cfg'" "au_time_step cfg = au_time_step cfg'"
    "au_algorithm cfg = au_algorithm cfg'"
    using arg_cong [OF assms(2), of au_digits] arg_cong [OF assms(2), of au_window] arg_cong [OF assms(2), of au_time_step]
      arg_cong [OF assms(2), of au_algorithm] by (simp_all add: without_counters_def)
  then have "check_code totp cfg = check_code totp cfg'" by (intro ext) (simp add: check_code_def)
  then have "check_proof cr totp cfg = check_proof cr totp cfg'" by (intro ext) (simp add: check_proof_def split: credential_proof.split sum.split)
  ultimately show ?thesis by (simp add: verify_against_def cong: if_cong)
qed

section \<open>An attempt, seen from the client it names\<close>

definition take_step :: "string option \<Rightarrow> u64 option \<Rightarrow> client_auth \<Rightarrow> step_verdict \<times> client_auth" where
  "take_step who step c =
     (case step of
        None \<Rightarrow> (StepAccepted False, c)
      | Some s \<Rightarrow>
          (case who of
             None \<Rightarrow> client_accept_step s c
           | Some name \<Rightarrow>
               (case ca_devices c name of
                  None \<Rightarrow> (StepRefused, c)
                | Some d \<Rightarrow> let (v, d') = device_accept_step s d in (v, c\<lparr>ca_devices := (ca_devices c)(name \<mapsto> d')\<rparr>))))"

definition stamp :: "u64 \<Rightarrow> string option \<Rightarrow> client_auth \<Rightarrow> bool \<times> client_auth" where
  "stamp now who c = (case who of None \<Rightarrow> (False, c) | Some name \<Rightarrow> record_device_success_at name now c)"

definition admit :: "u64 \<Rightarrow> string option \<Rightarrow> u64 option \<Rightarrow> client_auth \<Rightarrow> bool \<times> client_auth \<times> bool" where
  "admit now who step c =
     (case take_step who step c of
        (StepRefused, c) \<Rightarrow> (False, c, False)
      | (StepAccepted moved, c) \<Rightarrow>
          let (stamped, c) = stamp now who c;
              dirty = (moved \<or> stamped \<or> ca_failed_attempts c \<noteq> 0 \<or> ca_locked_until c \<noteq> None)
          in (True, if dirty then client_record_success now c else c, dirty))"

definition attempt_client ::
    "crypto \<Rightarrow> totp_library \<Rightarrow> auth_config \<Rightarrow> u64 \<Rightarrow> auth_request \<Rightarrow> client_auth \<Rightarrow> (auth_error + unit) \<times> client_auth \<times> bool" where
  "attempt_client cr totp cfg now req c =
     (let c1 = refresh_lockout now c in
      if is_locked_out c1 now then (Inl LockedOut, c1, False)
      else
        (case verify_against cr totp cfg c now req of
           Inl e \<Rightarrow> (Inl e, c1, False)
         | Inr WrongCode \<Rightarrow>
             (Inl InvalidCode, client_record_failure (au_max_attempts cfg) (au_lockout_duration cfg) now c1, True)
         | Inr (Accepted step) \<Rightarrow>
             let (ok, c2, dirty) = admit now (rq_device_id req) step c1 in
             (if ok then Inr () else Inl InvalidCode, c2, dirty)))"

lemma without_counters_upd:
  "(\<And>c. au_clients cfg i = Some c \<Longrightarrow> client_without (f c) = client_without c) \<Longrightarrow>
     without_counters (upd_client i f cfg) = without_counters cfg"
  by (cases "au_clients cfg i") (auto simp: without_counters_def upd_client_def fun_eq_iff)

lemma accept_step_cases:
  obtains "accept_step memory step = (StepRefused, memory)" "\<exists>previous. memory = Some previous \<and> step < previous"
  | "accept_step memory step = (StepAccepted (memory \<noteq> Some step), Some step)"
    "\<not> (\<exists>previous. memory = Some previous \<and> step < previous)"
  by (cases memory) (auto simp: accept_step_def split: if_splits)

lemma upd_client_same: "au_clients cfg i = Some c \<Longrightarrow> upd_client i (\<lambda>_. c) cfg = cfg"
  by (simp add: upd_client_def fun_upd_idem)

lemma take_step_config:
  assumes "au_clients cfg i = Some c" and "take_step who step c = (v, c')"
  shows "(case step of Some s \<Rightarrow> config_accept_step i who s cfg | None \<Rightarrow> (StepAccepted False, cfg)) =
    (v, upd_client i (\<lambda>_. c') cfg)"
proof -
  have "upd_client i (\<lambda>c. c\<lparr>ca_devices := (ca_devices c)(n \<mapsto> d)\<rparr>) cfg =
      upd_client i (\<lambda>_. c\<lparr>ca_devices := (ca_devices c)(n \<mapsto> d)\<rparr>) cfg" for n d
    by (rule upd_client_cong) (simp add: assms(1))
  then show ?thesis
    using assms by (auto simp: take_step_def config_accept_step_def upd_client_same Let_def split: option.splits prod.splits)
qed

lemma stamp_config:
  assumes "au_clients cfg i = Some c" and "stamp now who c = (b, c')"
  shows "(case who of
      Some name \<Rightarrow>
        (case au_clients cfg i of
           Some client \<Rightarrow>
             let (moved, client') = record_device_success_at name now client in (moved, upd_client i (\<lambda>_. client') cfg)
         | None \<Rightarrow> (False, cfg))
    | None \<Rightarrow> (False, cfg)) = (b, upd_client i (\<lambda>_. c') cfg)"
  using assms by (auto simp: stamp_def upd_client_same split: option.splits prod.splits)

lemma accepted_attempt_local:
  assumes "au_clients cfg (rq_client_id req) = Some c" and "admit now (rq_device_id req) step c = (ok, c', dirty)"
  shows "accepted_attempt now req step cfg =
    (if ok then Inr (acl_of_client c', \<lparr>pi_client_id = Some (rq_client_id req), pi_device = rq_device_id req\<rparr>)
       else Inl InvalidCode, upd_client (rq_client_id req) (\<lambda>_. c') cfg, dirty)"
proof -
  let ?i = "rq_client_id req"
  have look: "au_clients (upd_client ?i (\<lambda>_. x) cfg) ?i = Some x" for x
    using assms(1) by (simp add: upd_client_lookup)
  have twice: "upd_client ?i f (upd_client ?i (\<lambda>_. x) cfg) = upd_client ?i (\<lambda>_. f x) cfg" for f x
    by (simp add: comp_def)
  obtain v c1 where step: "take_step (rq_device_id req) step c = (v, c1)" by (metis prod.exhaust)
  note 1 = take_step_config [OF assms(1) step]
  show ?thesis
  proof (cases v)
    case StepRefused
    then show ?thesis using assms(2) step 1 by (simp add: accepted_attempt_def admit_def Let_def)
  next
    case (StepAccepted moved)
    obtain b c2 where st: "stamp now (rq_device_id req) c1 = (b, c2)" by (metis prod.exhaust)
    note 2 = stamp_config [OF look st, unfolded Let_def]
    let ?d = "moved \<or> b \<or> ca_failed_attempts c2 \<noteq> 0 \<or> ca_locked_until c2 \<noteq> None"
    have res: "ok" "c' = (if ?d then client_record_success now c2 else c2)" "dirty = ?d"
      using assms(2) step st StepAccepted by (auto simp: admit_def Let_def)
    show ?thesis
      unfolding accepted_attempt_def Let_def 1 prod.case StepAccepted step_verdict.case 2
      unfolding twice look prod.case option.case res
      by (cases ?d) (simp_all only: if_True if_False twice look option.case res(1))
  qed
qed

lemma authenticate_local:
  assumes "au_enabled cfg" and "au_clients cfg (rq_client_id req) = Some c"
    and "attempt_client cr totp cfg now req c = (r, c', dirty)"
  shows "authenticate cr totp now req cfg =
    (case r of Inl e \<Rightarrow> Inl e
       | Inr _ \<Rightarrow> Inr (acl_of_client c', \<lparr>pi_client_id = Some (rq_client_id req), pi_device = rq_device_id req\<rparr>),
     upd_client (rq_client_id req) (\<lambda>_. c') cfg, dirty)"
proof -
  let ?i = "rq_client_id req" and ?c = "refresh_lockout now c"
  let ?cfg = "upd_client ?i (refresh_lockout now) cfg"
  have c1: "au_clients ?cfg ?i = Some ?c" using assms(2) by (simp add: upd_client_lookup)
  have cfg1: "?cfg = upd_client ?i (\<lambda>_. ?c) cfg"
    by (rule upd_client_cong) (simp add: assms(2))
  have "verify_against cr totp ?cfg ?c now req = verify_against cr totp cfg c now req"
    by (rule verify_against_cong) (simp_all add: without_counters_upd)
  then have v: "verify_response cr totp ?cfg now req =
      (if is_locked_out ?c now then Inl LockedOut else verify_against cr totp cfg c now req)"
    using assms(1) c1 by (simp add: verify_response_def)
  have upd: "upd_client ?i f ?cfg = upd_client ?i (\<lambda>_. f ?c) cfg" for f
    unfolding cfg1 by (simp add: comp_def)
  consider (locked) "is_locked_out ?c now"
    | (refused) e where "\<not> is_locked_out ?c now" "verify_against cr totp cfg c now req = Inl e"
    | (wrong) "\<not> is_locked_out ?c now" "verify_against cr totp cfg c now req = Inr WrongCode"
    | (right) step where "\<not> is_locked_out ?c now" "verify_against cr totp cfg c now req = Inr (Accepted step)"
    by (cases "verify_against cr totp cfg c now req") (metis verified.exhaust)+
  then show ?thesis
  proof cases
    case (right step)
    obtain ok c2 d where ad: "admit now (rq_device_id req) step ?c = (ok, c2, d)" by (metis prod.exhaust)
    have "r = (if ok then Inr () else Inl InvalidCode)" "c' = c2" "dirty = d"
      using assms(3) right ad by (auto simp: attempt_client_def Let_def)
    then show ?thesis
      using accepted_attempt_local [OF c1 ad] v right by (simp add: authenticate_def Let_def comp_def)
  qed (use assms(3) v in \<open>auto simp: authenticate_def attempt_client_def Let_def cfg1 comp_def\<close>)
qed

lemma step_memory_device:
  "ca_devices c name = Some d \<Longrightarrow>
     step_memory (c\<lparr>ca_devices := (ca_devices c)(name \<mapsto> d')\<rparr>) =
       (if da_last_used_step d' = da_last_used_step d then step_memory c
        else (step_memory c)(Some name := da_last_used_step d'))"
  by (auto simp: step_memory_def fun_eq_iff split: option.splits)

lemma step_memory_simps [simp]:
  "step_memory (c\<lparr>ca_failed_attempts := n\<rparr>) = step_memory c"
  "step_memory (c\<lparr>ca_locked_until := u\<rparr>) = step_memory c"
  "step_memory (c\<lparr>ca_last_used := u\<rparr>) = step_memory c"
  "step_memory (client_record_success now c) = step_memory c"
  "step_memory (refresh_lockout now c) = step_memory c"
  "step_memory (client_record_failure m d now c) = step_memory c"
  "step_memory (c\<lparr>ca_last_used_step := x\<rparr>) = (step_memory c)(None := x)"
  by (auto simp: step_memory_def client_record_success_def refresh_lockout_def client_record_failure_def Let_def fun_eq_iff
      split: option.splits)

lemma take_step_spec:
  assumes "take_step who step c = (v, c')" and "\<And>name. who = Some name \<Longrightarrow> ca_devices c name \<noteq> None"
  shows "client_without c' = client_without c \<and> ca_failed_attempts c' = ca_failed_attempts c \<and>
    ca_locked_until c' = ca_locked_until c \<and>
    (case v of
       StepRefused \<Rightarrow> c' = c \<and> (\<exists>s previous. step = Some s \<and> step_memory c who = Some previous \<and> s < previous)
     | StepAccepted moved \<Rightarrow>
         (\<not> moved \<longrightarrow> c' = c) \<and>
         step_memory c' = (case step of None \<Rightarrow> step_memory c | Some s \<Rightarrow> (step_memory c)(who \<mapsto> s)) \<and>
         \<not> (\<exists>s previous. step = Some s \<and> step_memory c who = Some previous \<and> s < previous))"
proof (cases step)
  case None
  then show ?thesis using assms(1) by (auto simp: take_step_def)
next
  case (Some s)
  show ?thesis
  proof (cases who)
    case None
    obtain v' m where acc: "accept_step (ca_last_used_step c) s = (v', m)" by (metis prod.exhaust)
    then have res: "v = v'" "c' = c\<lparr>ca_last_used_step := m\<rparr>"
      using assms(1) Some None by (auto simp: take_step_def client_accept_step_def)
    have mem: "step_memory c who = ca_last_used_step c" using None by (simp add: step_memory_def)
    show ?thesis
      using accept_step_cases [of "ca_last_used_step c" s]
    proof cases
      case 1
      then have "v = StepRefused" "c' = c" using acc res by auto
      then show ?thesis using 1 mem Some by auto
    next
      case 2
      then have "v = StepAccepted (ca_last_used_step c \<noteq> Some s)" "m = Some s" using acc res by auto
      then show ?thesis using 2 mem Some None res(2) by auto
    qed
  next
    case (Some name)
    with assms(2) obtain d where d: "ca_devices c name = Some d" by auto
    have idem: "c\<lparr>ca_devices := (ca_devices c)(name \<mapsto> d)\<rparr> = c"
      using d by (simp add: fun_upd_idem)
    have mem: "step_memory c who = da_last_used_step d"
      using Some d by (simp add: step_memory_def)
    obtain v' m where acc: "accept_step (da_last_used_step d) s = (v', m)" by (metis prod.exhaust)
    then have res: "v = v'" "c' = c\<lparr>ca_devices := (ca_devices c)(name \<mapsto> d\<lparr>da_last_used_step := m\<rparr>)\<rparr>"
      using assms(1) \<open>step = Some s\<close> Some d by (auto simp: take_step_def device_accept_step_def)
    have wo: "client_without c' = client_without c"
      unfolding res by (rule client_without_device [OF _ d]) simp
    show ?thesis
      using accept_step_cases [of "da_last_used_step d" s]
    proof cases
      case 1
      then have "v = StepRefused" "c' = c" using acc res idem by auto
      then show ?thesis using 1 wo mem \<open>step = Some s\<close> by auto
    next
      case 2
      then have "v = StepAccepted (da_last_used_step d \<noteq> Some s)" "m = Some s" using acc res by auto
      moreover have "step_memory c' = (step_memory c)(who \<mapsto> s) \<and> (da_last_used_step d = Some s \<longrightarrow> c' = c)"
      proof (cases "da_last_used_step d = Some s")
        case True
        then have "d\<lparr>da_last_used_step := m\<rparr> = d" using \<open>m = Some s\<close> by simp
        then have "c' = c" using res(2) idem by simp
        then show ?thesis using True mem by (simp add: fun_upd_idem)
      next
        case False
        then show ?thesis using res(2) \<open>m = Some s\<close> Some by (simp add: step_memory_device [OF d])
      qed
      ultimately show ?thesis using 2 wo mem \<open>step = Some s\<close> res(2) by auto
    qed
  qed
qed

lemma stamp_spec:
  assumes "stamp now who c = (b, c')"
  shows "client_without c' = client_without c \<and> ca_failed_attempts c' = ca_failed_attempts c \<and>
    ca_locked_until c' = ca_locked_until c \<and> step_memory c' = step_memory c \<and> (\<not> b \<longrightarrow> c' = c)"
proof (cases "\<exists>name d. who = Some name \<and> ca_devices c name = Some d")
  case False
  then have "c' = c" using assms by (auto simp: stamp_def record_device_success_at_def split: option.splits)
  then show ?thesis by simp
next
  case True
  then obtain name d where d: "who = Some name" "ca_devices c name = Some d" by blast
  then have res: "c' = c\<lparr>ca_devices := (ca_devices c)(name \<mapsto> d\<lparr>da_last_used := Some now\<rparr>)\<rparr>"
    "b = (da_last_used d \<noteq> Some now)"
    using assms by (auto simp: stamp_def record_device_success_at_def)
  have "client_without c' = client_without c"
    unfolding res by (rule client_without_device [OF _ d(2)]) simp
  moreover have "c' = c" if "\<not> b"
  proof -
    have "d\<lparr>da_last_used := Some now\<rparr> = d" using that res(2) by simp
    then show ?thesis using res(1) d(2) by (simp add: fun_upd_idem)
  qed
  ultimately show ?thesis using d(2) res(1) by (auto simp: step_memory_device)
qed

lemma admit_spec:
  assumes "ca_locked_until c = None" and "admit now who step c = (ok, c', dirty)"
    and "\<And>name. who = Some name \<Longrightarrow> ca_devices c name \<noteq> None"
  shows "(ok, door_of c') = knock m d now who (Proves step) (door_of c) \<and> client_without c' = client_without c \<and>
    (\<not> dirty \<longrightarrow> c' = c)"
proof -
  obtain v c1 where step: "take_step who step c = (v, c1)" by (metis prod.exhaust)
  note 1 = take_step_spec [OF step assms(3)]
  obtain b c2 where st: "stamp now who c1 = (b, c2)" by (metis prod.exhaust)
  note 2 = stamp_spec [OF st]
  show ?thesis
  proof (cases v)
    case StepRefused
    then have "ok = False" "c' = c" using assms(2) step 1 by (auto simp: admit_def)
    then show ?thesis using StepRefused 1 assms(1) by (auto simp: knock_def door_of_def guard_of_def)
  next
    case (StepAccepted moved)
    let ?d = "moved \<or> b \<or> ca_failed_attempts c \<noteq> 0"
    have res: "ok" "c' = (if ?d then client_record_success now c2 else c2)" "dirty = ?d"
      using assms(1, 2) step st StepAccepted 1 2 by (auto simp: admit_def Let_def)
    have "door_of c' = \<lparr>dr_guard = GOpen 0, dr_steps = step_memory c2\<rparr>"
      using res(2) 1 2 assms(1) by (auto simp: door_of_def guard_of_def client_record_success_def)
    moreover have "\<not> dirty \<longrightarrow> c' = c" "client_without c' = client_without c"
      using res 1 2 StepAccepted by auto
    moreover have "knock m d now who (Proves step) (door_of c) = (True, \<lparr>dr_guard = GOpen 0, dr_steps = step_memory c2\<rparr>)"
    proof -
      have g: "door_of c = \<lparr>dr_guard = GOpen (ca_failed_attempts c), dr_steps = step_memory c\<rparr>"
        using assms(1) by (simp add: door_of_def guard_of_def)
      have "step_memory c2 = (case step of None \<Rightarrow> step_memory c | Some s \<Rightarrow> (step_memory c)(who \<mapsto> s))"
        and "\<not> (\<exists>s previous. step = Some s \<and> step_memory c who = Some previous \<and> s < previous)"
        using 1 2 StepAccepted by simp_all
      then show ?thesis unfolding g by (cases step) (simp_all add: knock_def Let_def)
    qed
    ultimately show ?thesis using res(1) by simp
  qed
qed

lemma guard_at_idem [simp]: "guard_at now (guard_at now g) = guard_at now g"
  by (cases g) simp_all

lemma knock_at: "knock m d now who w (dr\<lparr>dr_guard := guard_at now (dr_guard dr)\<rparr>) = knock m d now who w dr"
  by (auto simp: knock_def Let_def split: guard.split worth.split option.split)

lemma door_refresh: "door_of (refresh_lockout now c) = (door_of c)\<lparr>dr_guard := guard_at now (dr_guard (door_of c))\<rparr>"
  using own_lock.guard_refresh [of now c] by (simp add: door_of_def)

lemma find_proof_device: "find_proof cr c (Some name) = Inr pf \<Longrightarrow> ca_devices c name \<noteq> None"
  by (auto simp: find_proof_def split: option.splits)

lemma refresh_devices [simp]: "ca_devices (refresh_lockout now c) = ca_devices c"
  by (simp add: refresh_lockout_def)

lemma unlocked_refresh: "\<not> is_locked_out (refresh_lockout now c) now \<Longrightarrow> ca_locked_until (refresh_lockout now c) = None"
  by (auto simp: is_locked_out_def refresh_lockout_def split: option.splits if_splits)

lemma attempt_client_spec:
  assumes "attempt_client cr totp cfg now req c = (r, c', dirty)"
  shows "(\<not> isl r, door_of c') =
      knock (au_max_attempts cfg) (au_lockout_duration cfg) now (rq_device_id req)
        (worth_of (verify_against cr totp cfg c now req)) (door_of c) \<and>
    client_without c' = client_without c \<and> (\<not> dirty \<longrightarrow> c' = refresh_lockout now c) \<and>
    (dirty \<and> isl r \<longrightarrow> worth_of (verify_against cr totp cfg c now req) = Guesses \<and>
       (\<exists>k. guard_at now (dr_guard (door_of c)) = GOpen k))"
proof -
  let ?c = "refresh_lockout now c"
  have guard: "dr_guard (door_of c) = guard_of (ca_failed_attempts c) (ca_locked_until c)" by (simp add: door_of_def)
  show ?thesis
  proof (cases "is_locked_out ?c now")
    case True
    then obtain u where "guard_at now (dr_guard (door_of c)) = GShut u"
      using own_lock.locked_refresh guard by auto
    then show ?thesis using True assms by (auto simp: attempt_client_def knock_def door_refresh)
  next
    case False
    then obtain k where k: "guard_at now (dr_guard (door_of c)) = GOpen k"
      using own_lock.locked_refresh guard by (metis guard.exhaust)
    show ?thesis
    proof (cases "verify_against cr totp cfg c now req")
      case (Inl e)
      then show ?thesis using False k assms by (auto simp: attempt_client_def knock_def door_refresh)
    next
      case (Inr w)
      show ?thesis
      proof (cases w)
        case WrongCode
        then have r: "r = Inl InvalidCode" "dirty"
          "c' = client_record_failure (au_max_attempts cfg) (au_lockout_duration cfg) now ?c"
          using False Inr assms by (auto simp: attempt_client_def Let_def)
        have "dr_guard (door_of c') = guard_fail (au_max_attempts cfg) (au_lockout_duration cfg) now (GOpen k)"
          using own_lock.guard_fails [OF False] k guard r(3) by (simp add: door_of_def)
        then have "door_of c' = (door_of c)\<lparr>dr_guard :=
            guard_fail (au_max_attempts cfg) (au_lockout_duration cfg) now (GOpen k)\<rparr>"
          using r(3) by (simp add: door_of_def)
        then show ?thesis using r Inr WrongCode k by (simp add: knock_def)
      next
        case (Accepted step)
        obtain ok c2 dt where ad: "admit now (rq_device_id req) step ?c = (ok, c2, dt)" by (metis prod.exhaust)
        have known: "ca_devices ?c name \<noteq> None" if "rq_device_id req = Some name" for name
          using Inr that find_proof_device by (auto simp: verify_against_def rbind_eq_Inr)
        from admit_spec [OF unlocked_refresh [OF False] ad known] have
          "(ok, door_of c2) = knock (au_max_attempts cfg) (au_lockout_duration cfg) now (rq_device_id req) (Proves step) (door_of c)"
          "client_without c2 = client_without c" "\<not> dt \<longrightarrow> c2 = ?c"
          by (simp_all add: door_refresh knock_at)
        moreover have "r = (if ok then Inr () else Inl InvalidCode)" "c' = c2" "dirty = dt" "dt \<longrightarrow> ok"
          using False Inr Accepted ad assms by (auto simp: attempt_client_def Let_def admit_def split: prod.splits step_verdict.splits)
        ultimately show ?thesis using Inr Accepted by auto
      qed
    qed
  qed
qed

lemma authenticate_unknown:
  assumes "au_enabled cfg" and "au_clients cfg (rq_client_id req) = None"
  shows "authenticate cr totp now req cfg = (Inl ClientNotFound, cfg, False)"
  using assms by (simp add: authenticate_def upd_client_def verify_response_def)

lemma authenticate_spec:
  assumes "au_enabled cfg" and "au_clients cfg (rq_client_id req) = Some c"
    and "authenticate cr totp now req cfg = (res, cfg', dirty)"
  obtains c' where "cfg' = upd_client (rq_client_id req) (\<lambda>_. c') cfg"
    and "(\<not> isl res, door_of c') =
      knock (au_max_attempts cfg) (au_lockout_duration cfg) now (rq_device_id req)
        (worth_of (verify_against cr totp cfg c now req)) (door_of c)"
    and "client_without c' = client_without c" and "\<not> dirty \<Longrightarrow> c' = refresh_lockout now c"
    and "dirty \<Longrightarrow> isl res \<Longrightarrow> worth_of (verify_against cr totp cfg c now req) = Guesses \<and>
      (\<exists>k. guard_at now (dr_guard (door_of c)) = GOpen k)"
    and "\<not> isl res \<Longrightarrow> res = Inr (acl_of_client c', \<lparr>pi_client_id = Some (rq_client_id req), pi_device = rq_device_id req\<rparr>)"
proof -
  obtain r c' dt where at: "attempt_client cr totp cfg now req c = (r, c', dt)" by (metis prod.exhaust)
  note local_run = authenticate_local [OF assms(1, 2) at, unfolded assms(3)]
  note spec = attempt_client_spec [OF at]
  have "cfg' = upd_client (rq_client_id req) (\<lambda>_. c') cfg" and same: "dirty = dt" "isl res = isl r"
    and "\<not> isl res \<Longrightarrow> res = Inr (acl_of_client c', \<lparr>pi_client_id = Some (rq_client_id req), pi_device = rq_device_id req\<rparr>)"
    using local_run by (cases r; simp)+
  then show ?thesis
    using spec [folded same] that [of c'] by blast
qed

lemma without_counters_client:
  assumes "without_counters cfg = without_counters cfg'"
  shows "au_enabled cfg' = au_enabled cfg" "au_max_attempts cfg' = au_max_attempts cfg"
    "au_lockout_duration cfg' = au_lockout_duration cfg"
    "map_option client_without (au_clients cfg' i) = map_option client_without (au_clients cfg i)"
  using arg_cong [OF assms, of au_enabled] arg_cong [OF assms, of au_max_attempts]
    arg_cong [OF assms, of au_lockout_duration] arg_cong [OF assms, of "\<lambda>x. au_clients x i"]
  by (simp_all add: without_counters_def)

section \<open>Runs of attempts\<close>

type_synonym attempt_result = "auth_error + client_acl \<times> peer_identity"

fun auth_run ::
    "crypto \<Rightarrow> totp_library \<Rightarrow> (u64 \<times> auth_request) list \<Rightarrow> auth_config \<Rightarrow> (attempt_result \<times> bool) list \<times> auth_config" where
  "auth_run cr totp [] cfg = ([], cfg)"
| "auth_run cr totp ((now, req) # evs) cfg =
     (let (res, cfg1, dirty) = authenticate cr totp now req cfg; (outs, cfg2) = auth_run cr totp evs cfg1
      in ((res, dirty) # outs, cfg2))"

lemma authenticate_keeps:
  assumes "au_enabled cfg" and "authenticate cr totp now req cfg = (res, cfg', dirty)"
  shows "without_counters cfg' = without_counters cfg \<and>
    (\<forall>j. j \<noteq> rq_client_id req \<longrightarrow> au_clients cfg' j = au_clients cfg j)"
proof (cases "au_clients cfg (rq_client_id req)")
  case None
  then show ?thesis using authenticate_unknown [OF assms(1)] assms(2) by simp
next
  case (Some c)
  from authenticate_spec [OF assms(1) Some assms(2)] obtain c' where
    "cfg' = upd_client (rq_client_id req) (\<lambda>_. c') cfg" "client_without c' = client_without c" by metis
  then show ?thesis using Some by (auto simp: upd_client_lookup intro!: without_counters_upd)
qed

text \<open>The guesses that can still be made against a guard before the moment \<open>T\<close>.\<close>

definition room :: "u32 \<Rightarrow> nat \<Rightarrow> guard \<Rightarrow> nat" where
  "room m T g =
     (case g of
        GOpen k \<Rightarrow> max 1 (unat m - unat k)
      | GShut u \<Rightarrow> if T < unat u then 0 else max 1 (unat m))"

definition sane :: "guard \<Rightarrow> bool" where
  "sane g \<longleftrightarrow> g \<noteq> GOpen (- 1)"

lemma room_at: "unat now \<le> T \<Longrightarrow> room m T (guard_at now g) \<le> room m T g"
  by (cases g) (auto simp: room_def word_less_nat_alt)

lemma sane_at: "sane g \<Longrightarrow> sane (guard_at now g)"
  by (cases g) (auto simp: sane_def)

lemma unat_suc32:
  fixes k :: u32
  assumes "k \<noteq> - 1"
  shows "unat (k + 1) = Suc (unat k)"
proof -
  have "k + 1 \<noteq> 0" using assms by (simp add: eq_neg_iff_add_eq_0)
  moreover have "unat (k + 1) = (unat k + 1) mod 2 ^ 32" by (simp add: unat_word_ariths)
  moreover have "unat k < 2 ^ 32" using unsigned_less [of k] by simp
  ultimately show ?thesis
    by (cases "unat k + 1 = 2 ^ 32") (simp_all add: unat_eq_0 [symmetric] del: unat_eq_0)
qed

lemma room_fail:
  assumes "sane (GOpen k)" and "T < unat now + unat d" and "unat now + unat d < 2 ^ 64"
  shows "Suc (room m T (guard_fail m d now (GOpen k))) \<le> room m T (GOpen k) \<and> sane (guard_fail m d now (GOpen k))"
proof -
  have k: "unat (k + 1) = Suc (unat k)"
    using assms(1) by (simp add: sane_def unat_suc32)
  have "unat (now + d) = unat now + unat d"
    using assms(3) by (simp add: unat_word_ariths)
  moreover have "k + 1 \<noteq> - 1" if "\<not> m \<le> k + 1"
    using that word_order.extremum by metis
  ultimately show ?thesis
    using assms(2) k by (auto simp: room_def sane_def word_le_nat_alt)
qed

text \<open>A guess that was counted against the client, in an attempt and its result.\<close>

definition counted_guess :: "string \<Rightarrow> (u64 \<times> auth_request) \<times> attempt_result \<times> bool \<Rightarrow> bool" where
  "counted_guess i = (\<lambda>((now, req), res, dirty). rq_client_id req = i \<and> isl res \<and> dirty)"

definition let_in :: "string \<Rightarrow> (u64 \<times> auth_request) \<times> attempt_result \<times> bool \<Rightarrow> bool" where
  "let_in i = (\<lambda>((now, req), res, dirty). rq_client_id req = i \<and> \<not> isl res)"

lemma knock_guess:
  assumes "(ok, dr') = knock m d now who w dr" and "\<not> ok" and "sane (dr_guard dr)"
    and "unat now \<le> T" and "T < unat now + unat d" and "unat now + unat d < 2 ^ 64"
  shows "sane (dr_guard dr') \<and> room m T (dr_guard dr') \<le> room m T (dr_guard dr) \<and>
    (w = Guesses \<and> (\<exists>k. guard_at now (dr_guard dr) = GOpen k) \<longrightarrow> room m T (dr_guard dr') < room m T (dr_guard dr))"
proof (cases "guard_at now (dr_guard dr)")
  case (GShut u)
  then show ?thesis
    using assms room_at [OF assms(4), of m "dr_guard dr"] sane_at [OF assms(3), of now] by (auto simp: knock_def)
next
  case (GOpen k)
  note at = room_at [OF assms(4), of m "dr_guard dr"] sane_at [OF assms(3), of now]
  show ?thesis
  proof (cases w)
    case Guesses
    then show ?thesis
      using assms(1) GOpen at room_fail [OF _ assms(5, 6), of k m] by (auto simp: knock_def)
  next
    case Worthless
    then show ?thesis using assms(1) GOpen at by (auto simp: knock_def)
  next
    case (Proves step)
    then show ?thesis
      using assms(1, 2) GOpen at by (auto simp: knock_def split: option.splits if_splits)
  qed
qed

lemma auth_run_Cons:
  assumes "auth_run cr totp (ev # evs) cfg = (outs, cfg')" and "au_enabled cfg"
  obtains now req res cfg1 dirty outs1 where "ev = (now, req)"
    and "authenticate cr totp now req cfg = (res, cfg1, dirty)" and "auth_run cr totp evs cfg1 = (outs1, cfg')"
    and "outs = (res, dirty) # outs1" and "without_counters cfg = without_counters cfg1" and "au_enabled cfg1"
    and "\<forall>j. j \<noteq> rq_client_id req \<longrightarrow> au_clients cfg1 j = au_clients cfg j"
proof -
  obtain now req where ev: "ev = (now, req)" by (cases ev)
  obtain res cfg1 dirty where at: "authenticate cr totp now req cfg = (res, cfg1, dirty)" by (metis prod.exhaust)
  obtain outs1 where "auth_run cr totp evs cfg1 = (outs1, cfg')" "outs = (res, dirty) # outs1"
    using assms(1) ev at by (auto split: prod.splits)
  with authenticate_keeps [OF assms(2) at] without_counters_client(1) [of cfg cfg1] assms(2) ev at show ?thesis
    by (intro that [OF ev at]) auto
qed

lemma guesses_within:
  assumes "au_enabled cfg" and "au_clients cfg i = Some c" and "sane (dr_guard (door_of c))"
    and "\<forall>(now, req) \<in> set evs. unat now \<le> T \<and> T < unat now + unat (au_lockout_duration cfg) \<and>
      unat now + unat (au_lockout_duration cfg) < 2 ^ 64"
    and "auth_run cr totp evs cfg = (outs, cfg')" and "\<not> list_ex (let_in i) (zip evs outs)"
  shows "length (filter (counted_guess i) (zip evs outs)) \<le> room (au_max_attempts cfg) T (dr_guard (door_of c))"
  using assms
proof (induction evs arbitrary: cfg c outs)
  case Nil
  then show ?case by simp
next
  case (Cons ev evs)
  from Cons.prems(5, 1) obtain now req res cfg1 dirty outs1 where ev: "ev = (now, req)"
    and at: "authenticate cr totp now req cfg = (res, cfg1, dirty)" and run: "auth_run cr totp evs cfg1 = (outs1, cfg')"
    and outs: "outs = (res, dirty) # outs1" and same: "without_counters cfg = without_counters cfg1"
    and on: "au_enabled cfg1" and others: "\<forall>j. j \<noteq> rq_client_id req \<longrightarrow> au_clients cfg1 j = au_clients cfg j"
    by (rule auth_run_Cons) blast
  note keep = without_counters_client(2, 3) [OF same]
  have times: "unat now \<le> T" "T < unat now + unat (au_lockout_duration cfg)"
    "unat now + unat (au_lockout_duration cfg) < 2 ^ 64" using Cons.prems(4) ev by auto
  have shut_out: "\<not> let_in i (ev, res, dirty)" "\<not> list_ex (let_in i) (zip evs outs1)"
    using Cons.prems(6) outs by auto
  show ?case
  proof (cases "rq_client_id req = i")
    case False
    then show ?thesis
      using Cons.IH [OF on _ Cons.prems(3) _ run shut_out(2)] others Cons.prems(2, 4) keep False ev outs
      by (simp add: counted_guess_def)
  next
    case True
    with Cons.prems(2) have known: "au_clients cfg (rq_client_id req) = Some c" by simp
    from authenticate_spec [OF Cons.prems(1) known at] obtain c1 where
      cfg1: "cfg1 = upd_client (rq_client_id req) (\<lambda>_. c1) cfg"
      and k: "(\<not> isl res, door_of c1) = knock (au_max_attempts cfg) (au_lockout_duration cfg) now (rq_device_id req)
        (worth_of (verify_against cr totp cfg c now req)) (door_of c)"
      and g: "dirty \<Longrightarrow> isl res \<Longrightarrow> worth_of (verify_against cr totp cfg c now req) = Guesses \<and>
        (\<exists>k. guard_at now (dr_guard (door_of c)) = GOpen k)" by metis
    have "isl res" using shut_out(1) ev True by (simp add: let_in_def)
    moreover have "au_clients cfg1 i = Some c1" using cfg1 True known by (simp add: upd_client_lookup)
    ultimately show ?thesis
      using Cons.IH [OF on _ _ _ run shut_out(2), of c1] knock_guess [OF k _ Cons.prems(3) times] g
        keep Cons.prems(4) True ev outs by (cases dirty) (auto simp: counted_guess_def)
  qed
qed

text \<open>The steps that were accepted for one credential, in the order they were.\<close>

definition accepted_steps ::
    "crypto \<Rightarrow> totp_library \<Rightarrow> auth_config \<Rightarrow> client_auth \<Rightarrow> string \<Rightarrow> string option \<Rightarrow>
      ((u64 \<times> auth_request) \<times> attempt_result \<times> bool) list \<Rightarrow> u64 list" where
  "accepted_steps cr totp cfg c i who =
     List.map_filter (\<lambda>((now, req), res, dirty).
       if rq_client_id req = i \<and> rq_device_id req = who \<and> \<not> isl res then
         (case verify_against cr totp cfg c now req of Inr (Accepted step) \<Rightarrow> step | _ \<Rightarrow> None)
       else None)"

lemma knock_steps:
  assumes "(ok, dr') = knock m d now who w dr"
  shows "(dr_steps dr u = Some a \<longrightarrow> (\<exists>b. dr_steps dr' u = Some b \<and> a \<le> b)) \<and>
    (ok \<and> w = Proves (Some s) \<longrightarrow> dr_steps dr' who = Some s \<and> (\<forall>a. dr_steps dr who = Some a \<longrightarrow> a \<le> s))"
  using assms by (auto simp: knock_def Let_def not_less split: guard.splits worth.splits option.splits if_splits)

lemma accepted_steps_Cons:
  fixes run cr totp cfg c i who
  defines "tail \<equiv> accepted_steps cr totp cfg c i who run"
  assumes "(\<not> isl res, dr1) = knock m d now (rq_device_id req) (worth_of (verify_against cr totp cfg c now req)) dr"
    and "rq_client_id req = i" and "sorted tail" and "\<And>a s. dr_steps dr1 who = Some a \<Longrightarrow> s \<in> set tail \<Longrightarrow> a \<le> s"
  shows "sorted (accepted_steps cr totp cfg c i who (((now, req), res, dirty) # run)) \<and>
    (\<forall>a. dr_steps dr who = Some a \<longrightarrow>
      (\<forall>s \<in> set (accepted_steps cr totp cfg c i who (((now, req), res, dirty) # run)). a \<le> s))"
proof (cases "\<exists>s. rq_device_id req = who \<and> \<not> isl res \<and> verify_against cr totp cfg c now req = Inr (Accepted (Some s))")
  case True
  then obtain s where s: "rq_device_id req = who" "\<not> isl res" "verify_against cr totp cfg c now req = Inr (Accepted (Some s))"
    by blast
  then have "accepted_steps cr totp cfg c i who (((now, req), res, dirty) # run) = s # tail"
    using assms(3) by (simp add: accepted_steps_def map_filter_simps tail_def)
  moreover have "dr_steps dr1 who = Some s" "\<forall>a. dr_steps dr who = Some a \<longrightarrow> a \<le> s"
    using knock_steps [OF assms(2)] s by auto
  ultimately show ?thesis using assms(4, 5) by (auto intro: order_trans)
next
  case False
  then have "accepted_steps cr totp cfg c i who (((now, req), res, dirty) # run) = tail"
    by (auto simp: accepted_steps_def map_filter_simps tail_def split: sum.splits verified.splits option.splits)
  moreover have "\<exists>b. dr_steps dr1 who = Some b \<and> a \<le> b" if "dr_steps dr who = Some a" for a
    using knock_steps [OF assms(2)] that by blast
  ultimately show ?thesis using assms(4, 5) by (metis order_trans)
qed

lemma steps_sorted:
  assumes "au_enabled cfg" and "au_clients cfg i = Some c" and "without_counters cfg = without_counters cfg0"
    and "client_without c = client_without c0" and "auth_run cr totp evs cfg = (outs, cfg')"
  shows "sorted (accepted_steps cr totp cfg0 c0 i who (zip evs outs)) \<and>
    (\<forall>m. step_memory c who = Some m \<longrightarrow> (\<forall>s \<in> set (accepted_steps cr totp cfg0 c0 i who (zip evs outs)). m \<le> s))"
  using assms
proof (induction evs arbitrary: cfg c outs)
  case Nil
  then show ?case by (simp add: accepted_steps_def map_filter_simps)
next
  case (Cons ev evs)
  from Cons.prems(5, 1) obtain now req res cfg1 dirty outs1 where ev: "ev = (now, req)"
    and at: "authenticate cr totp now req cfg = (res, cfg1, dirty)" and run: "auth_run cr totp evs cfg1 = (outs1, cfg')"
    and outs: "outs = (res, dirty) # outs1" and same: "without_counters cfg = without_counters cfg1"
    and on: "au_enabled cfg1" and others: "\<forall>j. j \<noteq> rq_client_id req \<longrightarrow> au_clients cfg1 j = au_clients cfg j"
    by (rule auth_run_Cons) blast
  have same0: "without_counters cfg1 = without_counters cfg0" using same Cons.prems(3) by simp
  show ?case
  proof (cases "rq_client_id req = i")
    case False
    then show ?thesis
      using Cons.IH [OF on _ same0 Cons.prems(4) run] others Cons.prems(2) ev outs
      by (simp add: accepted_steps_def map_filter_simps)
  next
    case True
    with Cons.prems(2) have known: "au_clients cfg (rq_client_id req) = Some c" by simp
    from authenticate_spec [OF Cons.prems(1) known at] obtain c1 where
      cfg1: "cfg1 = upd_client (rq_client_id req) (\<lambda>_. c1) cfg" and wo: "client_without c1 = client_without c"
      and k: "(\<not> isl res, door_of c1) = knock (au_max_attempts cfg) (au_lockout_duration cfg) now (rq_device_id req)
        (worth_of (verify_against cr totp cfg c now req)) (door_of c)" by metis
    have c1: "au_clients cfg1 i = Some c1" using cfg1 True known by (simp add: upd_client_lookup)
    have v: "verify_against cr totp cfg c now req = verify_against cr totp cfg0 c0 now req"
      by (rule verify_against_cong [OF Cons.prems(4, 3)])
    have mem: "dr_steps (door_of x) = step_memory x" for x by (simp add: door_of_def)
    note ih = Cons.IH [OF on c1 same0 wo [unfolded Cons.prems(4)] run]
    note step = accepted_steps_Cons [OF k [unfolded v] True, unfolded mem, of who "zip evs outs1" dirty]
    show ?thesis unfolding ev outs zip_Cons_Cons by (rule step) (use ih in blast)+
  qed
qed

section \<open>Restarts\<close>

lemma refresh_later:
  "s \<le> t \<Longrightarrow> refresh_lockout t (refresh_lockout s c) = refresh_lockout t c"
  by (auto simp: refresh_lockout_def split: option.splits)

abbreviation (input) state_of :: "crypto \<Rightarrow> client_auth \<Rightarrow> client_state" where
  "state_of cr c \<equiv>
     \<lparr>cs_failed_attempts = ca_failed_attempts c, cs_locked_until = ca_locked_until c,
      cs_enrollment_failed_attempts = ca_enrollment_failed_attempts c,
      cs_enrollment_locked_until = ca_enrollment_locked_until c,
      cs_enrollment_token_fingerprint = enrollment_fingerprint cr c, cs_last_used = ca_last_used c,
      cs_last_used_step = ca_last_used_step c, cs_devices = snapshot_devices c\<rparr>"

lemma restored_device:
  "ca_devices c name = Some d \<Longrightarrow> apply_device (state_of cr c) name (device_without d) = d"
  by (cases d) (simp add: apply_device_def snapshot_devices_def device_without_def)

lemma restored_client: "apply_client cr (state_of cr c) (client_without c) = c"
proof -
  have "(\<lambda>name. map_option (apply_device (state_of cr c) name) (map_option device_without (ca_devices c name))) = ca_devices c"
    (is "?devices = _")
  proof
    fix name
    show "?devices name = ca_devices c name"
      using restored_device [of c name _ cr] by (cases "ca_devices c name") simp_all
  qed
  moreover have "counters_belong_to_this_token cr (state_of cr c) (client_without c)"
    by (simp add: counters_belong_to_this_token_def enrollment_fingerprint_def client_without_def split: option.split)
  ultimately show ?thesis by (simp add: apply_client_def) (simp add: client_without_def)
qed

lemma empty_state_client:
  assumes "state_is_empty (state_of cr c)"
  shows "client_without c = c"
proof -
  have "map_option device_without (ca_devices c name) = ca_devices c name" for name
  proof -
    have "snapshot_devices c name = None" using assms by (simp add: state_is_empty_def)
    then show ?thesis by (auto simp: snapshot_devices_def device_without_def split: option.splits if_splits)
  qed
  then show ?thesis using assms by (simp add: client_without_def state_is_empty_def)
qed

lemma persisted_client:
  "rs_clients (persist_auth_state cr cfg) i =
     (case au_clients cfg i of
        None \<Rightarrow> None
      | Some c \<Rightarrow> if state_is_empty (state_of cr c) then None else Some (state_of cr c))"
proof (cases "au_clients cfg i")
  case (Some c)
  let ?c = "c\<lparr>ca_secret := [], ca_created_at := [], ca_allow_hosts := None, ca_allow_ports := None,
           ca_allow_ports_strict := False,
           ca_devices := (\<lambda>name. map_option (\<lambda>device.
             device\<lparr>da_secret := [], da_public_key := None, da_created_at := []\<rparr>) (ca_devices c name))\<rparr>"
  have "snapshot_devices ?c = snapshot_devices c"
    by (auto simp: snapshot_devices_def fun_eq_iff split: option.split)
  moreover have "enrollment_fingerprint cr ?c = enrollment_fingerprint cr c"
    by (simp add: enrollment_fingerprint_def)
  ultimately show ?thesis
    using Some by (simp add: persist_auth_state_def save_auth_state_to_def snapshot_def counter_snapshot_def Let_def)
qed (simp add: persist_auth_state_def save_auth_state_to_def snapshot_def counter_snapshot_def)

lemma counters_round_trip: "apply_state cr (persist_auth_state cr cfg) (without_counters cfg) = cfg"
proof -
  have "map_option (\<lambda>client. case rs_clients (persist_auth_state cr cfg) i of None \<Rightarrow> client | Some cs \<Rightarrow> apply_client cr cs client)
      (au_clients (without_counters cfg) i) = au_clients cfg i" for i
    by (cases "au_clients cfg i")
      (auto simp: persisted_client without_counters_def restored_client dest: empty_state_client)
  then show ?thesis by (simp add: apply_state_def) (simp add: without_counters_def)
qed

text \<open>
  A server that is asked and restarted: the counters are written down after an attempt that moved them, and a restart
  reads the configuration again and lays what was written over it.
\<close>

datatype server_event = Attempt u64 auth_request | Restart

fun served ::
    "crypto \<Rightarrow> totp_library \<Rightarrow> auth_config \<Rightarrow> server_event list \<Rightarrow> auth_config \<times> runtime_state \<Rightarrow> attempt_result list" where
  "served cr totp file [] st = []"
| "served cr totp file (Restart # evs) (cfg, disk) = served cr totp file evs (apply_state cr disk file, disk)"
| "served cr totp file (Attempt now req # evs) (cfg, disk) =
     (let (res, cfg1, dirty) = authenticate cr totp now req cfg
      in res # served cr totp file evs (cfg1, if dirty then persist_auth_state cr cfg1 else disk))"

fun event_times :: "server_event list \<Rightarrow> u64 list" where
  "event_times [] = []"
| "event_times (Restart # evs) = event_times evs"
| "event_times (Attempt now req # evs) = now # event_times evs"

text \<open>Two configurations that no attempt from the moment \<open>t\<close> on can tell apart.\<close>

definition alike :: "u64 \<Rightarrow> auth_config \<Rightarrow> auth_config \<Rightarrow> bool" where
  "alike t a b \<longleftrightarrow> without_counters a = without_counters b \<and>
     (\<forall>i now. t \<le> now \<longrightarrow> map_option (refresh_lockout now) (au_clients a i) = map_option (refresh_lockout now) (au_clients b i))"

lemma alike_refl [simp]: "alike t a a"
  by (simp add: alike_def)

lemma alike_later: "alike t a b \<Longrightarrow> t \<le> s \<Longrightarrow> alike s a b"
  by (auto simp: alike_def intro: order_trans)

lemma attempt_client_cong:
  assumes "refresh_lockout now c = refresh_lockout now c'" and "client_without c = client_without c'"
    and "without_counters cfg = without_counters cfg'"
  shows "attempt_client cr totp cfg now req c = attempt_client cr totp cfg' now req c'"
  using verify_against_cong [OF assms(2, 3), of cr totp now req] without_counters_client(2, 3) [OF assms(3)] assms(1)
  by (simp add: attempt_client_def Let_def split: sum.split verified.split)

lemma without_counters_const:
  "without_counters (upd_client i (\<lambda>_. x) a) = upd_client i (\<lambda>_. client_without x) (without_counters a)"
  by (cases "au_clients a i") (auto simp: without_counters_def upd_client_def fun_eq_iff)

lemma alike_upd:
  assumes "alike t a b" and "t \<le> now" and "\<And>s. now \<le> s \<Longrightarrow> refresh_lockout s x = refresh_lockout s y"
    and "client_without x = client_without y"
  shows "alike now (upd_client i (\<lambda>_. x) a) (upd_client i (\<lambda>_. y) b)"
proof -
  have both: "au_clients a i = None \<longleftrightarrow> au_clients b i = None"
    using assms(1) without_counters_client(4) [of a b i] by (cases "au_clients a i") (auto simp: alike_def)
  have "map_option (refresh_lockout s) (au_clients (upd_client i (\<lambda>_. x) a) j) =
      map_option (refresh_lockout s) (au_clients (upd_client i (\<lambda>_. y) b) j)" if "now \<le> s" for j s
    using assms(1) order_trans [OF assms(2) that] assms(3) [OF that] both
    by (cases "au_clients a i"; cases "au_clients b i") (auto simp: alike_def upd_client_lookup)
  then show ?thesis
    using assms(1, 4) by (simp add: alike_def without_counters_const)
qed

lemma alike_attempt:
  assumes "alike t a b" and "t \<le> now" and "au_enabled a"
    and "authenticate cr totp now req a = (res, a', dirty)"
  shows "\<exists>b'. authenticate cr totp now req b = (res, b', dirty) \<and> alike now a' b' \<and> (\<not> dirty \<longrightarrow> alike now a b')"
proof -
  let ?i = "rq_client_id req"
  have same: "without_counters a = without_counters b" using assms(1) by (simp add: alike_def)
  have on: "au_enabled b" using without_counters_client(1) [OF same] assms(3) by simp
  show ?thesis
  proof (cases "au_clients a ?i")
    case None
    then have "au_clients b ?i = None" using without_counters_client(4) [OF same, of ?i] by simp
    from authenticate_unknown [OF on this, of cr totp now] authenticate_unknown [OF assms(3) None, of cr totp now] assms(4)
    show ?thesis using alike_later [OF assms(1, 2)] by simp
  next
    case (Some c)
    then obtain c2 where c2: "au_clients b ?i = Some c2" and wo: "client_without c = client_without c2"
      using without_counters_client(4) [OF same, of ?i] by (cases "au_clients b ?i") auto
    have up: "refresh_lockout s c = refresh_lockout s c2" if "t \<le> s" for s
    proof -
      have "map_option (refresh_lockout s) (au_clients a ?i) = map_option (refresh_lockout s) (au_clients b ?i)"
        using assms(1) that by (simp add: alike_def)
      then show ?thesis using Some c2 by simp
    qed
    obtain r c' dt where at: "attempt_client cr totp a now req c = (r, c', dt)" by (metis prod.exhaust)
    then have at2: "attempt_client cr totp b now req c2 = (r, c', dt)"
      using attempt_client_cong [OF up [OF assms(2)] wo same] by simp
    note run = authenticate_local [OF assms(3) Some at, unfolded assms(4)]
    note run2 = authenticate_local [OF on c2 at2]
    have "alike now (upd_client ?i (\<lambda>_. c') a) (upd_client ?i (\<lambda>_. c') b)"
      by (rule alike_upd [OF assms(1, 2)]) simp_all
    moreover have "alike now a (upd_client ?i (\<lambda>_. c') b)" if "\<not> dt"
    proof -
      have "c' = refresh_lockout now c" using conjunct1 [OF conjunct2 [OF conjunct2 [OF attempt_client_spec [OF at]]]] that by simp
      then have "alike now (upd_client ?i (\<lambda>_. c) a) (upd_client ?i (\<lambda>_. c') b)"
        by (intro alike_upd [OF assms(1, 2)]) (simp_all add: refresh_later)
      then show ?thesis by (simp add: upd_client_same [OF Some])
    qed
    ultimately show ?thesis using run run2 by simp
  qed
qed

lemma restarts_invisible:
  assumes "alike t a b" and "alike t (apply_state cr disk file) b" and "au_enabled a"
    and "without_counters a = file" and "sorted (event_times evs)" and "\<forall>s \<in> set (event_times evs). t \<le> s"
  shows "served cr totp file evs (a, disk) = served cr totp file (filter (\<lambda>e. e \<noteq> Restart) evs) (b, disk')"
  using assms
proof (induction evs arbitrary: a b disk disk' t)
  case Nil
  then show ?case by simp
next
  case (Cons e evs)
  have same: "without_counters b = file" using Cons.prems(1, 4) by (simp add: alike_def)
  have disk: "without_counters (apply_state cr disk file) = file" "au_enabled (apply_state cr disk file)"
    using Cons.prems(2, 3, 4) same without_counters_client(1) [of a "apply_state cr disk file"] by (auto simp: alike_def)
  show ?case
  proof (cases e)
    case Restart
    then show ?thesis
      using Cons.IH [OF Cons.prems(2, 2) disk(2, 1)] Cons.prems(5, 6) by simp
  next
    case (Attempt now req)
    with Cons.prems(5, 6) have now: "t \<le> now" "sorted (event_times evs)" "\<forall>s \<in> set (event_times evs). now \<le> s" by auto
    obtain res a1 dirty where at: "authenticate cr totp now req a = (res, a1, dirty)" by (metis prod.exhaust)
    from alike_attempt [OF Cons.prems(1) now(1) Cons.prems(3) at] obtain b1 where
      b1: "authenticate cr totp now req b = (res, b1, dirty)" "alike now a1 b1" by blast
    note keep = authenticate_keeps [OF Cons.prems(3) at]
    have a1: "without_counters a1 = file" "au_enabled a1"
      using keep Cons.prems(3, 4) without_counters_client(1) [of a a1] by auto
    have "alike now (apply_state cr (if dirty then persist_auth_state cr a1 else disk) file) b1"
    proof (cases dirty)
      case True
      then show ?thesis using counters_round_trip [of cr a1] a1(1) b1(2) by simp
    next
      case False
      obtain res2 d1 dirty2 where at2: "authenticate cr totp now req (apply_state cr disk file) = (res2, d1, dirty2)"
        by (metis prod.exhaust)
      from alike_attempt [OF Cons.prems(2) now(1) disk(2) at2] obtain b2 where
        "authenticate cr totp now req b = (res2, b2, dirty2)" "\<not> dirty2 \<longrightarrow> alike now (apply_state cr disk file) b2" by blast
      then show ?thesis using b1(1) False by simp
    qed
    then show ?thesis
      using Cons.IH [OF b1(2) _ a1(2, 1) now(2, 3)] Attempt at b1(1) by simp
  qed
qed

section \<open>Properties\<close>

text \<open>
  C3: the authenticator keeps its contract. Whatever the response, the verdict on it and what it does to the guard and the
  step memory of the client it names are those of the door, given only what the response is worth against the credential
  on file; no credential, no setting and no other client is touched. A client that is not in the table is
  refused and nothing changes.
\<close>

theorem authenticator_refines:
  assumes "au_enabled cfg" and "authenticate cr totp now req cfg = (res, cfg', dirty)"
  shows "without_counters cfg' = without_counters cfg \<and>
    (\<forall>j. j \<noteq> rq_client_id req \<longrightarrow> au_clients cfg' j = au_clients cfg j) \<and>
    (case au_clients cfg (rq_client_id req) of
       None \<Rightarrow> res = Inl ClientNotFound \<and> cfg' = cfg
     | Some c \<Rightarrow>
         (\<exists>c'. au_clients cfg' (rq_client_id req) = Some c' \<and>
            (\<not> isl res, door_of c') =
              knock (au_max_attempts cfg) (au_lockout_duration cfg) now (rq_device_id req)
                (worth_of (verify_against cr totp cfg c now req)) (door_of c)))"
proof (cases "au_clients cfg (rq_client_id req)")
  case None
  then show ?thesis using authenticate_unknown [OF assms(1)] assms(2) by simp
next
  case (Some c)
  from authenticate_spec [OF assms(1) Some assms(2)] obtain c' where "cfg' = upd_client (rq_client_id req) (\<lambda>_. c') cfg"
    and k: "(\<not> isl res, door_of c') = knock (au_max_attempts cfg) (au_lockout_duration cfg) now (rq_device_id req)
      (worth_of (verify_against cr totp cfg c now req)) (door_of c)" by metis
  then have "au_clients cfg' (rq_client_id req) = Some c'" using Some by (simp add: upd_client_lookup)
  with k Some authenticate_keeps [OF assms] show ?thesis by auto
qed

definition sample_crypto :: crypto where
  "sample_crypto =
     \<lparr>base32_decode = (\<lambda>_. Some [1, 2, 3]), hex_decode = (\<lambda>s. Some (as_bytes s)), hex_encode = of_bytes,
      sha256 = (\<lambda>bs. bs), hmac_sha256 = (\<lambda>key msg. Inr (key @ msg)), is_point = (\<lambda>_. True),
      is_signature = (\<lambda>bs. length bs = 64), key_verifies = (\<lambda>_ _ _. True)\<rparr>"

definition sample_totp :: totp_library where
  "sample_totp algorithm digits skew step secret =
     Some (\<lambda>now code. if code = ''123456'' then Some (now div step) else None)"

definition sample_client :: client_auth where
  "sample_client =
     \<lparr>ca_secret = ''JBSW'', ca_created_at = ''0'', ca_allow_hosts = Some [''app.example.com''], ca_allow_ports = None,
      ca_allow_ports_strict = False, ca_pending_enrollment = None, ca_devices = Map.empty,
      ca_unnamed_device_allowed = True, ca_last_used = None, ca_last_used_step = None, ca_failed_attempts = 0,
      ca_locked_until = None, ca_enrollment_failed_attempts = 0, ca_enrollment_locked_until = None\<rparr>"

definition sample_auth :: auth_config where
  "sample_auth = auth_config_default\<lparr>au_enabled := True, au_clients := [''alice'' \<mapsto> sample_client], au_max_attempts := 2\<rparr>"

definition sample_response :: "u64 \<Rightarrow> string \<Rightarrow> auth_request" where
  "sample_response now code =
     \<lparr>rq_client_id = ''alice'', rq_device_id = None, rq_nonce = [7], rq_timestamp = now,
      rq_signature = [1, 2, 3] @ challenge_message [7] now, rq_code = code\<rparr>"

lemma sample_auth_simps [simp]:
  "au_enabled sample_auth" "au_clients sample_auth ''alice'' = Some sample_client" "au_max_attempts sample_auth = 2"
  "au_lockout_duration sample_auth = 300" "rq_client_id (sample_response now code) = ''alice''"
  "rq_device_id (sample_response now code) = None"
  by (simp_all add: sample_auth_def auth_config_default_def sample_response_def)

lemma sample_worth:
  "verify_against sample_crypto sample_totp sample_auth sample_client 900 (sample_response 900 ''123456'') = Inr (Accepted (Some 30))"
  by code_simp

theorem authenticator_refines_witness:
  "\<exists>res cfg' dirty c'. authenticate sample_crypto sample_totp 900 (sample_response 900 ''123456'') sample_auth = (res, cfg', dirty) \<and>
     \<not> isl res \<and> au_clients cfg' ''alice'' = Some c' \<and>
     door_of c' = \<lparr>dr_guard = GOpen 0, dr_steps = (step_memory sample_client)(None \<mapsto> 30)\<rparr>"
proof -
  obtain res cfg' dirty where at:
    "authenticate sample_crypto sample_totp 900 (sample_response 900 ''123456'') sample_auth = (res, cfg', dirty)"
    by (metis prod.exhaust)
  from authenticator_refines [OF sample_auth_simps(1) at] obtain c' where c': "au_clients cfg' ''alice'' = Some c'"
    "(\<not> isl res, door_of c') = knock 2 300 900 None (Proves (Some 30)) (door_of sample_client)"
    by (auto simp: sample_worth)
  moreover have "door_of sample_client = \<lparr>dr_guard = GOpen 0, dr_steps = step_memory sample_client\<rparr>"
    "step_memory sample_client None = None"
    by (simp_all add: door_of_def guard_of_def step_memory_def sample_client_def)
  ultimately have "\<not> isl res" "door_of c' = \<lparr>dr_guard = GOpen 0, dr_steps = (step_memory sample_client)(None \<mapsto> 30)\<rparr>"
    by (simp_all add: knock_def)
  with at c'(1) show ?thesis by blast
qed

lemma sorted_between:
  fixes xs :: "u64 list"
  shows "sorted xs \<Longrightarrow> x \<in> set xs \<Longrightarrow> hd xs \<le> x \<and> x \<le> last xs"
proof (induction xs)
  case (Cons y ys)
  show ?case
  proof (cases "ys = []")
    case False
    then have "y \<le> last ys" using Cons.prems by simp
    then show ?thesis using Cons False by auto
  qed (use Cons.prems in simp)
qed simp

text \<open>
  C11: guessing is bounded. In any stretch of attempts shorter than the lockout, made by whomever and against whatever
  clients, at most as many codes are checked and counted wrong for one client as the configuration allows, and at most one when it allows
  none, as long as nobody is let in as that client in between.
\<close>

theorem guesses_bounded:
  assumes "au_enabled cfg" and "au_clients cfg i = Some c"
    and "ca_locked_until c = None \<longrightarrow> ca_failed_attempts c \<noteq> - 1"
    and "evs \<noteq> []" and "sorted (map fst evs)"
    and "unat (fst (last evs)) < unat (fst (hd evs)) + unat (au_lockout_duration cfg)"
    and "unat (fst (last evs)) + unat (au_lockout_duration cfg) < 2 ^ 64"
    and "auth_run cr totp evs cfg = (outs, cfg')" and "\<not> list_ex (let_in i) (zip evs outs)"
  shows "length (filter (counted_guess i) (zip evs outs)) \<le> max 1 (unat (au_max_attempts cfg))"
proof -
  let ?T = "unat (fst (last evs))"
  have "unat now \<le> ?T \<and> unat (fst (hd evs)) \<le> unat now" if "(now, req) \<in> set evs" for now req
  proof -
    have "now \<in> set (map fst evs)" using that by force
    from sorted_between [OF assms(5) this] show ?thesis
      using assms(4) by (simp add: hd_map last_map word_le_nat_alt)
  qed
  then have times: "\<forall>(now, req) \<in> set evs. unat now \<le> ?T \<and> ?T < unat now + unat (au_lockout_duration cfg) \<and>
      unat now + unat (au_lockout_duration cfg) < 2 ^ 64"
    using assms(6, 7) by fastforce
  have "sane (dr_guard (door_of c))"
    using assms(3) by (auto simp: sane_def door_of_def guard_of_def split: option.splits)
  from guesses_within [OF assms(1, 2) this times assms(8, 9)] show ?thesis
    by (auto simp: room_def split: guard.splits if_splits)
qed

theorem guesses_bounded_witness:
  "let evs = [(900, sample_response 900 ''000000''), (901, sample_response 901 ''111111''), (902, sample_response 902 ''222222'')];
       outs = fst (auth_run sample_crypto sample_totp evs sample_auth)
   in map (\<lambda>x. isl (fst x)) outs = [True, True, True] \<and> length (filter (counted_guess ''alice'') (zip evs outs)) \<le> 2"
proof -
  let ?evs = "[(900 :: u64, sample_response 900 ''000000''), (901, sample_response 901 ''111111''), (902, sample_response 902 ''222222'')]"
  let ?run = "auth_run sample_crypto sample_totp ?evs sample_auth"
  have "?run = (fst ?run, snd ?run)" by simp
  moreover have "\<not> list_ex (let_in ''alice'') (zip ?evs (fst ?run))" by code_simp
  moreover have "ca_locked_until sample_client = None \<longrightarrow> ca_failed_attempts sample_client \<noteq> - 1"
    by (simp add: sample_client_def)
  moreover have "sorted (map fst ?evs)" by simp
  ultimately have "length (filter (counted_guess ''alice'') (zip ?evs (fst ?run))) \<le> max 1 (unat (au_max_attempts sample_auth))"
    by (intro guesses_bounded [of sample_auth _ sample_client _ _ _ _ "snd ?run"]) simp_all
  moreover have "map (\<lambda>x. isl (fst x)) (fst ?run) = [True, True, True]" by code_simp
  ultimately show ?thesis by (simp add: Let_def)
qed

text \<open>
  C12: no code of an earlier step. Whatever else happens in between, the steps of the codes that are accepted for one
  credential never go back, nor behind the step the memory holds at the beginning.
\<close>

theorem steps_never_go_back:
  assumes "au_enabled cfg" and "au_clients cfg i = Some c" and "auth_run cr totp evs cfg = (outs, cfg')"
  shows "sorted (accepted_steps cr totp cfg c i who (zip evs outs)) \<and>
    (\<forall>m. step_memory c who = Some m \<longrightarrow> (\<forall>s \<in> set (accepted_steps cr totp cfg c i who (zip evs outs)). m \<le> s))"
  using steps_sorted [OF assms(1, 2) refl refl assms(3)] .

text \<open>The same code is accepted again: on a second connection, in the same step.\<close>

lemma same_code_accepted_twice:
  "map (\<lambda>x. isl (fst x)) (fst (auth_run sample_crypto sample_totp
     [(900, sample_response 900 ''123456''), (901, sample_response 901 ''123456'')] sample_auth)) = [False, False]"
  by code_simp

theorem steps_never_go_back_witness:
  "let evs = [(930, sample_response 930 ''123456''), (931, sample_response 931 ''123456''), (900, sample_response 900 ''123456'')];
       outs = fst (auth_run sample_crypto sample_totp evs sample_auth)
   in map (\<lambda>x. isl (fst x)) outs = [False, False, True] \<and>
      sorted (accepted_steps sample_crypto sample_totp sample_auth sample_client ''alice'' None (zip evs outs))"
proof -
  let ?evs = "[(930 :: u64, sample_response 930 ''123456''), (931, sample_response 931 ''123456''), (900, sample_response 900 ''123456'')]"
  let ?run = "auth_run sample_crypto sample_totp ?evs sample_auth"
  have run: "?run = (fst ?run, snd ?run)" by simp
  have "map (\<lambda>x. isl (fst x)) (fst ?run) = [False, False, True]" by code_simp
  with steps_never_go_back [OF sample_auth_simps(1, 2) run, of None] show ?thesis unfolding Let_def by blast
qed



lemma knock_ok_iff:
  "fst (knock m d now who w dr) \<longleftrightarrow> (\<exists>n. guard_at now (dr_guard dr) = GOpen n) \<and>
     (\<exists>step. w = Proves step \<and> (\<forall>s a. step = Some s \<and> dr_steps dr who = Some a \<longrightarrow> a \<le> s))"
  by (auto simp: knock_def Let_def not_less split: guard.split worth.split option.split)

lemma unlocked_iff: "(\<exists>n. guard_at now (dr_guard (door_of c)) = GOpen n) \<longleftrightarrow> \<not> is_locked_out c now"
  by (auto simp: door_of_def guard_of_def is_locked_out_def split: option.split)

lemma worth_of_Proves: "worth_of v = Proves step \<longleftrightarrow> v = Inr (Accepted step)"
  by (cases v rule: worth_of.cases) auto

lemma check_proof_accepts:
  "check_proof cr totp cfg now req pf = Inr (Accepted step) \<longleftrightarrow>
     (case pf of
        SecretProof secret \<Rightarrow>
          hmac_sha256 cr secret (rq_nonce req @ le_bytes 8 (rq_timestamp req)) = Inr (rq_signature req) \<and>
          (\<exists>s. step = Some s \<and> check_code totp cfg now secret (rq_code req) = Inr (Some s))
      | KeyProof key \<Rightarrow>
          is_signature cr (rq_signature req) \<and>
          key_verifies cr key (rq_nonce req @ le_bytes 8 (rq_timestamp req)) (rq_signature req) \<and> step = None)"
  by (cases pf)
    (auto simp: check_proof_def hmac_challenge_def challenge_message_def tag_eq_iff ed25519_verify_def
      split: sum.splits option.splits)

lemma verify_against_accepts:
  "verify_against cr totp cfg c now req = Inr (Accepted step) \<longleftrightarrow>
     (\<exists>pf. find_proof cr c (rq_device_id req) = Inr pf \<and> \<bar>sint now - sint (rq_timestamp req)\<bar> \<le> 30 \<and>
        check_proof cr totp cfg now req pf = Inr (Accepted step))"
  by (auto simp: verify_against_def rbind_eq_Inr abs_diff_def TIMESTAMP_WINDOW_SECS_def)

lemma acl_of_client_without: "client_without c = client_without c' \<Longrightarrow> acl_of_client c = acl_of_client c'"
  by (auto simp: acl_of_client_def dest!: arg_cong [of _ _ "\<lambda>c. (ca_allow_hosts c, ca_allow_ports c, ca_allow_ports_strict c)"])
    (simp_all add: client_without_def)

lemma let_in_cases:
  assumes "au_enabled cfg"
  shows "(\<exists>cfg' dirty. authenticate cr totp now req cfg = (Inr (acl, who), cfg', dirty)) \<longleftrightarrow>
    (\<exists>c step. au_clients cfg (rq_client_id req) = Some c \<and> \<not> is_locked_out c now \<and>
      verify_against cr totp cfg c now req = Inr (Accepted step) \<and>
      (\<forall>s a. step = Some s \<and> step_memory c (rq_device_id req) = Some a \<longrightarrow> a \<le> s) \<and>
      acl = acl_of_client c \<and> who = \<lparr>pi_client_id = Some (rq_client_id req), pi_device = rq_device_id req\<rparr>)"
proof (cases "au_clients cfg (rq_client_id req)")
  case None
  then show ?thesis using authenticate_unknown [OF assms] by simp
next
  case (Some c)
  obtain res cfg' dirty where at: "authenticate cr totp now req cfg = (res, cfg', dirty)" by (metis prod.exhaust)
  from authenticate_spec [OF assms Some at] obtain c' where
    k: "(\<not> isl res, door_of c') = knock (au_max_attempts cfg) (au_lockout_duration cfg) now (rq_device_id req)
      (worth_of (verify_against cr totp cfg c now req)) (door_of c)" and wo: "client_without c' = client_without c"
    and shape: "\<not> isl res \<Longrightarrow> res = Inr (acl_of_client c', \<lparr>pi_client_id = Some (rq_client_id req), pi_device = rq_device_id req\<rparr>)"
    by metis
  have "\<not> isl res \<longleftrightarrow> \<not> is_locked_out c now \<and> (\<exists>step. verify_against cr totp cfg c now req = Inr (Accepted step) \<and>
      (\<forall>s a. step = Some s \<and> step_memory c (rq_device_id req) = Some a \<longrightarrow> a \<le> s))"
    using arg_cong [OF k, of fst] by (simp add: knock_ok_iff unlocked_iff worth_of_Proves) (simp add: door_of_def)
  moreover have "acl_of_client c' = acl_of_client c" using acl_of_client_without [OF wo] .
  ultimately show ?thesis using shape Some at by (cases res) auto
qed

text \<open>
  C2: who is let in. An attempt succeeds exactly when the client it names is in the table and not locked out, the device it names
  has a credential that reads back, its time is within thirty seconds, and it proves that credential over the challenge of
  this connection: with the HMAC and a current code whose step is not behind the last accepted one, or with
  the signature of the device's key. The connection then runs under the authorization of that client.
\<close>

theorem let_in_iff_proved:
  assumes "au_enabled cfg"
  shows "(\<exists>cfg' dirty. authenticate cr totp now req cfg = (Inr (acl, who), cfg', dirty)) \<longleftrightarrow>
    (\<exists>c pf. au_clients cfg (rq_client_id req) = Some c \<and> \<not> is_locked_out c now \<and>
      find_proof cr c (rq_device_id req) = Inr pf \<and> \<bar>sint now - sint (rq_timestamp req)\<bar> \<le> 30 \<and>
      (case pf of
         SecretProof secret \<Rightarrow>
           hmac_sha256 cr secret (rq_nonce req @ le_bytes 8 (rq_timestamp req)) = Inr (rq_signature req) \<and>
           (\<exists>step. check_code totp cfg now secret (rq_code req) = Inr (Some step) \<and>
              (\<forall>m. step_memory c (rq_device_id req) = Some m \<longrightarrow> m \<le> step))
       | KeyProof key \<Rightarrow>
           is_signature cr (rq_signature req) \<and>
           key_verifies cr key (rq_nonce req @ le_bytes 8 (rq_timestamp req)) (rq_signature req)) \<and>
      acl = acl_of_client c \<and> who = \<lparr>pi_client_id = Some (rq_client_id req), pi_device = rq_device_id req\<rparr>)"
  unfolding let_in_cases [OF assms] verify_against_accepts check_proof_accepts
  by (rule iffI; elim exE conjE; fastforce split: credential_proof.splits)

theorem let_in_iff_proved_witness:
  "\<exists>cfg' dirty. authenticate sample_crypto sample_totp 900 (sample_response 900 ''123456'') sample_auth =
     (Inr (acl_of_client sample_client, \<lparr>pi_client_id = Some ''alice'', pi_device = None\<rparr>), cfg', dirty)"
proof -
  let ?req = "sample_response 900 ''123456''"
  have "find_proof sample_crypto sample_client (rq_device_id ?req) = Inr (SecretProof [1, 2, 3])" by code_simp
  moreover have "check_code sample_totp sample_auth 900 [1, 2, 3] (rq_code ?req) = Inr (Some 30)" by code_simp
  moreover have "hmac_sha256 sample_crypto [1, 2, 3] (rq_nonce ?req @ le_bytes 8 (rq_timestamp ?req)) = Inr (rq_signature ?req)"
    by (simp add: sample_crypto_def sample_response_def challenge_message_def)
  moreover have "\<not> is_locked_out sample_client 900" "step_memory sample_client None = None" "rq_timestamp ?req = 900"
    by (simp_all add: is_locked_out_def step_memory_def sample_client_def sample_response_def)
  ultimately show ?thesis
    by (intro iffD2 [OF let_in_iff_proved]) (auto intro!: exI [of _ "SecretProof [1, 2, 3]"])
qed

text \<open>A refusal that is not a wrong code is not counted, a wrong signature of a device key among them.\<close>

lemma refusal_not_counted:
  assumes "au_enabled cfg" and "au_clients cfg (rq_client_id req) = Some c" and "\<not> is_locked_out (refresh_lockout now c) now"
    and "verify_against cr totp cfg c now req = Inl e"
  shows "authenticate cr totp now req cfg = (Inl e, upd_client (rq_client_id req) (\<lambda>_. refresh_lockout now c) cfg, False)"
  using authenticate_local [OF assms(1, 2), of cr totp now "Inl e" "refresh_lockout now c" False] assms(3, 4)
  by (simp add: attempt_client_def)

end
