(* ===== verification/Nexa_Store.thy ===== *)
theory Nexa_Store
  imports Nexa_Auth Nexa_Timing "HOL-Library.AList" "HOL-Library.List_Lexorder" "HOL-Library.Char_ord"
begin

text \<open>
  The credentials on disk: how \<open>[auth]\<close> of the configuration file is read
  (\<open>crates/nexapipe/src/config/auth_file.rs\<close>, \<open>config/load.rs\<close>, \<open>config/validate.rs\<close>) and how the
  commands and the enrollment edit it (\<open>storage/file.rs\<close>). A TOML document is its tree, a table being the list
  of its keys and values; \<open>toml_lib\<close> holds the parsers and the printer of the TOML libraries, and \<open>file_io\<close>
  says which of the calls to the operating system fail. A message is a constructor of \<open>load_error\<close> or
  \<open>store_error\<close> with what it names. Where a Rust hash map is walked, the list's own order stands for the
  order of the map: it decides which of several errors is the one reported, and nothing else.
\<close>

section \<open>Documents\<close>

datatype toml =
    TString string
  | TInteger int
  | TFloat string
  | TBoolean bool
  | TDatetime string
  | TArray "toml list"
  | TTable "(string \<times> toml) list"

type_synonym toml_table = "(string \<times> toml) list"

record toml_lib =
  tl_document :: "string \<Rightarrow> string + toml_table"
  tl_value :: "string \<Rightarrow> toml_table option"
  tl_print :: "toml_table \<Rightarrow> string"

text \<open>A walk over a table that stops at the first error.\<close>

fun table_walk :: "(string \<Rightarrow> 'a \<Rightarrow> 'e + 'b) \<Rightarrow> (string \<times> 'a) list \<Rightarrow> 'e + (string \<times> 'b) list" where
  "table_walk f [] = Inr []"
| "table_walk f ((k, v) # t) = rbind (f k v) (\<lambda>w. rbind (table_walk f t) (\<lambda>ws. Inr ((k, w) # ws)))"

fun list_walk :: "('a \<Rightarrow> 'e + 'b) \<Rightarrow> 'a list \<Rightarrow> 'e + 'b list" where
  "list_walk f [] = Inr []"
| "list_walk f (v # vs) = rbind (f v) (\<lambda>w. rbind (list_walk f vs) (\<lambda>ws. Inr (w # ws)))"

section \<open>The shapes on disk\<close>

datatype totp_fault = StepZero | DigitsRange u32 | WindowRange u32

datatype load_error =
    BadShape
  | EmptyToken string
  | LooseAllowHost string string pattern_fault
  | PortZero string
  | DeviceWithoutName string
  | DeviceNameUnprintable string string
  | NoCredential string string
  | TwoCredentials string string
  | DeviceKeyUnreadable string string key_error
  | UnknownAlgorithm string
  | BadTotp totp_fault
  | NoConfiguration
  | StateUnreadable string

definition de_string :: "toml \<Rightarrow> load_error + string" where
  "de_string v = (case v of TString s \<Rightarrow> Inr s | _ \<Rightarrow> Inl BadShape)"

definition de_bool :: "toml \<Rightarrow> load_error + bool" where
  "de_bool v = (case v of TBoolean b \<Rightarrow> Inr b | _ \<Rightarrow> Inl BadShape)"

text \<open>An integer has to fit the width of the field it is read into.\<close>

definition de_word :: "toml \<Rightarrow> load_error + 'w::len word" where
  "de_word v =
     (case v of
        TInteger i \<Rightarrow> if 0 \<le> i \<and> i < 2 ^ LENGTH('w) then Inr (word_of_int i) else Inl BadShape
      | _ \<Rightarrow> Inl BadShape)"

definition de_list :: "(toml \<Rightarrow> load_error + 'a) \<Rightarrow> toml \<Rightarrow> load_error + 'a list" where
  "de_list f v = (case v of TArray vs \<Rightarrow> list_walk f vs | _ \<Rightarrow> Inl BadShape)"

definition de_table :: "(toml \<Rightarrow> load_error + 'a) \<Rightarrow> toml \<Rightarrow> load_error + (string \<times> 'a) list" where
  "de_table f v = (case v of TTable t \<Rightarrow> table_walk (\<lambda>_. f) t | _ \<Rightarrow> Inl BadShape)"

definition de_field :: "(toml \<Rightarrow> load_error + 'a) \<Rightarrow> string \<Rightarrow> toml_table \<Rightarrow> load_error + 'a option" where
  "de_field f key t = (case map_of t key of None \<Rightarrow> Inr None | Some v \<Rightarrow> rbind (f v) (\<lambda>x. Inr (Some x)))"

definition known_fields :: "string list \<Rightarrow> toml_table \<Rightarrow> bool" where
  "known_fields names t = list_all (\<lambda>(k, _). k \<in> set names) t"

record device_toml =
  dt_secret :: "string option"
  dt_public_key :: "string option"
  dt_created_at :: "string option"
  dt_last_used :: "u64 option"

definition de_device :: "toml \<Rightarrow> load_error + device_toml" where
  "de_device v =
     (case v of
        TTable t \<Rightarrow>
          if \<not> known_fields [''secret'', ''public_key'', ''created_at'', ''last_used''] t then Inl BadShape
          else
            rbind (de_field de_string ''secret'' t) (\<lambda>secret.
            rbind (de_field de_string ''public_key'' t) (\<lambda>public_key.
            rbind (de_field de_string ''created_at'' t) (\<lambda>created_at.
            rbind (de_field de_word ''last_used'' t) (\<lambda>last_used.
              Inr \<lparr>dt_secret = secret, dt_public_key = public_key, dt_created_at = created_at,
                dt_last_used = last_used\<rparr>))))
      | _ \<Rightarrow> Inl BadShape)"

record client_toml =
  ct_secret :: string
  ct_created_at :: "string option"
  ct_allow_hosts :: "string list option"
  ct_allow_ports :: "u16 list option"
  ct_allow_ports_strict :: "bool option"
  ct_pending_enrollment :: "string option"
  ct_devices :: "(string \<times> device_toml) list option"
  ct_unnamed_device_allowed :: "bool option"
  ct_failed_attempts :: "u32 option"
  ct_locked_until :: "u64 option"
  ct_last_used :: "u64 option"

definition CLIENT_FIELDS :: "string list" where
  "CLIENT_FIELDS =
     [''secret'', ''created_at'', ''allow_hosts'', ''allow_ports'', ''allow_ports_strict'', ''pending_enrollment'',
      ''devices'', ''unnamed_device_allowed'', ''failed_attempts'', ''locked_until'', ''last_used'']"

definition de_client :: "toml \<Rightarrow> load_error + client_toml" where
  "de_client v =
     (case v of
        TTable t \<Rightarrow>
          if \<not> known_fields CLIENT_FIELDS t then Inl BadShape
          else
            rbind (de_field de_string ''secret'' t) (\<lambda>secret.
            rbind (ok_or BadShape secret) (\<lambda>secret.
            rbind (de_field de_string ''created_at'' t) (\<lambda>created_at.
            rbind (de_field (de_list de_string) ''allow_hosts'' t) (\<lambda>allow_hosts.
            rbind (de_field (de_list de_word) ''allow_ports'' t) (\<lambda>allow_ports.
            rbind (de_field de_bool ''allow_ports_strict'' t) (\<lambda>strict.
            rbind (de_field de_string ''pending_enrollment'' t) (\<lambda>token.
            rbind (de_field (de_table de_device) ''devices'' t) (\<lambda>devices.
            rbind (de_field de_bool ''unnamed_device_allowed'' t) (\<lambda>unnamed.
            rbind (de_field de_word ''failed_attempts'' t) (\<lambda>failed.
            rbind (de_field de_word ''locked_until'' t) (\<lambda>until.
            rbind (de_field de_word ''last_used'' t) (\<lambda>last_used.
              Inr \<lparr>ct_secret = secret, ct_created_at = created_at, ct_allow_hosts = allow_hosts,
                ct_allow_ports = allow_ports, ct_allow_ports_strict = strict, ct_pending_enrollment = token,
                ct_devices = devices, ct_unnamed_device_allowed = unnamed, ct_failed_attempts = failed,
                ct_locked_until = until, ct_last_used = last_used\<rparr>))))))))))))
      | _ \<Rightarrow> Inl BadShape)"

record auth_toml =
  at_enabled :: "bool option"
  at_issuer :: "string option"
  at_algorithm :: "string option"
  at_time_step :: "u32 option"
  at_digits :: "u32 option"
  at_window :: "u32 option"
  at_max_attempts :: "u32 option"
  at_lockout_duration :: "u64 option"
  at_clients :: "(string \<times> client_toml) list option"

definition AUTH_FIELDS :: "string list" where
  "AUTH_FIELDS =
     [''enabled'', ''issuer'', ''algorithm'', ''time_step'', ''digits'', ''window'', ''max_attempts'',
      ''lockout_duration'', ''clients'']"

definition de_auth :: "toml \<Rightarrow> load_error + auth_toml" where
  "de_auth v =
     (case v of
        TTable t \<Rightarrow>
          if \<not> known_fields AUTH_FIELDS t then Inl BadShape
          else
            rbind (de_field de_bool ''enabled'' t) (\<lambda>enabled.
            rbind (de_field de_string ''issuer'' t) (\<lambda>issuer.
            rbind (de_field de_string ''algorithm'' t) (\<lambda>algorithm.
            rbind (de_field de_word ''time_step'' t) (\<lambda>time_step.
            rbind (de_field de_word ''digits'' t) (\<lambda>digits.
            rbind (de_field de_word ''window'' t) (\<lambda>window.
            rbind (de_field de_word ''max_attempts'' t) (\<lambda>max_attempts.
            rbind (de_field de_word ''lockout_duration'' t) (\<lambda>lockout.
            rbind (de_field (de_table de_client) ''clients'' t) (\<lambda>clients.
              Inr \<lparr>at_enabled = enabled, at_issuer = issuer, at_algorithm = algorithm, at_time_step = time_step,
                at_digits = digits, at_window = window, at_max_attempts = max_attempts,
                at_lockout_duration = lockout, at_clients = clients\<rparr>)))))))))
      | _ \<Rightarrow> Inl BadShape)"

section \<open>Loading\<close>

definition default_created_at :: "u64 \<Rightarrow> string" where
  "default_created_at now = show_nat (unat now)"

definition load_device :: "crypto \<Rightarrow> u64 \<Rightarrow> string \<Rightarrow> string \<Rightarrow> device_toml \<Rightarrow> load_error + device_auth" where
  "load_device cr now client_id device_id dt =
     (if device_id = [] then Inl (DeviceWithoutName client_id)
      else if \<not> is_presentable_device_id device_id then Inl (DeviceNameUnprintable client_id device_id)
      else
        (let secret = Option.bind (dt_secret dt) (\<lambda>s. if s = [] then None else Some s);
             checked =
               (case (secret, dt_public_key dt) of
                  (None, None) \<Rightarrow> Inl (NoCredential client_id device_id)
                | (Some _, Some _) \<Rightarrow> Inl (TwoCredentials client_id device_id)
                | (None, Some public_key) \<Rightarrow>
                    (case parse_public_key cr public_key of
                       Inl why \<Rightarrow> Inl (DeviceKeyUnreadable client_id device_id why)
                     | Inr _ \<Rightarrow> Inr ())
                | (Some _, None) \<Rightarrow> Inr ())
         in rbind checked (\<lambda>_.
              Inr \<lparr>da_secret = unwrap_or secret [], da_public_key = dt_public_key dt,
                da_created_at = unwrap_or (dt_created_at dt) (default_created_at now),
                da_last_used = dt_last_used dt, da_last_used_step = None\<rparr>)))"

definition check_allow_hosts :: "string \<Rightarrow> string list option \<Rightarrow> load_error + unit" where
  "check_allow_hosts client_id hosts =
     (case List.find (\<lambda>host. pattern_error host \<noteq> None) (unwrap_or hosts []) of
        None \<Rightarrow> Inr ()
      | Some host \<Rightarrow> Inl (LooseAllowHost client_id host (the (pattern_error host))))"

definition load_client :: "crypto \<Rightarrow> u64 \<Rightarrow> string \<Rightarrow> client_toml \<Rightarrow> load_error + client_auth" where
  "load_client cr now client_id ct =
     (if ct_pending_enrollment ct = Some [] then Inl (EmptyToken client_id)
      else
        rbind (check_allow_hosts client_id (ct_allow_hosts ct)) (\<lambda>_.
          if (case ct_allow_ports ct of Some ports \<Rightarrow> 0 \<in> set ports | None \<Rightarrow> False) then Inl (PortZero client_id)
          else
            rbind (table_walk (load_device cr now client_id) (unwrap_or (ct_devices ct) [])) (\<lambda>devices.
              Inr \<lparr>ca_secret = ct_secret ct, ca_created_at = unwrap_or (ct_created_at ct) (default_created_at now),
                ca_allow_hosts = ct_allow_hosts ct, ca_allow_ports = ct_allow_ports ct,
                ca_allow_ports_strict = unwrap_or (ct_allow_ports_strict ct) False,
                ca_pending_enrollment = ct_pending_enrollment ct, ca_devices = map_of devices,
                ca_unnamed_device_allowed = unwrap_or (ct_unnamed_device_allowed ct) True,
                ca_last_used = ct_last_used ct, ca_last_used_step = None,
                ca_failed_attempts = unwrap_or (ct_failed_attempts ct) 0, ca_locked_until = ct_locked_until ct,
                ca_enrollment_failed_attempts = 0, ca_enrollment_locked_until = None\<rparr>)))"

definition load_algorithm :: "string option \<Rightarrow> load_error + totp_algorithm" where
  "load_algorithm spelled =
     (case map_option str_trim spelled of
        None \<Rightarrow> Inr SHA1
      | Some name \<Rightarrow>
          if name \<in> {[], ''sha1'', ''SHA1''} then Inr SHA1
          else if name \<in> {''sha256'', ''SHA256''} then Inr SHA256
          else if name \<in> {''sha512'', ''SHA512''} then Inr SHA512
          else Inl (UnknownAlgorithm name))"

text \<open>The result carries the minutes of the warning a wide window gets, computed in 32 bits.\<close>

definition validate_totp_parameters :: "u32 \<Rightarrow> u32 \<Rightarrow> u32 \<Rightarrow> totp_fault + u32 option" where
  "validate_totp_parameters time_step digits window =
     (if time_step = 0 then Inl StepZero
      else if \<not> (6 \<le> digits \<and> digits \<le> 8) then Inl (DigitsRange digits)
      else if 255 < window then Inl (WindowRange window)
      else if 10 < window then Inr (Some (window * time_step div 60))
      else Inr None)"

definition load_auth :: "crypto \<Rightarrow> u64 \<Rightarrow> auth_toml \<Rightarrow> load_error + auth_config" where
  "load_auth cr now at =
     rbind (table_walk (load_client cr now) (unwrap_or (at_clients at) [])) (\<lambda>clients.
     rbind (load_algorithm (at_algorithm at)) (\<lambda>algorithm.
       let time_step = unwrap_or (at_time_step at) 30;
           digits = unwrap_or (at_digits at) 6;
           window = unwrap_or (at_window at) 1
       in
       (case validate_totp_parameters time_step digits window of
          Inl fault \<Rightarrow> Inl (BadTotp fault)
        | Inr _ \<Rightarrow>
            Inr \<lparr>au_enabled = unwrap_or (at_enabled at) False, au_issuer = unwrap_or (at_issuer at) DEFAULT_ISSUER,
              au_algorithm = algorithm, au_time_step = time_step, au_digits = digits, au_window = window,
              au_clients = map_of clients, au_max_attempts = unwrap_or (at_max_attempts at) 5,
              au_lockout_duration = unwrap_or (at_lockout_duration at) 300\<rparr>)))"

text \<open>The second half of \<open>parse_with_auth\<close>: a document with no \<open>[auth]\<close> has nothing to read.\<close>

definition parse_auth :: "crypto \<Rightarrow> toml_lib \<Rightarrow> u64 \<Rightarrow> string \<Rightarrow> load_error + auth_config option" where
  "parse_auth cr lib now content =
     (case tl_value lib content of
        None \<Rightarrow> Inr None
      | Some doc \<Rightarrow>
          (case map_of doc ''auth'' of
             None \<Rightarrow> Inr None
           | Some section \<Rightarrow>
               rbind (de_auth section) (\<lambda>at. rbind (load_auth cr now at) (\<lambda>cfg. Inr (Some cfg)))))"

definition load_auth_half ::
    "crypto \<Rightarrow> toml_lib \<Rightarrow> u64 \<Rightarrow> string option \<Rightarrow> string + runtime_state \<Rightarrow> load_error + auth_config option" where
  "load_auth_half cr lib now content state =
     rbind (ok_or NoConfiguration content) (\<lambda>content.
     rbind (parse_auth cr lib now content) (\<lambda>auth.
       (case auth of
          None \<Rightarrow> Inr None
        | Some cfg \<Rightarrow>
            (case state of
               Inl e \<Rightarrow> Inl (StateUnreadable e)
             | Inr st \<Rightarrow> Inr (Some (apply_state cr st cfg))))))"

section \<open>Files\<close>

text \<open>
  Which calls fail: taking the lock, reading the file, writing the temporary file, the rename, and when the rename
  fails the write in place, with what it leaves of the file, and the change of mode before and after it.
\<close>

record file_io =
  io_lock :: "string option"
  io_read :: "string option"
  io_temp :: "string option"
  io_rename :: "string option"
  io_mode :: "string option"
  io_place :: "(string \<times> string) option"
  io_mode_after :: "string option"

datatype store_error =
    CannotLock string
  | CannotRead string
  | NotToml string string
  | CannotWrite string
  | CannotWriteInPlace string string
  | CannotSetMode string
  | NotATable string
  | DevicesNotATable string
  | IrohNotATable
  | ClientHasSecret string
  | ClientWithoutSecret string
  | DeviceNameRefused string
  | DeviceHasCredential string string
  | EmptyDeviceSecret
  | DeviceKeyRefused key_error
  | NoClientsTable
  | NoClientSection string
  | NoDevices string
  | NoSuchDevice string string "string list"

definition read_document :: "file_io \<Rightarrow> toml_lib \<Rightarrow> string \<Rightarrow> string option \<Rightarrow> store_error + toml_table" where
  "read_document io lib what file =
     (case io_read io of
        Some e \<Rightarrow> Inl (CannotRead e)
      | None \<Rightarrow>
          (case file of
             None \<Rightarrow> Inl (CannotRead ''No such file or directory'')
           | Some content \<Rightarrow>
               (case tl_document lib content of Inl e \<Rightarrow> Inl (NotToml what e) | Inr doc \<Rightarrow> Inr doc)))"

definition write_file :: "file_io \<Rightarrow> string \<Rightarrow> string option \<Rightarrow> (store_error + unit) \<times> string option" where
  "write_file io contents file =
     (case io_temp io of
        Some e \<Rightarrow> (Inl (CannotWrite e), file)
      | None \<Rightarrow>
          (case io_rename io of
             None \<Rightarrow> (Inr (), Some contents)
           | Some rename \<Rightarrow>
               (case (if file = None then None else io_mode io) of
                  Some e \<Rightarrow> (Inl (CannotSetMode e), file)
                | None \<Rightarrow>
                    (case io_place io of
                       Some (e, left) \<Rightarrow> (Inl (CannotWriteInPlace e rename), Some left)
                     | None \<Rightarrow>
                         (case io_mode_after io of
                            Some e \<Rightarrow> (Inl (CannotSetMode e), Some contents)
                          | None \<Rightarrow> (Inr (), Some contents))))))"

definition write_document ::
    "file_io \<Rightarrow> toml_lib \<Rightarrow> toml_table \<Rightarrow> string option \<Rightarrow> (store_error + unit) \<times> string option" where
  "write_document io lib doc file = write_file io (tl_print lib doc) file"

text \<open>The frame every writer shares: under the lock, the document is read, edited and written back.\<close>

definition with_lock ::
    "file_io \<Rightarrow> toml_lib \<Rightarrow> string \<Rightarrow> (toml_table \<Rightarrow> store_error + 'a \<times> toml_table) \<Rightarrow> string option \<Rightarrow>
      (store_error + 'a) \<times> string option" where
  "with_lock io lib what edit file =
     (case io_lock io of
        Some e \<Rightarrow> (Inl (CannotLock e), file)
      | None \<Rightarrow>
          (case rbind (read_document io lib what file) edit of
             Inl e \<Rightarrow> (Inl e, file)
           | Inr (a, doc) \<Rightarrow>
               let (written, file') = write_document io lib doc file in (rbind written (\<lambda>_. Inr a), file')))"

section \<open>Edits of the document\<close>

text \<open>A table below another one is edited in place; the edit of a table that is missing starts from an empty one.\<close>

definition sub_table ::
    "string \<Rightarrow> (toml_table \<Rightarrow> store_error + 'a \<times> toml_table) \<Rightarrow> toml_table \<Rightarrow> store_error + 'a \<times> toml_table" where
  "sub_table key edit parent =
     (case map_of parent key of
        None \<Rightarrow> rbind (edit []) (\<lambda>(a, t). Inr (a, AList.update key (TTable t) parent))
      | Some (TTable t) \<Rightarrow> rbind (edit t) (\<lambda>(a, t). Inr (a, AList.update key (TTable t) parent))
      | Some _ \<Rightarrow> Inl (NotATable key))"

definition edit_client ::
    "string \<Rightarrow> (toml_table \<Rightarrow> store_error + 'a \<times> toml_table) \<Rightarrow> toml_table \<Rightarrow> store_error + 'a \<times> toml_table" where
  "edit_client client_id edit = sub_table ''auth'' (sub_table ''clients'' (sub_table client_id edit))"

definition device_table ::
    "string \<Rightarrow> (toml_table \<Rightarrow> store_error + 'a \<times> toml_table) \<Rightarrow> toml_table \<Rightarrow> store_error + 'a \<times> toml_table" where
  "device_table client_id edit client =
     (case map_of client ''devices'' of
        None \<Rightarrow> rbind (edit []) (\<lambda>(a, t). Inr (a, AList.update ''devices'' (TTable t) client))
      | Some (TTable t) \<Rightarrow> rbind (edit t) (\<lambda>(a, t). Inr (a, AList.update ''devices'' (TTable t) client))
      | Some _ \<Rightarrow> Inl (DevicesNotATable client_id))"

datatype device_credential = CredSecret string | CredPublicKey string

datatype client_secret_write = Added | Replaced

definition device_entry :: "crypto \<Rightarrow> u64 \<Rightarrow> device_credential \<Rightarrow> store_error + toml" where
  "device_entry cr now credential =
     rbind
       (case credential of
          CredSecret secret \<Rightarrow>
            if secret = [] then Inl EmptyDeviceSecret else Inr (AList.update ''secret'' (TString secret) [])
        | CredPublicKey public_key \<Rightarrow>
            (case parse_public_key cr public_key of
               Inl why \<Rightarrow> Inl (DeviceKeyRefused why)
             | Inr key \<Rightarrow> Inr (AList.update ''public_key'' (TString (public_key_hex cr key)) [])))
       (\<lambda>entry. Inr (TTable (AList.update ''created_at'' (TString (default_created_at now)) entry)))"

definition client_secret_edit :: "string \<Rightarrow> string \<Rightarrow> bool \<Rightarrow> toml_table \<Rightarrow> store_error + client_secret_write \<times> toml_table" where
  "client_secret_edit client_id secret force =
     edit_client client_id (\<lambda>client.
       let replaced = (map_of client ''secret'' \<noteq> None) in
       if replaced \<and> \<not> force then Inl (ClientHasSecret client_id)
       else Inr (if replaced then Replaced else Added, AList.update ''secret'' (TString secret) client))"

definition write_client_secret where
  "write_client_secret io lib client_id secret force =
     with_lock io lib ''secret not written'' (client_secret_edit client_id secret force)"

definition pending_enrollment_edit :: "string \<Rightarrow> string \<Rightarrow> toml_table \<Rightarrow> store_error + unit \<times> toml_table" where
  "pending_enrollment_edit client_id token =
     edit_client client_id (\<lambda>client.
       if map_of client ''secret'' = None then Inl (ClientWithoutSecret client_id)
       else Inr ((), AList.update ''pending_enrollment'' (TString token) client))"

definition write_pending_enrollment where
  "write_pending_enrollment io lib client_id token =
     with_lock io lib ''token not written'' (pending_enrollment_edit client_id token)"

definition enrollment_edit :: "string \<Rightarrow> string \<Rightarrow> toml_table \<Rightarrow> store_error + unit \<times> toml_table" where
  "enrollment_edit client_id secret =
     edit_client client_id (\<lambda>client.
       Inr ((), AList.delete ''pending_enrollment'' (AList.update ''secret'' (TString secret) client)))"

definition complete_enrollment where
  "complete_enrollment io lib client_id secret =
     with_lock io lib ''enrollment not saved'' (enrollment_edit client_id secret)"

definition device_enrollment_edit ::
    "crypto \<Rightarrow> u64 \<Rightarrow> string \<Rightarrow> string \<Rightarrow> device_credential \<Rightarrow> toml_table \<Rightarrow> store_error + unit \<times> toml_table" where
  "device_enrollment_edit cr now client_id device credential =
     edit_client client_id (\<lambda>client.
       rbind (device_table client_id (\<lambda>devices.
                rbind (device_entry cr now credential) (\<lambda>entry. Inr ((), AList.update device entry devices))) client)
         (\<lambda>(u, client). Inr (u, AList.delete ''pending_enrollment'' client)))"

definition complete_device_enrollment where
  "complete_device_enrollment cr io lib now client_id device credential =
     with_lock io lib ''enrollment not saved'' (device_enrollment_edit cr now client_id device credential)"

definition device_credential_edit ::
    "crypto \<Rightarrow> u64 \<Rightarrow> string \<Rightarrow> string \<Rightarrow> device_credential \<Rightarrow> bool \<Rightarrow> toml_table \<Rightarrow>
      store_error + client_secret_write \<times> toml_table" where
  "device_credential_edit cr now client_id device credential force =
     edit_client client_id (\<lambda>client.
       if map_of client ''secret'' = None then Inl (ClientWithoutSecret client_id)
       else
         device_table client_id (\<lambda>devices.
           let replaced = (map_of devices device \<noteq> None) in
           if replaced \<and> \<not> force then Inl (DeviceHasCredential client_id device)
           else
             rbind (device_entry cr now credential) (\<lambda>entry.
               Inr (if replaced then Replaced else Added, AList.update device entry devices))) client)"

definition write_device_credential where
  "write_device_credential cr io lib now client_id device credential force file =
     (if \<not> is_presentable_device_id device then (Inl (DeviceNameRefused device), file)
      else with_lock io lib ''secret not written'' (device_credential_edit cr now client_id device credential force) file)"

definition existing_table ::
    "string \<Rightarrow> store_error \<Rightarrow> (toml_table \<Rightarrow> store_error + 'a \<times> toml_table) \<Rightarrow> toml_table \<Rightarrow>
      store_error + 'a \<times> toml_table" where
  "existing_table key missing edit parent =
     (case map_of parent key of
        Some (TTable t) \<Rightarrow> rbind (edit t) (\<lambda>(a, t). Inr (a, AList.update key (TTable t) parent))
      | _ \<Rightarrow> Inl missing)"

definition auth_clients ::
    "(toml_table \<Rightarrow> store_error + 'a \<times> toml_table) \<Rightarrow> toml_table \<Rightarrow> store_error + 'a \<times> toml_table" where
  "auth_clients edit = existing_table ''auth'' NoClientsTable (existing_table ''clients'' NoClientsTable edit)"

definition device_names :: "toml_table \<Rightarrow> string list" where
  "device_names devices = sort (map fst devices)"

definition remove_device_edit :: "string \<Rightarrow> string \<Rightarrow> toml_table \<Rightarrow> store_error + unit \<times> toml_table" where
  "remove_device_edit client_id device =
     auth_clients
       (existing_table client_id (NoClientSection client_id)
         (existing_table ''devices'' (NoDevices client_id) (\<lambda>devices.
            if map_of devices device = None then Inl (NoSuchDevice client_id device (device_names devices))
            else Inr ((), AList.delete device devices))))"

definition remove_device where
  "remove_device io lib client_id device = with_lock io lib ''nothing revoked'' (remove_device_edit client_id device)"

definition remove_client_edit :: "string \<Rightarrow> toml_table \<Rightarrow> store_error + unit \<times> toml_table" where
  "remove_client_edit client_id =
     auth_clients (\<lambda>clients.
       if map_of clients client_id = None then Inl (NoClientSection client_id)
       else Inr ((), AList.delete client_id clients))"

definition remove_client where
  "remove_client io lib client_id = with_lock io lib ''nothing revoked'' (remove_client_edit client_id)"

definition endpoint_key_edit :: "string \<Rightarrow> toml_table \<Rightarrow> store_error + unit \<times> toml_table" where
  "endpoint_key_edit key doc =
     (case sub_table ''iroh'' (\<lambda>iroh. Inr ((), AList.update ''secret_key'' (TString key) iroh)) doc of
        Inl _ \<Rightarrow> Inl IrohNotATable
      | Inr r \<Rightarrow> Inr r)"

definition write_endpoint_key where
  "write_endpoint_key io lib key = with_lock io lib ''secret_key not written'' (endpoint_key_edit key)"


section \<open>Walks\<close>

lemma table_walk_update:
  "table_walk f xs = Inr ys \<Longrightarrow> f k v = Inr w \<Longrightarrow> table_walk f (AList.update k v xs) = Inr (AList.update k w ys)"
  by (induction f xs arbitrary: ys rule: table_walk.induct) auto

lemma table_walk_delete: "table_walk f xs = Inr ys \<Longrightarrow> table_walk f (AList.delete k xs) = Inr (AList.delete k ys)"
  by (induction f xs arbitrary: ys rule: table_walk.induct) auto

lemma table_walk_lookup: "table_walk f xs = Inr ys \<Longrightarrow> rel_option (\<lambda>v w. f k v = Inr w) (map_of xs k) (map_of ys k)"
  by (induction f xs arbitrary: ys rule: table_walk.induct) auto

lemma table_walk_compose:
  "rbind (table_walk (\<lambda>_. g) xs) (table_walk f) = Inr zs \<longleftrightarrow> table_walk (\<lambda>k v. rbind (g v) (f k)) xs = Inr zs"
proof (induction xs arbitrary: zs)
  case (Cons x xs)
  have "rbind (table_walk (\<lambda>_. g) (x # xs)) (table_walk f) = Inr zs \<longleftrightarrow>
      (\<exists>w zs'. rbind (g (snd x)) (f (fst x)) = Inr w \<and> rbind (table_walk (\<lambda>_. g) xs) (table_walk f) = Inr zs' \<and>
        zs = (fst x, w) # zs')"
    by (cases x) fastforce
  then show ?case unfolding Cons.IH by (cases x) auto
qed simp

lemma known_fields_edit [simp]:
  "k \<in> set names \<Longrightarrow> known_fields names t \<Longrightarrow> known_fields names (AList.update k v t)"
  "known_fields names t \<Longrightarrow> known_fields names (AList.delete k t)"
  "known_fields names []"
  by (induction t) (auto simp: known_fields_def)

lemma de_field_edit [simp]:
  "de_field f k (AList.update j v t) = (if j = k then rbind (f v) (\<lambda>x. Inr (Some x)) else de_field f k t)"
  "de_field f k (AList.delete j t) = (if j = k then Inr None else de_field f k t)"
  "de_field f k [] = Inr None"
  by (auto simp: de_field_def update_conv' delete_conv')

lemma de_scalars [simp]:
  "de_string (TString s) = Inr s" "de_bool (TBoolean b) = Inr b"
  by (simp_all add: de_string_def de_bool_def)

section \<open>The client and the table of clients in a document\<close>

definition section_of :: "toml_table \<Rightarrow> toml" where
  "section_of doc = (case map_of doc ''auth'' of None \<Rightarrow> TTable [] | Some section \<Rightarrow> section)"

text \<open>What a document says about authentication; one with no \<open>[auth]\<close> says what an empty section says.\<close>

definition auth_view :: "crypto \<Rightarrow> u64 \<Rightarrow> toml_table \<Rightarrow> load_error + auth_config" where
  "auth_view cr now doc = rbind (de_auth (section_of doc)) (load_auth cr now)"

definition client_view :: "crypto \<Rightarrow> u64 \<Rightarrow> string \<Rightarrow> toml \<Rightarrow> load_error + client_auth" where
  "client_view cr now i v = rbind (de_client v) (load_client cr now i)"

definition device_view :: "crypto \<Rightarrow> u64 \<Rightarrow> string \<Rightarrow> string \<Rightarrow> toml \<Rightarrow> load_error + device_auth" where
  "device_view cr now i d v = rbind (de_device v) (load_device cr now i d)"

lemma walk_clients:
  "rbind (table_walk (\<lambda>_. de_client) cs) (table_walk (load_client cr now)) = Inr r \<longleftrightarrow>
     table_walk (client_view cr now) cs = Inr r"
  unfolding table_walk_compose client_view_def [abs_def] ..

lemma walk_devices:
  "rbind (table_walk (\<lambda>_. de_device) cs) (table_walk (load_device cr now i)) = Inr r \<longleftrightarrow>
     table_walk (device_view cr now i) cs = Inr r"
  unfolding table_walk_compose device_view_def [abs_def] ..

lemma empty_section: "de_auth (TTable []) = Inr \<lparr>at_enabled = None, at_issuer = None, at_algorithm = None,
    at_time_step = None, at_digits = None, at_window = None, at_max_attempts = None, at_lockout_duration = None,
    at_clients = None\<rparr>"
  by (simp add: de_auth_def)

lemma de_auth_clients:
  assumes "de_auth (TTable t) = Inr at" and "table_walk (\<lambda>_. de_client) cs = Inr cts"
  shows "de_auth (TTable (AList.update ''clients'' (TTable cs) t)) = Inr (at\<lparr>at_clients := Some cts\<rparr>)"
  using assms by (auto simp: de_auth_def AUTH_FIELDS_def de_table_def split: if_splits)

lemma de_auth_field: "de_auth (TTable t) = Inr at \<Longrightarrow> de_field (de_table de_client) ''clients'' t = Inr (at_clients at)"
  by (auto simp: de_auth_def split: if_splits)

lemma load_auth_clients:
  assumes "load_auth cr now at = Inr cfg" and "table_walk (load_client cr now) cts = Inr clients"
  shows "load_auth cr now (at\<lparr>at_clients := Some cts\<rparr>) = Inr (cfg\<lparr>au_clients := map_of clients\<rparr>)"
  using assms by (auto simp: load_auth_def Let_def unwrap_or_def [of "Some cts"] split: sum.splits)

definition clients_table :: "toml_table \<Rightarrow> toml_table" where
  "clients_table t = (case map_of t ''clients'' of Some (TTable cs) \<Rightarrow> cs | _ \<Rightarrow> [])"

lemma loaded_clients:
  assumes "de_auth (TTable t) = Inr at" and "load_auth cr now at = Inr cfg"
  obtains clients where "table_walk (client_view cr now) (clients_table t) = Inr clients" and "au_clients cfg = map_of clients"
proof -
  from assms(2) obtain clients where
    c: "table_walk (load_client cr now) (unwrap_or (at_clients at) []) = Inr clients" "au_clients cfg = map_of clients"
    by (cases "validate_totp_parameters (unwrap_or (at_time_step at) 30) (unwrap_or (at_digits at) 6) (unwrap_or (at_window at) 1)")
      (auto simp: load_auth_def Let_def)
  have "table_walk (\<lambda>_. de_client) (clients_table t) = Inr (unwrap_or (at_clients at) [])"
    using de_auth_field [OF assms(1)]
    by (auto simp: de_field_def de_table_def clients_table_def unwrap_or_def split: option.splits toml.splits)
  with c have "table_walk (client_view cr now) (clients_table t) = Inr clients"
    by (subst walk_clients [symmetric]) simp
  with c(2) that show ?thesis by blast
qed

lemma edit_clients_view:
  assumes "auth_view cr now doc = Inr cfg" and "sub_table ''auth'' (sub_table ''clients'' edit) doc = Inr (a, doc')"
  obtains cs cs' clients where "edit cs = Inr (a, cs')" and "table_walk (client_view cr now) cs = Inr clients"
    and "au_clients cfg = map_of clients" and "\<forall>k. k \<noteq> ''auth'' \<longrightarrow> map_of doc' k = map_of doc k"
    and "\<forall>clients'. table_walk (client_view cr now) cs' = Inr clients' \<longrightarrow>
      auth_view cr now doc' = Inr (cfg\<lparr>au_clients := map_of clients'\<rparr>)"
proof -
  from assms(2) obtain t t' where t: "section_of doc = TTable t" "sub_table ''clients'' edit t = Inr (a, t')"
    "doc' = AList.update ''auth'' (TTable t') doc"
    by (auto simp: sub_table_def section_of_def split: option.splits toml.splits)
  from assms(1) t(1) obtain at where at: "de_auth (TTable t) = Inr at" "load_auth cr now at = Inr cfg"
    by (auto simp: auth_view_def)
  from t(2) obtain cs' where cs: "edit (clients_table t) = Inr (a, cs')" "t' = AList.update ''clients'' (TTable cs') t"
    by (auto simp: sub_table_def clients_table_def split: option.splits toml.splits)
  from at obtain clients where cl: "table_walk (client_view cr now) (clients_table t) = Inr clients" "au_clients cfg = map_of clients"
    by (rule loaded_clients)
  have "auth_view cr now doc' = Inr (cfg\<lparr>au_clients := map_of clients'\<rparr>)"
    if w: "table_walk (client_view cr now) cs' = Inr clients'" for clients'
  proof -
    from w obtain cts where "table_walk (\<lambda>_. de_client) cs' = Inr cts" "table_walk (load_client cr now) cts = Inr clients'"
      unfolding walk_clients [symmetric] by auto
    with at show ?thesis
      by (simp add: auth_view_def section_of_def t(3) cs(2) update_conv' de_auth_clients load_auth_clients)
  qed
  with cs(1) cl t(3) show ?thesis by (intro that) (auto simp: update_conv')
qed

lemma edit_client_view:
  assumes "auth_view cr now doc = Inr cfg" and "edit_client i edit doc = Inr (a, doc')"
  obtains t t' where "edit t = Inr (a, t')" and "\<forall>k. k \<noteq> ''auth'' \<longrightarrow> map_of doc' k = map_of doc k"
    and "case au_clients cfg i of None \<Rightarrow> t = [] | Some c \<Rightarrow> client_view cr now i (TTable t) = Inr c"
    and "\<forall>c. client_view cr now i (TTable t') = Inr c \<longrightarrow>
      auth_view cr now doc' = Inr (cfg\<lparr>au_clients := (au_clients cfg)(i \<mapsto> c)\<rparr>)"
proof -
  from edit_clients_view [OF assms(1) assms(2) [unfolded edit_client_def]] obtain cs cs' clients where
    cs: "sub_table i edit cs = Inr (a, cs')" "table_walk (client_view cr now) cs = Inr clients"
    "au_clients cfg = map_of clients" "\<forall>k. k \<noteq> ''auth'' \<longrightarrow> map_of doc' k = map_of doc k"
    and stores: "\<forall>clients'. table_walk (client_view cr now) cs' = Inr clients' \<longrightarrow>
      auth_view cr now doc' = Inr (cfg\<lparr>au_clients := map_of clients'\<rparr>)"
    by blast
  let ?t = "case map_of cs i of Some (TTable t) \<Rightarrow> t | _ \<Rightarrow> []"
  from cs(1) obtain t' where t': "edit ?t = Inr (a, t')" "cs' = AList.update i (TTable t') cs"
    by (auto simp: sub_table_def split: option.splits toml.splits)
  have look: "rel_option (\<lambda>v w. client_view cr now i v = Inr w) (map_of cs i) (au_clients cfg i)"
    using table_walk_lookup [OF cs(2)] by (simp add: cs(3))
  have "case au_clients cfg i of None \<Rightarrow> ?t = [] | Some c \<Rightarrow> client_view cr now i (TTable ?t) = Inr c"
    using look cs(1) by (auto simp: sub_table_def option_rel_Some2 split: option.splits toml.splits)
  moreover have "auth_view cr now doc' = Inr (cfg\<lparr>au_clients := (au_clients cfg)(i \<mapsto> c)\<rparr>)"
    if "client_view cr now i (TTable t') = Inr c" for c
    using stores table_walk_update [of "client_view cr now", OF cs(2) that] by (simp add: t'(2) cs(3) update_conv')
  ultimately show ?thesis using that t'(1) cs(4) by blast
qed


section \<open>Edits of one client\<close>

lemma de_client_field: "de_client (TTable t) = Inr ct \<Longrightarrow> de_field (de_table de_device) ''devices'' t = Inr (ct_devices ct)"
  by (auto simp: de_client_def split: if_splits)

lemma de_client_edits:
  assumes "de_client (TTable t) = Inr ct"
  shows "de_client (TTable (AList.update ''secret'' (TString s) t)) = Inr (ct\<lparr>ct_secret := s\<rparr>)"
    and "de_client (TTable (AList.update ''pending_enrollment'' (TString s) t)) = Inr (ct\<lparr>ct_pending_enrollment := Some s\<rparr>)"
    and "de_client (TTable (AList.delete ''pending_enrollment'' t)) = Inr (ct\<lparr>ct_pending_enrollment := None\<rparr>)"
    and "table_walk (\<lambda>_. de_device) ds = Inr dts \<Longrightarrow>
      de_client (TTable (AList.update ''devices'' (TTable ds) t)) = Inr (ct\<lparr>ct_devices := Some dts\<rparr>)"
  using assms by (auto simp: de_client_def CLIENT_FIELDS_def de_table_def split: if_splits)

lemma load_client_edits:
  assumes "load_client cr now i ct = Inr c"
  shows "load_client cr now i (ct\<lparr>ct_secret := s\<rparr>) = Inr (c\<lparr>ca_secret := s\<rparr>)"
    and "s \<noteq> [] \<Longrightarrow> load_client cr now i (ct\<lparr>ct_pending_enrollment := Some s\<rparr>) = Inr (c\<lparr>ca_pending_enrollment := Some s\<rparr>)"
    and "load_client cr now i (ct\<lparr>ct_pending_enrollment := None\<rparr>) = Inr (c\<lparr>ca_pending_enrollment := None\<rparr>)"
    and "table_walk (load_device cr now i) dts = Inr devs \<Longrightarrow>
      load_client cr now i (ct\<lparr>ct_devices := Some dts\<rparr>) = Inr (c\<lparr>ca_devices := map_of devs\<rparr>)"
  using assms by (auto simp: load_client_def unwrap_or_def [of "Some dts"] split: if_splits)

lemma client_view_edits:
  assumes "client_view cr now i (TTable t) = Inr c"
  shows "client_view cr now i (TTable (AList.update ''secret'' (TString s) t)) = Inr (c\<lparr>ca_secret := s\<rparr>)"
    and "s \<noteq> [] \<Longrightarrow> client_view cr now i (TTable (AList.update ''pending_enrollment'' (TString s) t)) =
      Inr (c\<lparr>ca_pending_enrollment := Some s\<rparr>)"
    and "client_view cr now i (TTable (AList.delete ''pending_enrollment'' t)) = Inr (c\<lparr>ca_pending_enrollment := None\<rparr>)"
    and "table_walk (device_view cr now i) ds = Inr devs \<Longrightarrow>
      client_view cr now i (TTable (AList.update ''devices'' (TTable ds) t)) = Inr (c\<lparr>ca_devices := map_of devs\<rparr>)"
proof -
  from assms obtain ct where ct: "de_client (TTable t) = Inr ct" "load_client cr now i ct = Inr c"
    by (auto simp: client_view_def)
  show "client_view cr now i (TTable (AList.update ''secret'' (TString s) t)) = Inr (c\<lparr>ca_secret := s\<rparr>)"
    "s \<noteq> [] \<Longrightarrow> client_view cr now i (TTable (AList.update ''pending_enrollment'' (TString s) t)) =
      Inr (c\<lparr>ca_pending_enrollment := Some s\<rparr>)"
    "client_view cr now i (TTable (AList.delete ''pending_enrollment'' t)) = Inr (c\<lparr>ca_pending_enrollment := None\<rparr>)"
    by (simp_all add: client_view_def de_client_edits [OF ct(1)] load_client_edits [OF ct(2)])
  assume "table_walk (device_view cr now i) ds = Inr devs"
  then obtain dts where "table_walk (\<lambda>_. de_device) ds = Inr dts" "table_walk (load_device cr now i) dts = Inr devs"
    unfolding walk_devices [symmetric] by auto
  then show "client_view cr now i (TTable (AList.update ''devices'' (TTable ds) t)) = Inr (c\<lparr>ca_devices := map_of devs\<rparr>)"
    by (simp add: client_view_def de_client_edits(4) [OF ct(1)] load_client_edits(4) [OF ct(2)])
qed

definition devices_table :: "toml_table \<Rightarrow> toml_table" where
  "devices_table t = (case map_of t ''devices'' of Some (TTable ds) \<Rightarrow> ds | _ \<Rightarrow> [])"

lemma loaded_devices:
  assumes "client_view cr now i (TTable t) = Inr c"
  obtains devs where "table_walk (device_view cr now i) (devices_table t) = Inr devs" and "ca_devices c = map_of devs"
proof -
  from assms obtain ct where ct: "de_client (TTable t) = Inr ct" "load_client cr now i ct = Inr c"
    by (auto simp: client_view_def)
  from ct(2) obtain devs where d: "table_walk (load_device cr now i) (unwrap_or (ct_devices ct) []) = Inr devs"
    "ca_devices c = map_of devs"
    by (auto simp: load_client_def split: if_splits)
  have "table_walk (\<lambda>_. de_device) (devices_table t) = Inr (unwrap_or (ct_devices ct) [])"
    using de_client_field [OF ct(1)]
    by (auto simp: de_field_def de_table_def devices_table_def unwrap_or_def split: option.splits toml.splits)
  with d have "table_walk (device_view cr now i) (devices_table t) = Inr devs"
    by (subst walk_devices [symmetric]) simp
  with d(2) that show ?thesis by blast
qed

definition new_client :: "u64 \<Rightarrow> string \<Rightarrow> client_auth" where
  "new_client now secret =
     \<lparr>ca_secret = secret, ca_created_at = default_created_at now, ca_allow_hosts = None, ca_allow_ports = None,
      ca_allow_ports_strict = False, ca_pending_enrollment = None, ca_devices = Map.empty,
      ca_unnamed_device_allowed = True, ca_last_used = None, ca_last_used_step = None, ca_failed_attempts = 0,
      ca_locked_until = None, ca_enrollment_failed_attempts = 0, ca_enrollment_locked_until = None\<rparr>"

lemma new_client_view: "client_view cr now i (TTable [(''secret'', TString s)]) = Inr (new_client now s)"
  by (simp add: client_view_def de_client_def known_fields_def CLIENT_FIELDS_def de_field_def load_client_def
      check_allow_hosts_def unwrap_or_def new_client_def)

text \<open>The hex library writes digits that it reads back, with nothing around them to trim.\<close>

definition hex_round_trips :: "crypto \<Rightarrow> bool" where
  "hex_round_trips cr \<longleftrightarrow> (\<forall>bs. hex_decode cr (str_trim (hex_encode cr bs)) = Some bs)"

definition canonical_key :: "crypto \<Rightarrow> string \<Rightarrow> string" where
  "canonical_key cr spelled = (case parse_public_key cr spelled of Inr key \<Rightarrow> public_key_hex cr key | Inl _ \<Rightarrow> spelled)"

definition issued_device :: "crypto \<Rightarrow> u64 \<Rightarrow> device_credential \<Rightarrow> device_auth" where
  "issued_device cr now credential =
     (case credential of
        CredSecret secret \<Rightarrow>
          \<lparr>da_secret = secret, da_public_key = None, da_created_at = default_created_at now, da_last_used = None,
           da_last_used_step = None\<rparr>
      | CredPublicKey key \<Rightarrow>
          \<lparr>da_secret = [], da_public_key = Some (canonical_key cr key), da_created_at = default_created_at now,
           da_last_used = None, da_last_used_step = None\<rparr>)"

lemma parse_canonical:
  assumes "hex_round_trips cr" and "parse_public_key cr spelled = Inr key"
  shows "parse_public_key cr (public_key_hex cr key) = Inr key"
  using assms by (auto simp: hex_round_trips_def parse_public_key_def public_key_hex_def Let_def split: option.splits if_splits)

lemma device_entry_view:
  assumes "hex_round_trips cr" and "device_entry cr made credential = Inr entry" and "is_presentable_device_id d" and "d \<noteq> []"
  shows "device_view cr now i d entry = Inr (issued_device cr made credential)"
proof (cases credential)
  case (CredSecret secret)
  then show ?thesis
    using assms by (auto simp: device_entry_def device_view_def de_device_def known_fields_def de_field_def load_device_def
        issued_device_def unwrap_or_def split: if_splits)
next
  case (CredPublicKey spelled)
  then obtain key where key: "parse_public_key cr spelled = Inr key"
    using assms(2) by (cases "parse_public_key cr spelled") (auto simp: device_entry_def)
  then have "parse_public_key cr (public_key_hex cr key) = Inr key" using assms(1) parse_canonical by blast
  with key show ?thesis
    using CredPublicKey assms by (auto simp: device_entry_def device_view_def de_device_def known_fields_def de_field_def
        load_device_def issued_device_def canonical_key_def unwrap_or_def split: if_splits)
qed

lemma device_table_view:
  assumes "client_view cr now i (TTable t) = Inr c" and "device_table i edit t = Inr (a, t')"
  obtains ds ds' devs where "edit ds = Inr (a, ds')" and "table_walk (device_view cr now i) ds = Inr devs"
    and "ca_devices c = map_of devs"
    and "\<forall>devs'. table_walk (device_view cr now i) ds' = Inr devs' \<longrightarrow>
      client_view cr now i (TTable t') = Inr (c\<lparr>ca_devices := map_of devs'\<rparr>)"
proof -
  from assms(2) obtain ds' where ds: "edit (devices_table t) = Inr (a, ds')" "t' = AList.update ''devices'' (TTable ds') t"
    by (auto simp: device_table_def devices_table_def split: option.splits toml.splits)
  from assms(1) obtain devs where "table_walk (device_view cr now i) (devices_table t) = Inr devs" "ca_devices c = map_of devs"
    by (rule loaded_devices)
  with ds that show ?thesis using client_view_edits(4) [OF assms(1)] by blast
qed


section \<open>What an edit means for the credentials\<close>

text \<open>
  The edits of the document as one type, and the contract of each: what it does to the table of clients that the
  document stands for. \<open>made\<close> is the moment of the edit, \<open>now\<close> the moment the document is read.
\<close>

datatype credential_edit =
    SetSecret string string bool
  | SetToken string string
  | SpendForClient string string
  | SpendForDevice string string device_credential
  | SetDevice string string device_credential bool
  | DropDevice string string
  | DropClient string

fun run_edit :: "crypto \<Rightarrow> u64 \<Rightarrow> credential_edit \<Rightarrow> toml_table \<Rightarrow> store_error + toml_table" where
  "run_edit cr made (SetSecret i secret force) doc = map_sum id snd (client_secret_edit i secret force doc)"
| "run_edit cr made (SetToken i token) doc = map_sum id snd (pending_enrollment_edit i token doc)"
| "run_edit cr made (SpendForClient i secret) doc = map_sum id snd (enrollment_edit i secret doc)"
| "run_edit cr made (SpendForDevice i d credential) doc = map_sum id snd (device_enrollment_edit cr made i d credential doc)"
| "run_edit cr made (SetDevice i d credential force) doc =
     (if \<not> is_presentable_device_id d then Inl (DeviceNameRefused d)
      else map_sum id snd (device_credential_edit cr made i d credential force doc))"
| "run_edit cr made (DropDevice i d) doc = map_sum id snd (remove_device_edit i d doc)"
| "run_edit cr made (DropClient i) doc = map_sum id snd (remove_client_edit i doc)"

fun edited :: "crypto \<Rightarrow> u64 \<Rightarrow> u64 \<Rightarrow> credential_edit \<Rightarrow> (string \<rightharpoonup> client_auth) \<Rightarrow> (string \<rightharpoonup> client_auth)" where
  "edited cr made now (SetSecret i secret force) clients =
     clients(i \<mapsto> (case clients i of None \<Rightarrow> new_client now secret | Some c \<Rightarrow> c\<lparr>ca_secret := secret\<rparr>))"
| "edited cr made now (SetToken i token) clients = map_entry i (\<lambda>c. c\<lparr>ca_pending_enrollment := Some token\<rparr>) clients"
| "edited cr made now (SpendForClient i secret) clients =
     clients(i \<mapsto> (case clients i of
        None \<Rightarrow> new_client now secret
      | Some c \<Rightarrow> c\<lparr>ca_secret := secret, ca_pending_enrollment := None\<rparr>))"
| "edited cr made now (SpendForDevice i d credential) clients =
     map_entry i (\<lambda>c. c\<lparr>ca_devices := (ca_devices c)(d \<mapsto> issued_device cr made credential),
       ca_pending_enrollment := None\<rparr>) clients"
| "edited cr made now (SetDevice i d credential force) clients =
     map_entry i (\<lambda>c. c\<lparr>ca_devices := (ca_devices c)(d \<mapsto> issued_device cr made credential)\<rparr>) clients"
| "edited cr made now (DropDevice i d) clients = map_entry i (\<lambda>c. c\<lparr>ca_devices := (ca_devices c)(d := None)\<rparr>) clients"
| "edited cr made now (DropClient i) clients = clients(i := None)"

text \<open>
  What the callers of two edits see to: a token is not empty, and the token of a device is spent for a client that is
  on file, under a presentable name.
\<close>

fun edit_applies :: "(string \<rightharpoonup> client_auth) \<Rightarrow> credential_edit \<Rightarrow> bool" where
  "edit_applies clients (SetToken i token) \<longleftrightarrow> token \<noteq> []"
| "edit_applies clients (SpendForDevice i d credential) \<longleftrightarrow> clients i \<noteq> None \<and> is_presentable_device_id d"
| "edit_applies clients e \<longleftrightarrow> True"

lemma presentable_nonempty: "is_presentable_device_id d \<Longrightarrow> d \<noteq> []"
  by (auto simp: is_presentable_device_id_def is_presentable_id_def)

lemma existing_table_sub:
  assumes "existing_table k missing e p = Inr r" and "\<And>t r. e t = Inr r \<Longrightarrow> e' t = Inr r"
  shows "sub_table k e' p = Inr r"
  using assms by (auto simp: existing_table_def sub_table_def split: option.splits toml.splits)

lemma existing_devices:
  "existing_table ''devices'' missing e t = Inr r \<Longrightarrow> device_table i e t = Inr r"
  by (auto simp: existing_table_def device_table_def split: option.splits toml.splits)

lemma map_sum_Inr: "map_sum id snd x = Inr d \<longleftrightarrow> (\<exists>a. x = Inr (a, d))"
  by (cases x) auto

lemma put_device_view:
  assumes "hex_round_trips cr" and "client_view cr now i (TTable t) = Inr c" and "is_presentable_device_id d"
    and "device_table i (\<lambda>devices. rbind (device_entry cr made credential) (\<lambda>entry.
      Inr (f devices, AList.update d entry devices))) t = Inr (a, t')"
  shows "client_view cr now i (TTable t') =
    Inr (c\<lparr>ca_devices := (ca_devices c)(d \<mapsto> issued_device cr made credential)\<rparr>)"
proof -
  from device_table_view [OF assms(2, 4)] obtain ds ds' devs where
    "rbind (device_entry cr made credential) (\<lambda>entry. Inr (f ds, AList.update d entry ds)) = Inr (a, ds')"
    and walk: "table_walk (device_view cr now i) ds = Inr devs" "ca_devices c = map_of devs"
    and stores: "\<forall>devs'. table_walk (device_view cr now i) ds' = Inr devs' \<longrightarrow>
      client_view cr now i (TTable t') = Inr (c\<lparr>ca_devices := map_of devs'\<rparr>)" by blast
  then obtain entry where "device_entry cr made credential = Inr entry" "ds' = AList.update d entry ds" by auto
  then show ?thesis
    using stores table_walk_update [OF walk(1), of d entry] device_entry_view [OF assms(1)] assms(3) presentable_nonempty walk(2)
    by (simp add: update_conv')
qed

lemma client_edit_refines:
  assumes "auth_view cr now doc = Inr cfg" and "edit_client i edit doc = Inr (a, doc')"
    and "\<And>t t'. edit t = Inr (a, t') \<Longrightarrow> (case au_clients cfg i of None \<Rightarrow> t = [] | Some c \<Rightarrow> client_view cr now i (TTable t) = Inr c) \<Longrightarrow>
      client_view cr now i (TTable t') = Inr c'"
  shows "auth_view cr now doc' = Inr (cfg\<lparr>au_clients := (au_clients cfg)(i \<mapsto> c')\<rparr>) \<and>
    (\<forall>k. k \<noteq> ''auth'' \<longrightarrow> map_of doc' k = map_of doc k)"
  using edit_client_view [OF assms(1, 2)] assms(3) by metis


lemma secret_edit_refines:
  assumes "auth_view cr now doc = Inr cfg" and "client_secret_edit i secret force doc = Inr (a, doc')"
  shows "auth_view cr now doc' = Inr (cfg\<lparr>au_clients := edited cr made now (SetSecret i secret force) (au_clients cfg)\<rparr>) \<and>
    (\<forall>k. k \<noteq> ''auth'' \<longrightarrow> map_of doc' k = map_of doc k)"
  unfolding edited.simps
  by (rule client_edit_refines [OF assms(1) assms(2) [unfolded client_secret_edit_def]])
    (auto simp: Let_def client_view_edits new_client_view split: if_splits option.splits)

lemma token_edit_refines:
  assumes "auth_view cr now doc = Inr cfg" and "pending_enrollment_edit i token doc = Inr (a, doc')" and "token \<noteq> []"
  shows "auth_view cr now doc' = Inr (cfg\<lparr>au_clients := edited cr made now (SetToken i token) (au_clients cfg)\<rparr>) \<and>
    (\<forall>k. k \<noteq> ''auth'' \<longrightarrow> map_of doc' k = map_of doc k)"
proof -
  have "\<exists>c. au_clients cfg i = Some c"
    by (rule edit_client_view [OF assms(1) assms(2) [unfolded pending_enrollment_edit_def]]) (auto split: if_splits option.splits)
  then obtain c where c: "au_clients cfg i = Some c" ..
  have "edited cr made now (SetToken i token) (au_clients cfg) = (au_clients cfg)(i \<mapsto> c\<lparr>ca_pending_enrollment := Some token\<rparr>)"
    using c by simp
  moreover have "client_view cr now i (TTable t') = Inr (c\<lparr>ca_pending_enrollment := Some token\<rparr>)"
    if "(if map_of t ''secret'' = None then Inl (ClientWithoutSecret i)
        else Inr ((), AList.update ''pending_enrollment'' (TString token) t)) = Inr (a, t')"
      and "client_view cr now i (TTable t) = Inr c" for t t'
    using that assms(3) by (auto simp: client_view_edits split: if_splits)
  ultimately show ?thesis
    using client_edit_refines [OF assms(1) assms(2) [unfolded pending_enrollment_edit_def],
        where c' = "c\<lparr>ca_pending_enrollment := Some token\<rparr>"] c by simp
qed

lemma spend_client_refines:
  assumes "auth_view cr now doc = Inr cfg" and "enrollment_edit i secret doc = Inr (a, doc')"
  shows "auth_view cr now doc' = Inr (cfg\<lparr>au_clients := edited cr made now (SpendForClient i secret) (au_clients cfg)\<rparr>) \<and>
    (\<forall>k. k \<noteq> ''auth'' \<longrightarrow> map_of doc' k = map_of doc k)"
  unfolding edited.simps
  by (rule client_edit_refines [OF assms(1) assms(2) [unfolded enrollment_edit_def]])
    (auto simp: client_view_edits new_client_view split: option.splits)

lemma spend_device_refines:
  assumes "hex_round_trips cr" and "auth_view cr now doc = Inr cfg"
    and "device_enrollment_edit cr made i d credential doc = Inr (a, doc')"
    and "au_clients cfg i = Some c" and "is_presentable_device_id d"
  shows "auth_view cr now doc' = Inr (cfg\<lparr>au_clients := edited cr made now (SpendForDevice i d credential) (au_clients cfg)\<rparr>) \<and>
    (\<forall>k. k \<noteq> ''auth'' \<longrightarrow> map_of doc' k = map_of doc k)"
proof -
  let ?c = "c\<lparr>ca_devices := (ca_devices c)(d \<mapsto> issued_device cr made credential), ca_pending_enrollment := None\<rparr>"
  have "client_view cr now i (TTable t') = Inr ?c"
    if "rbind (device_table i (\<lambda>devices. rbind (device_entry cr made credential) (\<lambda>entry.
          Inr ((), AList.update d entry devices))) t) (\<lambda>(u, client). Inr (u, AList.delete ''pending_enrollment'' client)) = Inr (a, t')"
      and "client_view cr now i (TTable t) = Inr c" for t t'
    using that put_device_view [OF assms(1) that(2) assms(5), where f = "\<lambda>_. ()"] client_view_edits(3) by fastforce
  then show ?thesis
    using client_edit_refines [OF assms(2) assms(3) [unfolded device_enrollment_edit_def], where c' = ?c] assms(4) by simp
qed

lemma set_device_refines:
  assumes "hex_round_trips cr" and "auth_view cr now doc = Inr cfg"
    and "device_credential_edit cr made i d credential force doc = Inr (a, doc')" and "is_presentable_device_id d"
  shows "auth_view cr now doc' = Inr (cfg\<lparr>au_clients := edited cr made now (SetDevice i d credential force) (au_clients cfg)\<rparr>) \<and>
    (\<forall>k. k \<noteq> ''auth'' \<longrightarrow> map_of doc' k = map_of doc k)"
proof -
  let ?edit = "\<lambda>client. if map_of client ''secret'' = None then Inl (ClientWithoutSecret i)
       else device_table i (\<lambda>devices.
           let replaced = (map_of devices d \<noteq> None) in
           if replaced \<and> \<not> force then Inl (DeviceHasCredential i d)
           else rbind (device_entry cr made credential) (\<lambda>entry.
               Inr (if replaced then Replaced else Added, AList.update d entry devices))) client"
  note run = assms(3) [unfolded device_credential_edit_def]
  have "\<exists>c. au_clients cfg i = Some c"
    by (rule edit_client_view [OF assms(2) run]) (auto split: if_splits option.splits)
  then obtain c where c: "au_clients cfg i = Some c" ..
  let ?c = "c\<lparr>ca_devices := (ca_devices c)(d \<mapsto> issued_device cr made credential)\<rparr>"
  have "client_view cr now i (TTable t') = Inr ?c"
    if "?edit t = Inr (a, t')" and "client_view cr now i (TTable t) = Inr c" for t t'
  proof -
    have "device_table i (\<lambda>devices. rbind (device_entry cr made credential) (\<lambda>entry.
        Inr (if map_of devices d \<noteq> None then Replaced else Added, AList.update d entry devices))) t = Inr (a, t')"
      using that(1) by (auto simp: device_table_def Let_def split: if_splits option.splits toml.splits)
    then show ?thesis by (rule put_device_view [OF assms(1) that(2) assms(4)])
  qed
  then show ?thesis using client_edit_refines [OF assms(2) run, where c' = ?c] c by simp
qed

lemma drop_device_refines:
  assumes "auth_view cr now doc = Inr cfg" and "remove_device_edit i d doc = Inr (a, doc')"
  shows "auth_view cr now doc' = Inr (cfg\<lparr>au_clients := edited cr made now (DropDevice i d) (au_clients cfg)\<rparr>) \<and>
    (\<forall>k. k \<noteq> ''auth'' \<longrightarrow> map_of doc' k = map_of doc k)"
proof -
  let ?drop = "\<lambda>devices. if map_of devices d = None then Inl (NoSuchDevice i d (device_names devices))
            else Inr ((), AList.delete d devices)"
  have run: "edit_client i (device_table i ?drop) doc = Inr (a, doc')"
    unfolding edit_client_def
    by (rule existing_table_sub [OF assms(2) [unfolded remove_device_edit_def auth_clients_def]], erule existing_table_sub,
        erule existing_table_sub, erule existing_devices)
  have "\<exists>c. au_clients cfg i = Some c"
    by (rule edit_client_view [OF assms(1) run]) (auto simp: device_table_def split: option.splits)
  then obtain c where c: "au_clients cfg i = Some c" ..
  let ?c = "c\<lparr>ca_devices := (ca_devices c)(d := None)\<rparr>"
  have "client_view cr now i (TTable t') = Inr ?c"
    if t: "device_table i ?drop t = Inr (a, t')" "client_view cr now i (TTable t) = Inr c" for t t'
  proof -
    from device_table_view [OF t(2, 1)] obtain ds ds' devs where ds: "?drop ds = Inr (a, ds')"
      and walk: "table_walk (device_view cr now i) ds = Inr devs" "ca_devices c = map_of devs"
      and stores: "\<forall>devs'. table_walk (device_view cr now i) ds' = Inr devs' \<longrightarrow>
        client_view cr now i (TTable t') = Inr (c\<lparr>ca_devices := map_of devs'\<rparr>)" by blast
    from ds have "ds' = AList.delete d ds" by (auto split: if_splits)
    then show ?thesis using stores table_walk_delete [OF walk(1), of d] by (simp add: walk(2) delete_conv')
  qed
  then show ?thesis using client_edit_refines [OF assms(1) run, where c' = ?c] c by simp
qed

lemma drop_client_refines:
  assumes "auth_view cr now doc = Inr cfg" and "remove_client_edit i doc = Inr (a, doc')"
  shows "auth_view cr now doc' = Inr (cfg\<lparr>au_clients := edited cr made now (DropClient i) (au_clients cfg)\<rparr>) \<and>
    (\<forall>k. k \<noteq> ''auth'' \<longrightarrow> map_of doc' k = map_of doc k)"
proof -
  let ?drop = "\<lambda>clients. if map_of clients i = None then Inl (NoClientSection i) else Inr ((), AList.delete i clients)"
  have run: "sub_table ''auth'' (sub_table ''clients'' ?drop) doc = Inr (a, doc')"
    by (rule existing_table_sub [OF assms(2) [unfolded remove_client_edit_def auth_clients_def]], erule existing_table_sub)
  from edit_clients_view [OF assms(1) run] obtain cs cs' clients where
    cs: "?drop cs = Inr (a, cs')" "table_walk (client_view cr now) cs = Inr clients"
    "au_clients cfg = map_of clients" "\<forall>k. k \<noteq> ''auth'' \<longrightarrow> map_of doc' k = map_of doc k"
    and stores: "\<forall>clients'. table_walk (client_view cr now) cs' = Inr clients' \<longrightarrow>
      auth_view cr now doc' = Inr (cfg\<lparr>au_clients := map_of clients'\<rparr>)" by blast
  from cs(1) have "cs' = AList.delete i cs" by (auto split: if_splits)
  then show ?thesis using stores table_walk_delete [OF cs(2), of i] cs(3, 4) by (simp add: delete_conv')
qed

lemma edits_refined:
  assumes "hex_round_trips cr" and "auth_view cr now doc = Inr cfg" and "run_edit cr made e doc = Inr doc'"
    and "edit_applies (au_clients cfg) e"
  shows "auth_view cr now doc' = Inr (cfg\<lparr>au_clients := edited cr made now e (au_clients cfg)\<rparr>) \<and>
    (\<forall>k. k \<noteq> ''auth'' \<longrightarrow> map_of doc' k = map_of doc k)"
proof (cases e)
  case (SetSecret i secret force)
  with assms(3) obtain a where "client_secret_edit i secret force doc = Inr (a, doc')" by (auto simp: map_sum_Inr)
  then show ?thesis unfolding SetSecret by (rule secret_edit_refines [OF assms(2)])
next
  case (SetToken i token)
  with assms(3, 4) obtain a where "pending_enrollment_edit i token doc = Inr (a, doc')" "token \<noteq> []" by (auto simp: map_sum_Inr)
  then show ?thesis unfolding SetToken by (rule token_edit_refines [OF assms(2)])
next
  case (SpendForClient i secret)
  with assms(3) obtain a where "enrollment_edit i secret doc = Inr (a, doc')" by (auto simp: map_sum_Inr)
  then show ?thesis unfolding SpendForClient by (rule spend_client_refines [OF assms(2)])
next
  case (SpendForDevice i d credential)
  with assms(3, 4) obtain c a where "device_enrollment_edit cr made i d credential doc = Inr (a, doc')"
    "au_clients cfg i = Some c" "is_presentable_device_id d"
    by (auto simp: map_sum_Inr)
  then show ?thesis unfolding SpendForDevice by (rule spend_device_refines [OF assms(1, 2)])
next
  case (SetDevice i d credential force)
  with assms(3) obtain a where "device_credential_edit cr made i d credential force doc = Inr (a, doc')"
    "is_presentable_device_id d"
    by (auto simp: map_sum_Inr split: if_splits)
  then show ?thesis unfolding SetDevice by (rule set_device_refines [OF assms(1, 2)])
next
  case (DropDevice i d)
  with assms(3) obtain a where "remove_device_edit i d doc = Inr (a, doc')" by (auto simp: map_sum_Inr)
  then show ?thesis unfolding DropDevice by (rule drop_device_refines [OF assms(2)])
next
  case (DropClient i)
  with assms(3) obtain a where "remove_client_edit i doc = Inr (a, doc')" by (auto simp: map_sum_Inr)
  then show ?thesis unfolding DropClient by (rule drop_client_refines [OF assms(2)])
qed



lemma trim_start_seqs_id: "(\<And>w. w \<in> set ws \<Longrightarrow> hd w \<notin> set s) \<Longrightarrow> trim_start_seqs ws s = s"
proof -
  assume "\<And>w. w \<in> set ws \<Longrightarrow> hd w \<notin> set s"
  then have "\<not> (w \<noteq> [] \<and> starts_with w s)" if "w \<in> set ws" for w
    using that by (cases w; cases s) (fastforce simp: starts_with_iff)+
  then have "List.find (\<lambda>w. w \<noteq> [] \<and> starts_with w s) ws = None" by (simp add: find_None_iff)
  then show ?thesis by (subst trim_start_seqs.simps) simp
qed

definition HEX_DIGITS :: string where "HEX_DIGITS = ''0123456789abcdef''"

lemma str_trim_hex:
  assumes "set s \<subseteq> set HEX_DIGITS"
  shows "str_trim s = s"
proof -
  have "list_all (\<lambda>w. hd w \<notin> set HEX_DIGITS \<and> last w \<notin> set HEX_DIGITS \<and> w \<noteq> []) white_space"
    by (simp add: white_space_def HEX_DIGITS_def)
  then have ends: "hd w \<notin> set HEX_DIGITS" "hd (rev w) \<notin> set HEX_DIGITS" if "w \<in> set white_space" for w
    using that by (auto simp: list_all_iff hd_rev)
  have "trim_start_seqs white_space s = s"
    by (rule trim_start_seqs_id) (use assms ends in blast)
  moreover have "trim_start_seqs (map rev white_space) (rev s) = rev s"
    by (rule trim_start_seqs_id) (use assms ends in auto)
  ultimately show ?thesis by (simp add: str_trim_def)
qed

definition hex_of :: "bytes \<Rightarrow> string" where
  "hex_of bs = concat (map (\<lambda>b. [HEX_DIGITS ! (unat b div 16), HEX_DIGITS ! (unat b mod 16)]) bs)"

fun of_hex :: "string \<Rightarrow> bytes option" where
  "of_hex [] = Some []"
| "of_hex [_] = None"
| "of_hex (a # b # s) =
     (case (find_char a HEX_DIGITS, find_char b HEX_DIGITS, of_hex s) of
        (Some h, Some l, Some bs) \<Rightarrow> Some (of_nat (16 * h + l) # bs)
      | _ \<Rightarrow> None)"

lemma find_digit: "n < 16 \<Longrightarrow> find_char (HEX_DIGITS ! n) HEX_DIGITS = Some n"
proof -
  assume n: "n < 16"
  have "distinct HEX_DIGITS" "length HEX_DIGITS = 16" by (simp_all add: HEX_DIGITS_def)
  then show ?thesis
    using n by (auto simp: find_char_Some in_set_conv_nth nth_eq_iff_index_eq)
qed

lemma byte_halves: "unat (b :: 8 word) div 16 < 16" "unat (b :: 8 word) mod 16 < 16" "of_nat (16 * (unat b div 16) + unat b mod 16) = b"
proof -
  have "unat b < 256" using unsigned_less [of b] by simp
  then show "unat b div 16 < 16" by simp
  show "unat b mod 16 < 16" by simp
  have "16 * (unat b div 16) + unat b mod 16 = unat b" by simp
  then show "of_nat (16 * (unat b div 16) + unat b mod 16) = b" by (simp only:) simp
qed

lemma of_hex_of: "of_hex (hex_of bs) = Some bs"
  by (induction bs) (simp_all add: hex_of_def find_digit byte_halves)

lemma set_hex_of: "set (hex_of bs) \<subseteq> set HEX_DIGITS"
proof -
  have "length HEX_DIGITS = 16" by (simp add: HEX_DIGITS_def)
  then show ?thesis using byte_halves nth_mem [of _ HEX_DIGITS] by (auto simp: hex_of_def)
qed

definition hex_crypto :: crypto where
  "hex_crypto = sample_crypto\<lparr>hex_encode := hex_of, hex_decode := of_hex\<rparr>"

lemma hex_crypto_round_trips: "hex_round_trips hex_crypto"
  by (simp add: hex_round_trips_def hex_crypto_def str_trim_hex set_hex_of of_hex_of)

definition sample_doc :: toml_table where
  "sample_doc =
     [(''routes'', TArray []),
      (''auth'', TTable [(''enabled'', TBoolean True), (''digits'', TInteger 8),
         (''clients'', TTable [(''alice'', TTable [(''secret'', TString ''JBSW''), (''pending_enrollment'', TString ''tok''),
            (''allow_hosts'', TArray [TString ''app.example.com''])])])])]"

definition sample_stored :: client_auth where
  "sample_stored = (new_client 5 ''JBSW'')\<lparr>ca_pending_enrollment := Some ''tok'', ca_allow_hosts := Some [''app.example.com'']\<rparr>"

definition sample_loaded :: auth_config where
  "sample_loaded = auth_config_default\<lparr>au_enabled := True, au_digits := 8, au_clients := [''alice'' \<mapsto> sample_stored]\<rparr>"

lemmas view_eval = auth_view_def section_of_def de_auth_def known_fields_def AUTH_FIELDS_def de_field_def de_table_def
  de_client_def CLIENT_FIELDS_def de_list_def de_word_def de_string_def de_bool_def load_auth_def load_client_def
  check_allow_hosts_def unwrap_or_def load_algorithm_def validate_totp_parameters_def

lemma sample_host: "pattern_error ''app.example.com'' = None"
  by code_simp

lemma sample_doc_view: "auth_view hex_crypto 5 sample_doc = Inr sample_loaded"
  by (simp add: view_eval sample_doc_def sample_loaded_def sample_stored_def new_client_def auth_config_default_def
      sample_host Let_def)

definition sample_spent :: toml_table where
  "sample_spent =
     [(''routes'', TArray []),
      (''auth'', TTable [(''enabled'', TBoolean True), (''digits'', TInteger 8),
         (''clients'', TTable [(''alice'', TTable [(''secret'', TString ''JBSW''),
            (''allow_hosts'', TArray [TString ''app.example.com'']),
            (''devices'', TTable [(''phone'', TTable [(''secret'', TString ''ABCD''), (''created_at'', TString ''7'')])])])])])]"

lemma show_7: "show_nat 7 = ''7''"
  by code_simp

lemma sample_spend: "run_edit hex_crypto 7 (SpendForDevice ''alice'' ''phone'' (CredSecret ''ABCD'')) sample_doc = Inr sample_spent"
  by (simp add: sample_doc_def sample_spent_def device_enrollment_edit_def edit_client_def sub_table_def device_table_def
      device_entry_def default_created_at_def show_7)

lemma sample_name: "is_presentable_device_id ''phone''"
  by code_simp


section \<open>What a loaded configuration can be\<close>

definition device_sound :: "crypto \<Rightarrow> string \<Rightarrow> device_auth \<Rightarrow> bool" where
  "device_sound cr name d \<longleftrightarrow>
     is_presentable_device_id name \<and>
     (case da_public_key d of None \<Rightarrow> da_secret d \<noteq> [] | Some key \<Rightarrow> da_secret d = [] \<and> \<not> isl (parse_public_key cr key))"

definition client_sound :: "crypto \<Rightarrow> client_auth \<Rightarrow> bool" where
  "client_sound cr c \<longleftrightarrow>
     ca_pending_enrollment c \<noteq> Some [] \<and>
     (\<forall>hosts host. ca_allow_hosts c = Some hosts \<and> host \<in> set hosts \<longrightarrow> pattern_error host = None) \<and>
     (\<forall>ports. ca_allow_ports c = Some ports \<longrightarrow> 0 \<notin> set ports) \<and>
     (\<forall>name d. ca_devices c name = Some d \<longrightarrow> device_sound cr name d)"

definition auth_sound :: "crypto \<Rightarrow> auth_config \<Rightarrow> bool" where
  "auth_sound cr cfg \<longleftrightarrow>
     au_time_step cfg \<noteq> 0 \<and> 6 \<le> au_digits cfg \<and> au_digits cfg \<le> 8 \<and> au_window cfg \<le> 255 \<and>
     (\<forall>i c. au_clients cfg i = Some c \<longrightarrow> client_sound cr c)"

lemma load_device_sound: "load_device cr now i name dt = Inr d \<Longrightarrow> device_sound cr name d"
  by (auto simp: load_device_def device_sound_def unwrap_or_def Let_def split: if_splits option.splits sum.splits bind_splits)

lemma check_allow_hosts_sound: "check_allow_hosts i hosts = Inr u \<Longrightarrow> hosts = Some hs \<Longrightarrow> h \<in> set hs \<Longrightarrow> pattern_error h = None"
  by (auto simp: check_allow_hosts_def unwrap_or_def find_None_iff split: option.splits)

lemma walk_all:
  assumes "table_walk f xs = Inr ys" and "map_of ys k = Some w" and "\<And>v. f k v = Inr w \<Longrightarrow> P w"
  shows "P w"
  using table_walk_lookup [OF assms(1), of k] assms(2, 3) by (auto simp: option_rel_Some2)

lemma load_client_sound:
  assumes "load_client cr now i ct = Inr c"
  shows "client_sound cr c"
proof -
  from assms obtain devs where c: "ca_pending_enrollment c = ct_pending_enrollment ct" "ca_allow_hosts c = ct_allow_hosts ct"
    "ca_allow_ports c = ct_allow_ports ct" "ca_devices c = map_of devs"
    and checks: "ct_pending_enrollment ct \<noteq> Some []" "check_allow_hosts i (ct_allow_hosts ct) = Inr ()"
    "\<not> (case ct_allow_ports ct of Some ports \<Rightarrow> 0 \<in> set ports | None \<Rightarrow> False)"
    "table_walk (load_device cr now i) (unwrap_or (ct_devices ct) []) = Inr devs"
    by (auto simp: load_client_def split: if_splits)
  have "device_sound cr name d" if "map_of devs name = Some d" for name d
    using checks(4) that by (rule walk_all) (rule load_device_sound)
  then show ?thesis
    using checks(1, 3) check_allow_hosts_sound [OF checks(2)] by (auto simp: client_sound_def c)
qed

lemma load_auth_sound:
  assumes "load_auth cr now at = Inr cfg"
  shows "auth_sound cr cfg"
proof -
  from assms obtain clients where walk: "table_walk (load_client cr now) (unwrap_or (at_clients at) []) = Inr clients"
    and c: "au_clients cfg = map_of clients" "\<not> isl (validate_totp_parameters (au_time_step cfg) (au_digits cfg) (au_window cfg))"
    by (cases "validate_totp_parameters (unwrap_or (at_time_step at) 30) (unwrap_or (at_digits at) 6) (unwrap_or (at_window at) 1)")
      (auto simp: load_auth_def Let_def)
  have "client_sound cr x" if "map_of clients i = Some x" for i x
    using walk that by (rule walk_all) (rule load_client_sound)
  with c show ?thesis
    by (auto simp: auth_sound_def validate_totp_parameters_def not_less split: if_splits)
qed

lemma apply_state_sound:
  assumes "auth_sound cr cfg"
  shows "auth_sound cr (apply_state cr st cfg)"
proof -
  have dev: "device_sound cr name (apply_device cs name d) \<longleftrightarrow> device_sound cr name d" for cs name d
    by (auto simp: device_sound_def apply_device_def split: option.splits)
  have "client_sound cr (apply_client cr cs c)" if "client_sound cr c" for cs c
    using that dev by (auto simp: client_sound_def apply_client_def Let_def)
  then show ?thesis
    using assms by (auto simp: auth_sound_def apply_state_def split: option.splits)
qed

text \<open>
  C16: The authentication a server runs with is sound. Loading either refuses the file; or finds no \<open>[auth]\<close> in it; or
  gives a configuration with a code of 6 to 8 digits, a step that is not zero and a window the TOTP library can hold,
  in which no enrollment token is empty, no allowed host is a loose pattern, no allowed port is zero, and every device
  has a presentable name and exactly one credential, a key that parses or a secret that is not empty.
\<close>

theorem loaded_auth_sound:
  assumes "load_auth_half cr lib now (Some content) state = Inr r"
  shows "case r of
      None \<Rightarrow> Option.bind (tl_value lib content) (\<lambda>doc. map_of doc ''auth'') = None
    | Some cfg \<Rightarrow> auth_sound cr cfg"
  using assms
  by (cases state; cases "tl_value lib content"; cases "map_of (the (tl_value lib content)) ''auth''")
    (auto simp: load_auth_half_def parse_auth_def load_auth_sound intro!: apply_state_sound)

definition sample_lib :: toml_lib where
  "sample_lib = \<lparr>tl_document = (\<lambda>_. Inr sample_doc), tl_value = (\<lambda>_. Some sample_doc), tl_print = (\<lambda>_. ''printed'')\<rparr>"

theorem loaded_auth_sound_witness:
  "load_auth_half hex_crypto sample_lib 5 (Some ''text'') (Inr \<lparr>rs_clients = Map.empty\<rparr>) =
     Inr (Some (apply_state hex_crypto \<lparr>rs_clients = Map.empty\<rparr> sample_loaded)) \<and>
   auth_sound hex_crypto (apply_state hex_crypto \<lparr>rs_clients = Map.empty\<rparr> sample_loaded)"
proof -
  have "parse_auth hex_crypto sample_lib 5 ''text'' = Inr (Some sample_loaded)"
    using sample_doc_view by (simp add: parse_auth_def sample_lib_def auth_view_def section_of_def sample_doc_def)
  then have run: "load_auth_half hex_crypto sample_lib 5 (Some ''text'') (Inr \<lparr>rs_clients = Map.empty\<rparr>) =
      Inr (Some (apply_state hex_crypto \<lparr>rs_clients = Map.empty\<rparr> sample_loaded))"
    by (simp add: load_auth_half_def)
  from loaded_auth_sound [OF this] run show ?thesis by simp
qed

section \<open>What a write leaves behind\<close>


definition calm_io :: file_io where
  "calm_io = \<lparr>io_lock = None, io_read = None, io_temp = None, io_rename = None, io_mode = None, io_place = None,
     io_mode_after = None\<rparr>"


text \<open>
  A file written in place whose mode cannot be set afterwards holds the edited document although the writer reports an
  error.
\<close>

lemma reported_failure_written:
  assumes "io_temp io = None" and "io_rename io = Some e" and "io_mode io = None" and "io_place io = None"
    and "io_mode_after io = Some e'"
  shows "write_file io contents (Some old) = (Inl (CannotSetMode e'), Some contents)"
  using assms by (simp add: write_file_def)

text \<open>
  The token of a device is spent for a client whether or not the client is still on file. When the operator has
  removed it from the file and the server has not read that yet, the write leaves a client that has a device and no
  secret, and the file cannot be loaded any more.
\<close>

lemma device_enrollment_breaks_config:
  "auth_view hex_crypto 5 [] = Inr auth_config_default \<and>
   (\<exists>doc. run_edit hex_crypto 7 (SpendForDevice ''alice'' ''phone'' (CredSecret ''ABCD'')) [] = Inr doc \<and>
     auth_view hex_crypto 5 doc = Inl BadShape)"
  by (simp add: view_eval Let_def auth_config_default_def device_enrollment_edit_def edit_client_def sub_table_def
      device_table_def device_entry_def default_created_at_def)

text \<open>The minutes that the warning about a wide window names are computed in 32 bits, and wrap.\<close>

lemma window_minutes_wrap: "validate_totp_parameters 400000000 6 11 = Inr (Some 1750545)"
  by code_simp

end
