(* ===== verification/Nexa_Peers.thy ===== *)
theory Nexa_Peers
  imports Nexa_Auth "HOL-Library.AList"
begin

text \<open>
  The connections a server is serving, and how a reload reaches them:
  \<open>crates/nexapipe/src/conn/peers.rs\<close>. The table of peers is the list of its entries, an endpoint with what it holds;
  \<open>pe_revoked\<close> is the value of the channel that the task serving the connection watches. An endpoint id is
  a type of its own, \<open>'id\<close>.
\<close>

datatype path_kind = DirectPath | RelayPath | UnknownPath

record peer =
  pe_id :: u64
  pe_since :: nat
  pe_path :: path_kind
  pe_identity :: peer_identity
  pe_revoked :: bool

record 'id peer_registry =
  pr_peers :: "('id \<times> peer list) list"
  pr_next_id :: u64

record 'id peer_info =
  pf_endpoint_id :: 'id
  pf_connected_for :: nat
  pf_path_kind :: path_kind
  pf_identity :: peer_identity

record 'id peer_guard =
  pg_endpoint_id :: 'id
  pg_id :: u64

definition registry_new :: "'id peer_registry" where
  "registry_new = \<lparr>pr_peers = [], pr_next_id = 0\<rparr>"

definition entries_of :: "'id peer_registry \<Rightarrow> 'id \<Rightarrow> peer list" where
  "entries_of reg endpoint_id = (case map_of (pr_peers reg) endpoint_id of None \<Rightarrow> [] | Some entries \<Rightarrow> entries)"

definition registry_insert ::
    "'id \<Rightarrow> path_kind \<Rightarrow> peer_identity \<Rightarrow> nat \<Rightarrow> 'id peer_registry \<Rightarrow> 'id peer_guard \<times> 'id peer_registry" where
  "registry_insert endpoint_id path identity now reg =
     (let i = pr_next_id reg + 1;
          p = \<lparr>pe_id = i, pe_since = now, pe_path = path, pe_identity = identity, pe_revoked = False\<rparr>
      in (\<lparr>pg_endpoint_id = endpoint_id, pg_id = i\<rparr>,
          reg\<lparr>pr_peers := AList.update endpoint_id (entries_of reg endpoint_id @ [p]) (pr_peers reg),
            pr_next_id := i\<rparr>))"

definition set_path :: "'id \<Rightarrow> path_kind \<Rightarrow> 'id peer_registry \<Rightarrow> 'id peer_registry" where
  "set_path endpoint_id path reg =
     (case map_of (pr_peers reg) endpoint_id of
        None \<Rightarrow> reg
      | Some entries \<Rightarrow>
          reg\<lparr>pr_peers := AList.update endpoint_id (map (\<lambda>p. p\<lparr>pe_path := path\<rparr>) entries) (pr_peers reg)\<rparr>)"

definition close_where :: "(peer_identity \<Rightarrow> bool) \<Rightarrow> 'id peer_registry \<Rightarrow> nat \<times> 'id peer_registry" where
  "close_where matches reg =
     (length (filter (\<lambda>p. matches (pe_identity p)) (concat (map snd (pr_peers reg)))),
      reg\<lparr>pr_peers := map (\<lambda>(i, entries).
        (i, map (\<lambda>p. if matches (pe_identity p) then p\<lparr>pe_revoked := True\<rparr> else p) entries)) (pr_peers reg)\<rparr>)"

definition close_unauthenticated :: "'id peer_registry \<Rightarrow> nat \<times> 'id peer_registry" where
  "close_unauthenticated reg = close_where (\<lambda>identity. pi_client_id identity = None) reg"

definition registry_snapshot :: "nat \<Rightarrow> 'id peer_registry \<Rightarrow> 'id peer_info list" where
  "registry_snapshot now reg =
     map (\<lambda>(endpoint_id, p).
         \<lparr>pf_endpoint_id = endpoint_id, pf_connected_for = now - pe_since p, pf_path_kind = pe_path p,
          pf_identity = pe_identity p\<rparr>)
       (sort_key (\<lambda>(_, p). pe_since p)
         (concat (map (\<lambda>(endpoint_id, entries). map (Pair endpoint_id) entries) (pr_peers reg))))"

definition registry_len :: "'id peer_registry \<Rightarrow> nat" where
  "registry_len reg = sum_list (map (\<lambda>(_, entries). length entries) (pr_peers reg))"

definition registry_is_empty :: "'id peer_registry \<Rightarrow> bool" where
  "registry_is_empty reg = list_all (\<lambda>(_, entries). entries = []) (pr_peers reg)"

definition registry_remove :: "'id \<Rightarrow> u64 \<Rightarrow> 'id peer_registry \<Rightarrow> 'id peer_registry" where
  "registry_remove endpoint_id i reg =
     (case map_of (pr_peers reg) endpoint_id of
        None \<Rightarrow> reg
      | Some entries \<Rightarrow>
          let kept = filter (\<lambda>p. pe_id p \<noteq> i) entries in
          reg\<lparr>pr_peers :=
            (if kept = [] then AList.delete endpoint_id (pr_peers reg)
             else AList.update endpoint_id kept (pr_peers reg))\<rparr>)"

definition guard_drop :: "'id peer_guard \<Rightarrow> 'id peer_registry \<Rightarrow> 'id peer_registry" where
  "guard_drop g reg = registry_remove (pg_endpoint_id g) (pg_id g) reg"

section \<open>What the registry holds\<close>

text \<open>The entry a guard stands for, while the guard is held.\<close>

definition entry_of :: "'id peer_registry \<Rightarrow> 'id peer_guard \<Rightarrow> peer option" where
  "entry_of reg g = List.find (\<lambda>p. pe_id p = pg_id g) (entries_of reg (pg_endpoint_id g))"

definition held :: "'id peer_registry \<Rightarrow> ('id \<times> peer) set" where
  "held reg = {(i, p). p \<in> set (entries_of reg i)}"

lemma entries_update [simp]:
  "entries_of (reg\<lparr>pr_peers := AList.update i es (pr_peers reg)\<rparr>) j = (if j = i then es else entries_of reg j)"
  "entries_of (reg\<lparr>pr_peers := AList.delete i (pr_peers reg)\<rparr>) j = (if j = i then [] else entries_of reg j)"
  "entries_of (reg\<lparr>pr_next_id := n\<rparr>) j = entries_of reg j"
  by (auto simp: entries_of_def update_conv' delete_conv')

lemma held_insert:
  "held (snd (registry_insert i path identity now reg)) =
     insert (i, \<lparr>pe_id = pr_next_id reg + 1, pe_since = now, pe_path = path, pe_identity = identity, pe_revoked = False\<rparr>) (held reg)"
  by (auto simp: held_def registry_insert_def Let_def split: if_splits)

lemma held_remove: "held (guard_drop g reg) = {(i, p) \<in> held reg. \<not> (i = pg_endpoint_id g \<and> pe_id p = pg_id g)}"
proof (cases "map_of (pr_peers reg) (pg_endpoint_id g)")
  case None
  then have "entries_of reg (pg_endpoint_id g) = []" by (simp add: entries_of_def)
  then show ?thesis using None by (auto simp: guard_drop_def registry_remove_def held_def)
next
  case (Some es)
  then have "entries_of reg (pg_endpoint_id g) = es" by (simp add: entries_of_def)
  then show ?thesis
    using Some by (auto simp: guard_drop_def registry_remove_def held_def Let_def filter_empty_conv split: if_splits)
qed

lemma map_of_map_snd: "map_of (map (\<lambda>(k, v). (k, f v)) xs) k = map_option f (map_of xs k)"
  by (induction xs) auto

lemma held_close:
  "(i, p) \<in> held (snd (close_where matches reg)) \<longleftrightarrow>
     (\<exists>q. (i, q) \<in> held reg \<and> p = (if matches (pe_identity q) then q\<lparr>pe_revoked := True\<rparr> else q))"
proof -
  have "entries_of (snd (close_where matches reg)) i =
      map (\<lambda>p. if matches (pe_identity p) then p\<lparr>pe_revoked := True\<rparr> else p) (entries_of reg i)"
    by (auto simp: entries_of_def close_where_def map_of_map_snd split: option.splits)
  then show ?thesis by (auto simp: held_def image_iff)
qed

lemma close_where_next [simp]: "pr_next_id (snd (close_where matches reg)) = pr_next_id reg"
  by (simp add: close_where_def)

end
