(* ===== verification/Nexa_Enroll.thy ===== *)
theory Nexa_Enroll
  imports Nexa_Store Nexa_Peers Nexa_Stream
begin

text \<open>
  Enrollment and the handshake: \<open>crates/nexapipe/src/conn/auth/enrollment.rs\<close>, \<open>handshake.rs\<close>, \<open>state.rs\<close> and the
  comparison of \<open>conn/auth/mod.rs\<close>. The configuration file is the document it holds, a write of the
  storage lands or fails with a message. A handshake is a computation over a \<open>world\<close>: the server, the stream of the
  peer, and the moment; it ends with a value, with a failure, or with the deadline of the caller. What comes from
  outside - the clock, the random nonce and secret, serde, the writes that fail - is in \<open>site\<close>.
\<close>

section \<open>Enrollment\<close>

definition constant_time_eq :: "bytes \<Rightarrow> bytes \<Rightarrow> bool" where
  "constant_time_eq expected given =
     (if length expected \<noteq> length given then False
      else foldl (\<lambda>diff (a, b). diff OR (a XOR b)) 0 (zip expected given) = 0)"

datatype auth_failure = NotStarted string | Rejected string

datatype enroll_verdict = EnrollAccept | EnrollRefuse bool

fun verdict_counted :: "enroll_verdict \<Rightarrow> bool" where
  "verdict_counted (EnrollRefuse True) = True"
| "verdict_counted _ = False"

definition holds_the_key_on_file :: "crypto \<Rightarrow> device_auth \<Rightarrow> string option \<Rightarrow> bool" where
  "holds_the_key_on_file cr entry offered =
     (case offered of
        None \<Rightarrow> False
      | Some offered \<Rightarrow>
          (case da_public_key entry of
             None \<Rightarrow> False
           | Some stored \<Rightarrow>
               (case parse_public_key cr offered of
                  Inl _ \<Rightarrow> False
                | Inr key \<Rightarrow> constant_time_eq (as_bytes stored) (as_bytes (public_key_hex cr key)))))"

definition enrollment_verdict ::
    "crypto \<Rightarrow> auth_config \<Rightarrow> u64 \<Rightarrow> string \<Rightarrow> string \<Rightarrow> string option \<Rightarrow> string option \<Rightarrow> enroll_verdict" where
  "enrollment_verdict cr cfg now client_id token device public_key =
     (case au_clients cfg client_id of
        None \<Rightarrow> EnrollRefuse False
      | Some client \<Rightarrow>
          if is_locked_out client now then EnrollRefuse False
          else if is_enrollment_locked_out client now then EnrollRefuse False
          else
            (case Option.bind (ca_pending_enrollment client) (\<lambda>t. if t = [] then None else Some t) of
               None \<Rightarrow> EnrollRefuse False
             | Some expected \<Rightarrow>
                 if \<not> constant_time_eq (as_bytes expected) (as_bytes token) then EnrollRefuse True
                 else
                   (case Option.bind device (ca_devices client) of
                      Some entry \<Rightarrow>
                        if \<not> holds_the_key_on_file cr entry public_key then EnrollRefuse False else EnrollAccept
                    | None \<Rightarrow> EnrollAccept)))"

datatype enrollment_slot = SlotDevice string "device_auth option" | SlotShared string

datatype issued_credential = DeviceSecret string string | DeviceKey string string | SharedSecret string

definition issue_enrolled_secret ::
    "u64 \<Rightarrow> string \<Rightarrow> issued_credential \<Rightarrow> auth_config \<Rightarrow> enrollment_slot \<times> auth_config" where
  "issue_enrolled_secret now client_id issued cfg =
     (case au_clients cfg client_id of
        None \<Rightarrow> (SlotShared [], cfg)
      | Some client \<Rightarrow>
          let (slot, client) =
            (case issued of
               DeviceSecret name secret \<Rightarrow>
                 (SlotDevice name (ca_devices client name),
                  client\<lparr>ca_devices := (ca_devices client)(name \<mapsto>
                    \<lparr>da_secret = secret, da_public_key = None, da_created_at = default_created_at now,
                     da_last_used = None, da_last_used_step = None\<rparr>)\<rparr>)
             | DeviceKey name key \<Rightarrow>
                 (SlotDevice name (ca_devices client name),
                  client\<lparr>ca_devices := (ca_devices client)(name \<mapsto>
                    \<lparr>da_secret = [], da_public_key = Some key, da_created_at = default_created_at now,
                     da_last_used = None, da_last_used_step = None\<rparr>)\<rparr>)
             | SharedSecret secret \<Rightarrow> (SlotShared (ca_secret client), client\<lparr>ca_secret := secret\<rparr>))
          in (slot, upd_client client_id (\<lambda>_. client\<lparr>ca_pending_enrollment := None\<rparr>) cfg))"

definition undo_enrolled_secret :: "string \<Rightarrow> enrollment_slot \<Rightarrow> string \<Rightarrow> auth_config \<Rightarrow> auth_config" where
  "undo_enrolled_secret client_id slot token cfg =
     upd_client client_id (\<lambda>client.
       (case slot of
          SlotDevice name previous \<Rightarrow> client\<lparr>ca_devices := (ca_devices client)(name := previous)\<rparr>
        | SlotShared previous \<Rightarrow> client\<lparr>ca_secret := previous\<rparr>)\<lparr>ca_pending_enrollment := Some token\<rparr>) cfg"

definition count_enrollment_failure :: "string \<Rightarrow> u32 \<Rightarrow> u64 \<Rightarrow> u64 \<Rightarrow> auth_config \<Rightarrow> auth_config" where
  "count_enrollment_failure client_id max_attempts lockout_duration now cfg =
     upd_client client_id (record_enrollment_failure max_attempts lockout_duration now) cfg"

section \<open>The server and the stream\<close>

record 'id auth_server =
  sv_config :: auth_config
  sv_document :: toml_table
  sv_state :: runtime_state
  sv_epoch :: u64
  sv_peers :: "'id peer_registry"

definition bump_enroll_epoch :: "'id auth_server \<Rightarrow> 'id auth_server" where
  "bump_enroll_epoch sv = sv\<lparr>sv_epoch := sv_epoch sv + 1\<rparr>"

text \<open>\<open>st_room\<close> is how many bytes the peer still takes before a write fails, if it ever does.\<close>

record auth_stream =
  st_reads :: reader_events
  st_written :: bytes
  st_room :: "nat option"
  st_error :: string

record 'id world =
  wd_server :: "'id auth_server"
  wd_stream :: auth_stream
  wd_clock :: nat

record ('id, 'j) site =
  si_crypto :: crypto
  si_totp :: totp_library
  si_encode :: "auth_message \<Rightarrow> 'j + bytes"
  si_decode :: "bytes \<Rightarrow> 'j + auth_message"
  si_codec_text :: "'j codec_error \<Rightarrow> string"
  si_key_text :: "key_error \<Rightarrow> string"
  si_store_text :: "store_error \<Rightarrow> string"
  si_unix :: "nat \<Rightarrow> u64"
  si_deadline :: nat
  si_nonce :: bytes
  si_secret :: string
  si_write_fails :: "string option"
  si_persists :: bool
  si_endpoint :: 'id
  si_path :: path_kind

datatype 'a ended = HsTimeout | HsFailed auth_failure | HsDone 'a

definition hs_bind ::
    "('w \<Rightarrow> 'a ended \<times> 'w) \<Rightarrow> ('a \<Rightarrow> 'w \<Rightarrow> 'b ended \<times> 'w) \<Rightarrow> 'w \<Rightarrow> 'b ended \<times> 'w" where
  "hs_bind m f w =
     (case m w of
        (HsTimeout, w') \<Rightarrow> (HsTimeout, w')
      | (HsFailed e, w') \<Rightarrow> (HsFailed e, w')
      | (HsDone a, w') \<Rightarrow> f a w')"

definition hs_fail :: "auth_failure \<Rightarrow> 'w \<Rightarrow> 'a ended \<times> 'w" where
  "hs_fail e w = (HsFailed e, w)"

definition write_all :: "bytes \<Rightarrow> auth_stream \<Rightarrow> (string + unit) \<times> auth_stream" where
  "write_all bs st =
     (case st_room st of
        None \<Rightarrow> (Inr (), st\<lparr>st_written := st_written st @ bs\<rparr>)
      | Some n \<Rightarrow>
          if length bs \<le> n then (Inr (), st\<lparr>st_written := st_written st @ bs, st_room := Some (n - length bs)\<rparr>)
          else (Inl (st_error st), st\<lparr>st_written := st_written st @ take n bs, st_room := Some 0\<rparr>))"

section \<open>Messages\<close>

definition AUTH_RESULT_GRACE :: nat where "AUTH_RESULT_GRACE = 500 * 10 ^ 6"
definition MAX_AUTH_MESSAGE :: nat where "MAX_AUTH_MESSAGE = 64 * 1024"

fun message_kind :: "auth_message \<Rightarrow> string" where
  "message_kind (AuthStart _ _ _ _) = ''AUTH_START''"
| "message_kind (AuthChallenge _) = ''AUTH_CHALLENGE''"
| "message_kind (AuthResponse _ _ _ _ _) = ''AUTH_RESPONSE''"
| "message_kind AuthOk = ''AUTH_OK''"
| "message_kind (AuthFailed _) = ''AUTH_FAILED''"
| "message_kind (EnrollStart _ _ _ _) = ''ENROLL_START''"
| "message_kind (EnrollIssue _ _ _ _ _ _) = ''ENROLL_ISSUE''"
| "message_kind (EnrollFailed _) = ''ENROLL_FAILED''"

definition reply_format :: "auth_message \<Rightarrow> format \<Rightarrow> format" where
  "reply_format m asked_in = unwrap_or (Option.bind (announced_version m) format_from_version) asked_in"

definition write_auth_message ::
    "('id, 'j) site \<Rightarrow> auth_message \<Rightarrow> format \<Rightarrow> auth_stream \<Rightarrow> (string + unit) \<times> auth_stream" where
  "write_auth_message si m fmt st =
     (case to_payload (si_encode si) m fmt of
        Inl e \<Rightarrow> (Inl (''failed to serialize '' @ message_kind m @ '': '' @ si_codec_text si e), st)
      | Inr bs \<Rightarrow>
          (case write_all (le_bytes 4 (of_nat (length bs) :: u32)) st of
             (Inl e, st) \<Rightarrow> (Inl (''failed to send '' @ message_kind m @ '': '' @ e), st)
           | (Inr _, st) \<Rightarrow>
               (case write_all bs st of
                  (Inl e, st) \<Rightarrow> (Inl (''failed to send '' @ message_kind m @ '': '' @ e), st)
                | (Inr _, st) \<Rightarrow> (Inr (), st))))"

text \<open>The read of exactly \<open>len\<close> bytes, \<open>buf\<close> being those that are there; \<open>None\<close> when the deadline passes first.\<close>

function read_bytes ::
    "nat \<Rightarrow> bytes \<Rightarrow> nat \<Rightarrow> nat \<Rightarrow> reader_events \<Rightarrow> (string + bytes) option \<times> nat \<times> reader_events" where
  "read_bytes len buf deadline now rd =
     (if len \<le> length buf then (Some (Inr buf), now, rd)
      else
        (case read_by (len - length buf) deadline now rd of
           (None, now', rd') \<Rightarrow> (None, now', rd')
         | (Some (Inl e), now', rd') \<Rightarrow> (Some (Inl (''failed to read auth message: '' @ snd e)), now', rd')
         | (Some (Inr bs), now', rd') \<Rightarrow>
             if bs = [] then
               (Some (Inl (''client closed the auth stream after '' @ show_nat (length buf) @ '' of '' @ show_nat len @
                  '' bytes'')), now', rd')
             else read_bytes len (buf @ bs) deadline now' rd'))"
  by pat_completeness auto
termination
  by (relation "measure (\<lambda>(len, buf, deadline, now, rd). pending rd)") (auto dest: read_by_pending [OF sym])

declare read_bytes.simps [simp del]

definition read_auth_message ::
    "nat \<Rightarrow> nat \<Rightarrow> reader_events \<Rightarrow> (string + bytes) option \<times> nat \<times> reader_events" where
  "read_auth_message deadline now rd =
     (case read_bytes 4 [] deadline now rd of
        (Some (Inr len_buf), now', rd') \<Rightarrow>
          let msg_len = unat (of_le_bytes len_buf :: u32) in
          if msg_len = 0 \<or> MAX_AUTH_MESSAGE < msg_len
          then (Some (Inl (''auth message length '' @ show_nat msg_len @ '' is out of range'')), now', rd')
          else read_bytes msg_len [] deadline now' rd'
      | r \<Rightarrow> r)"

definition hs_send :: "('id, 'j) site \<Rightarrow> auth_message \<Rightarrow> format \<Rightarrow> 'id world \<Rightarrow> unit ended \<times> 'id world" where
  "hs_send si m fmt w =
     (case write_auth_message si m fmt (wd_stream w) of
        (Inl e, st) \<Rightarrow> (HsFailed (NotStarted e), w\<lparr>wd_stream := st\<rparr>)
      | (Inr _, st) \<Rightarrow> (HsDone (), w\<lparr>wd_stream := st\<rparr>))"

definition hs_receive :: "('id, 'j) site \<Rightarrow> 'id world \<Rightarrow> bytes ended \<times> 'id world" where
  "hs_receive si w =
     (case read_auth_message (si_deadline si) (wd_clock w) (st_reads (wd_stream w)) of
        (r, now, rd) \<Rightarrow>
          (case r of
             None \<Rightarrow> HsTimeout
           | Some (Inl e) \<Rightarrow> HsFailed (NotStarted e)
           | Some (Inr bs) \<Rightarrow> HsDone bs,
           w\<lparr>wd_clock := now, wd_stream := (wd_stream w)\<lparr>st_reads := rd\<rparr>\<rparr>))"

definition hs_message :: "('id, 'j) site \<Rightarrow> string \<Rightarrow> 'id world \<Rightarrow> (auth_message \<times> format) ended \<times> 'id world" where
  "hs_message si otherwise =
     hs_bind (hs_receive si) (\<lambda>bs w.
       (case from_payload (si_decode si) bs of
          Inl _ \<Rightarrow> (HsFailed (NotStarted otherwise), w)
        | Inr (m, fmt) \<Rightarrow> (HsDone (m, fmt), w)))"

section \<open>An enrollment on the wire\<close>

definition REFUSED :: string where "REFUSED = ''the enrollment token was not accepted''"

definition sv_persist :: "('id, 'j) site \<Rightarrow> 'id auth_server \<Rightarrow> 'id auth_server" where
  "sv_persist si sv = (if si_persists si then sv\<lparr>sv_state := persist_auth_state (si_crypto si) (sv_config sv)\<rparr> else sv)"

definition refuse_unrecordable_enrollment ::
    "('id, 'j) site \<Rightarrow> string \<Rightarrow> string \<Rightarrow> format \<Rightarrow> 'id world \<Rightarrow> 'a ended \<times> 'id world" where
  "refuse_unrecordable_enrollment si client_id reason fmt =
     hs_bind (hs_send si (EnrollFailed reason) fmt) (\<lambda>_.
       hs_fail (Rejected (''enrollment refused for client '' @ [CHR 0x27] @ client_id @ [CHR 0x27] @ '': '' @ reason)))"

definition credential_to_issue ::
    "('id, 'j) site \<Rightarrow> string option \<Rightarrow> string option \<Rightarrow> string + issued_credential" where
  "credential_to_issue si device public_key =
     (case public_key of
        None \<Rightarrow>
          (case device of
             Some name \<Rightarrow> Inr (DeviceSecret name (si_secret si))
           | None \<Rightarrow> Inr (SharedSecret (si_secret si)))
      | Some offered \<Rightarrow>
          (case device of
             None \<Rightarrow>
               Inl (''a public key has to be issued to a named device; the unnamed credential is the client'' @ [CHR 0x27] @
                 ''s own shared secret'')
           | Some name \<Rightarrow>
               (case parse_public_key (si_crypto si) offered of
                  Inl why \<Rightarrow> Inl (si_key_text si why)
                | Inr key \<Rightarrow> Inr (DeviceKey name (public_key_hex (si_crypto si) key)))))"

fun store_edit :: "string \<Rightarrow> issued_credential \<Rightarrow> credential_edit" where
  "store_edit client_id (DeviceSecret name secret) = SpendForDevice client_id name (CredSecret secret)"
| "store_edit client_id (DeviceKey name key) = SpendForDevice client_id name (CredPublicKey key)"
| "store_edit client_id (SharedSecret secret) = SpendForClient client_id secret"

text \<open>The write of the enrollment to the storage.\<close>

definition store_issued ::
    "('id, 'j) site \<Rightarrow> u64 \<Rightarrow> string \<Rightarrow> issued_credential \<Rightarrow> toml_table \<Rightarrow> string + toml_table" where
  "store_issued si now client_id issued doc =
     (case si_write_fails si of
        Some e \<Rightarrow> Inl (''the write to the enrollment did not run: '' @ e)
      | None \<Rightarrow>
          (case run_edit (si_crypto si) now (store_edit client_id issued) doc of
             Inl e \<Rightarrow> Inl (''the write to the enrollment did not run: '' @ si_store_text si e)
           | Inr doc' \<Rightarrow> Inr doc'))"

fun issue_message :: "string \<Rightarrow> issued_credential \<Rightarrow> auth_config \<Rightarrow> auth_message" where
  "issue_message client_id (DeviceSecret name secret) cfg =
     EnrollIssue client_id secret (wire_algorithm (au_algorithm cfg)) (au_digits cfg) (ucast (au_time_step cfg)) (Some name)"
| "issue_message client_id (DeviceKey name key) cfg =
     EnrollIssue client_id [] (wire_algorithm (au_algorithm cfg)) (au_digits cfg) (ucast (au_time_step cfg)) (Some name)"
| "issue_message client_id (SharedSecret secret) cfg =
     EnrollIssue client_id secret (wire_algorithm (au_algorithm cfg)) (au_digits cfg) (ucast (au_time_step cfg)) None"

definition counters_dirty :: "client_auth \<Rightarrow> bool" where
  "counters_dirty c \<longleftrightarrow>
     ca_failed_attempts c \<noteq> 0 \<or> ca_locked_until c \<noteq> None \<or> ca_enrollment_failed_attempts c \<noteq> 0 \<or>
     ca_enrollment_locked_until c \<noteq> None"

text \<open>What is done once the credential is in memory and its write has answered.\<close>

definition enrollment_saved ::
    "('id, 'j) site \<Rightarrow> u64 \<Rightarrow> string \<Rightarrow> toml_table \<Rightarrow> 'id auth_server \<Rightarrow> 'id auth_server" where
  "enrollment_saved si now client_id doc sv =
     (let sv = bump_enroll_epoch (sv\<lparr>sv_document := doc\<rparr>);
          dirty = (case au_clients (sv_config sv) client_id of None \<Rightarrow> False | Some c \<Rightarrow> counters_dirty c)
      in if dirty
         then sv_persist si (sv\<lparr>sv_config :=
           upd_client client_id (\<lambda>c. record_enrollment_success (client_record_success now c)) (sv_config sv)\<rparr>)
         else sv)"

definition enroll_client ::
    "('id, 'j) site \<Rightarrow> string \<Rightarrow> string \<Rightarrow> string option \<Rightarrow> string option \<Rightarrow> format \<Rightarrow> 'id world \<Rightarrow>
      unit ended \<times> 'id world" where
  "enroll_client si client_id token device public_key fmt w =
     (let now = si_unix si (wd_clock w); sv = wd_server w;
          cfg = upd_client client_id (\<lambda>c. refresh_enrollment_lockout now (refresh_lockout now c)) (sv_config sv);
          sv = sv\<lparr>sv_config := cfg\<rparr>
      in
      case enrollment_verdict (si_crypto si) cfg now client_id token device public_key of
        EnrollRefuse counted \<Rightarrow>
          let sv = (if counted
            then sv_persist si (sv\<lparr>sv_config :=
              count_enrollment_failure client_id (au_max_attempts cfg) (au_lockout_duration cfg) now cfg\<rparr>)
            else sv)
          in hs_bind (hs_send si (EnrollFailed REFUSED) fmt) (\<lambda>_.
               hs_fail (Rejected (''enrollment refused for client '' @ [CHR 0x27] @ client_id @ [CHR 0x27] @ '': '' @ REFUSED)))
               (w\<lparr>wd_server := sv\<rparr>)
      | EnrollAccept \<Rightarrow>
          (case credential_to_issue si device public_key of
             Inl reason \<Rightarrow> refuse_unrecordable_enrollment si client_id reason fmt (w\<lparr>wd_server := sv\<rparr>)
           | Inr issued \<Rightarrow>
               let (slot, cfg1) = issue_enrolled_secret now client_id issued cfg in
               (case store_issued si now client_id issued (sv_document sv) of
                  Inl e \<Rightarrow>
                    hs_bind (hs_send si (EnrollFailed (''enrollment could not be saved: '' @ e)) fmt) (\<lambda>_.
                      hs_fail (Rejected (''enrollment could not be saved: '' @ e)))
                      (w\<lparr>wd_server := sv\<lparr>sv_config := undo_enrolled_secret client_id slot token cfg1\<rparr>\<rparr>)
                | Inr doc \<Rightarrow>
                    hs_send si (issue_message client_id issued cfg) fmt
                      (w\<lparr>wd_server := enrollment_saved si now client_id doc (sv\<lparr>sv_config := cfg1\<rparr>)\<rparr>))))"

section \<open>The handshake\<close>

text \<open>The verdict on a response, and the registration of the connection under the same lock.\<close>

definition authenticate_peer ::
    "('id, 'j) site \<Rightarrow> auth_request \<Rightarrow> 'id world \<Rightarrow> (client_acl \<times> 'id peer_guard) option \<times> 'id world" where
  "authenticate_peer si req w =
     (let sv = wd_server w;
          (verdict, cfg, dirty) = authenticate (si_crypto si) (si_totp si) (si_unix si (wd_clock w)) req (sv_config sv);
          sv = sv\<lparr>sv_config := cfg\<rparr>;
          (registered, sv) =
            (case verdict of
               Inl _ \<Rightarrow> (None, sv)
             | Inr (acl, identity) \<Rightarrow>
                 let (g, peers) = registry_insert (si_endpoint si) (si_path si) identity (wd_clock w) (sv_peers sv)
                 in (Some (acl, g), sv\<lparr>sv_peers := peers\<rparr>))
      in (registered, w\<lparr>wd_server := (if dirty then sv_persist si sv else sv)\<rparr>))"

text \<open>The reads that follow a refusal, so that the peer gets to see it: to the end of the stream or of the grace.\<close>

function drain_reads :: "nat \<Rightarrow> nat \<Rightarrow> reader_events \<Rightarrow> bool \<times> nat \<times> reader_events" where
  "drain_reads limit now rd =
     (case read_by 256 limit now rd of
        (None, now', rd') \<Rightarrow> (False, now', rd')
      | (Some (Inl e), now', rd') \<Rightarrow> (True, now', rd')
      | (Some (Inr bs), now', rd') \<Rightarrow> if bs = [] then (True, now', rd') else drain_reads limit now' rd')"
  by pat_completeness auto
termination
  by (relation "measure (\<lambda>(limit, now, rd). pending rd)") (auto dest: read_by_pending [OF sym])

declare drain_reads.simps [simp del]

definition grace_after_refusal :: "('id, 'j) site \<Rightarrow> 'id world \<Rightarrow> unit ended \<times> 'id world" where
  "grace_after_refusal si w =
     (let until = wd_clock w + AUTH_RESULT_GRACE;
          (ended, now, rd) = drain_reads (min until (si_deadline si)) (wd_clock w) (st_reads (wd_stream w))
      in (if \<not> ended \<and> si_deadline si < until then HsTimeout else HsDone (),
          w\<lparr>wd_clock := now, wd_stream := (wd_stream w)\<lparr>st_reads := rd\<rparr>\<rparr>))"

record 'id authenticated_peer =
  ap_client_id :: string
  ap_device :: "string option"
  ap_acl :: client_acl
  ap_guard :: "'id peer_guard"

definition FAIL_REASON :: string where "FAIL_REASON = ''Invalid TOTP code''"

definition unpresentable :: "auth_message \<Rightarrow> string option" where
  "unpresentable m =
     (if (case m of AuthStart i _ _ _ \<Rightarrow> \<not> is_presentable_client_id i
            | EnrollStart i _ _ _ \<Rightarrow> \<not> is_presentable_client_id i | _ \<Rightarrow> False)
      then Some ''client id is not printable ASCII''
      else if (case m of EnrollStart _ _ (Some d) _ \<Rightarrow> \<not> is_presentable_device_id d | _ \<Rightarrow> False)
      then Some ''device id is not printable ASCII''
      else None)"

text \<open>Who the peer says it is, after the enrollment it may ask for first; with the format of the answers.\<close>

definition hs_opening :: "('id, 'j) site \<Rightarrow> 'id world \<Rightarrow> (string \<times> format) ended \<times> 'id world" where
  "hs_opening si =
     hs_bind (hs_message si ''the first stream is not an AUTH_START'') (\<lambda>(start, start_format).
       let fmt = reply_format start start_format in
       case unpresentable start of
         Some reason \<Rightarrow> hs_fail (Rejected reason)
       | None \<Rightarrow>
           (case start of
              AuthStart client_id _ _ _ \<Rightarrow> Pair (HsDone (client_id, fmt))
            | EnrollStart client_id token device_id public_key \<Rightarrow>
                hs_bind (enroll_client si client_id token device_id public_key fmt) (\<lambda>_.
                hs_bind (hs_message si ''expected AUTH_START after ENROLL_START'') (\<lambda>(m, asked_in).
                  (case m of
                     AuthStart i _ _ _ \<Rightarrow>
                       if i = client_id then Pair (HsDone (client_id, reply_format m asked_in))
                       else hs_fail (Rejected (''AUTH_START names client '' @ [CHR 0x27] @ i @ [CHR 0x27] @
                         '' but the enrollment was for '' @ [CHR 0x27] @ client_id @ [CHR 0x27]))
                   | _ \<Rightarrow> hs_fail (NotStarted ''expected AUTH_START after ENROLL_START''))))
            | _ \<Rightarrow> hs_fail (NotStarted ''expected AUTH_START message'')))"

definition hs_verdict ::
    "('id, 'j) site \<Rightarrow> string \<Rightarrow> auth_request \<Rightarrow> format \<Rightarrow> 'id world \<Rightarrow> 'id authenticated_peer ended \<times> 'id world" where
  "hs_verdict si client_id req response_format w =
     (let (registered, w) = authenticate_peer si req w in
      case registered of
        Some (acl, g) \<Rightarrow>
          hs_bind (hs_send si AuthOk response_format) (\<lambda>_.
            Pair (HsDone \<lparr>ap_client_id = client_id, ap_device = rq_device_id req, ap_acl = acl, ap_guard = g\<rparr>)) w
      | None \<Rightarrow>
          hs_bind (hs_send si (AuthFailed FAIL_REASON) response_format) (\<lambda>_.
          hs_bind (grace_after_refusal si) (\<lambda>_.
            hs_fail (Rejected (''authentication failed for client '' @ [CHR 0x27] @ client_id @ [CHR 0x27] @ '': '' @
              FAIL_REASON)))) w)"

definition perform_authentication ::
    "('id, 'j) site \<Rightarrow> 'id world \<Rightarrow> 'id authenticated_peer ended \<times> 'id world" where
  "perform_authentication si =
     hs_bind (hs_opening si) (\<lambda>(client_id, fmt).
     hs_bind (hs_send si (AuthChallenge (si_nonce si)) fmt) (\<lambda>_.
     hs_bind (hs_message si ''expected AUTH_RESPONSE message'') (\<lambda>(m, response_format).
       (case m of
          AuthResponse resp_client_id timestamp totp_code signature resp_device_id \<Rightarrow>
            if resp_client_id \<noteq> client_id then hs_fail (Rejected ''client ID mismatch in AUTH_RESPONSE'')
            else if (case resp_device_id of Some name \<Rightarrow> \<not> is_presentable_device_id name | None \<Rightarrow> False)
            then hs_fail (Rejected ''device id is not printable ASCII'')
            else
              hs_verdict si client_id
                \<lparr>rq_client_id = client_id, rq_device_id = resp_device_id, rq_nonce = si_nonce si, rq_timestamp = timestamp,
                 rq_signature = signature, rq_code = totp_code\<rparr> response_format
        | _ \<Rightarrow> hs_fail (NotStarted ''expected AUTH_RESPONSE message'')))))"


section \<open>What an enrollment does to the server\<close>

lemma constant_time_eq_iff: "constant_time_eq a b \<longleftrightarrow> a = b"
  by (auto simp: constant_time_eq_def foldl_or_zero)

lemma enrollment_verdict_accept:
  "enrollment_verdict cr cfg now i token device public_key = EnrollAccept \<longleftrightarrow>
     (\<exists>c. au_clients cfg i = Some c \<and> \<not> is_locked_out c now \<and> \<not> is_enrollment_locked_out c now \<and>
       ca_pending_enrollment c = Some token \<and> token \<noteq> [] \<and>
       (\<forall>name d. device = Some name \<and> ca_devices c name = Some d \<longrightarrow> holds_the_key_on_file cr d public_key))"
  by (auto simp: enrollment_verdict_def constant_time_eq_iff split: option.splits if_splits bind_splits)

lemma enrollment_verdict_counted:
  "enrollment_verdict cr cfg now i token device public_key = EnrollRefuse True \<longleftrightarrow>
     (\<exists>c t. au_clients cfg i = Some c \<and> \<not> is_locked_out c now \<and> \<not> is_enrollment_locked_out c now \<and>
       ca_pending_enrollment c = Some t \<and> t \<noteq> [] \<and> t \<noteq> token)"
  by (auto simp: enrollment_verdict_def constant_time_eq_iff split: option.splits if_splits bind_splits)

lemma undo_issue:
  assumes "au_clients cfg i = Some c" and "ca_pending_enrollment c = Some token"
    and "issue_enrolled_secret now i issued cfg = (slot, cfg')"
  shows "undo_enrolled_secret i slot token cfg' = cfg"
proof -
  have "cfg\<lparr>au_clients := (au_clients cfg)(i \<mapsto> c)\<rparr> = cfg" using assms(1) by (simp add: fun_upd_idem)
  then show ?thesis
    using assms by (cases issued)
      (auto simp: issue_enrolled_secret_def undo_enrolled_secret_def upd_client_def fun_upd_idem split: prod.splits)
qed

text \<open>The reply to an enrollment, and the server after it.\<close>

datatype enroll_reply = ReplyRefused | ReplyUnrecordable string | ReplyUnsaved string | ReplyIssued issued_credential

definition refreshed :: "u64 \<Rightarrow> string \<Rightarrow> auth_config \<Rightarrow> auth_config" where
  "refreshed now i cfg = upd_client i (\<lambda>c. refresh_enrollment_lockout now (refresh_lockout now c)) cfg"

definition enroll_effect ::
    "('id, 'j) site \<Rightarrow> u64 \<Rightarrow> string \<Rightarrow> string \<Rightarrow> string option \<Rightarrow> string option \<Rightarrow> 'id auth_server \<Rightarrow>
      enroll_reply \<times> 'id auth_server" where
  "enroll_effect si now i token device public_key sv =
     (let cfg = refreshed now i (sv_config sv); sv = sv\<lparr>sv_config := cfg\<rparr> in
      case enrollment_verdict (si_crypto si) cfg now i token device public_key of
        EnrollRefuse counted \<Rightarrow>
          (ReplyRefused,
           if counted
           then sv_persist si (sv\<lparr>sv_config :=
             count_enrollment_failure i (au_max_attempts cfg) (au_lockout_duration cfg) now cfg\<rparr>)
           else sv)
      | EnrollAccept \<Rightarrow>
          (case credential_to_issue si device public_key of
             Inl reason \<Rightarrow> (ReplyUnrecordable reason, sv)
           | Inr issued \<Rightarrow>
               (case store_issued si now i issued (sv_document sv) of
                  Inl e \<Rightarrow> (ReplyUnsaved e, sv)
                | Inr doc \<Rightarrow>
                    (ReplyIssued issued,
                     enrollment_saved si now i doc (sv\<lparr>sv_config := snd (issue_enrolled_secret now i issued cfg)\<rparr>)))))"

definition hs_reply ::
    "('id, 'j) site \<Rightarrow> string \<Rightarrow> auth_config \<Rightarrow> format \<Rightarrow> enroll_reply \<Rightarrow> 'id world \<Rightarrow> unit ended \<times> 'id world" where
  "hs_reply si i cfg fmt reply =
     (case reply of
        ReplyRefused \<Rightarrow> refuse_unrecordable_enrollment si i REFUSED fmt
      | ReplyUnrecordable reason \<Rightarrow> refuse_unrecordable_enrollment si i reason fmt
      | ReplyUnsaved e \<Rightarrow>
          hs_bind (hs_send si (EnrollFailed (''enrollment could not be saved: '' @ e)) fmt) (\<lambda>_.
            hs_fail (Rejected (''enrollment could not be saved: '' @ e)))
      | ReplyIssued issued \<Rightarrow> hs_send si (issue_message i issued cfg) fmt)"

lemma issue_message_refreshed [simp]: "issue_message i issued (refreshed now j cfg) = issue_message i issued cfg"
  by (cases issued) (simp_all add: refreshed_def)

lemma enroll_client_effect:
  assumes "enroll_effect si (si_unix si (wd_clock w)) i token device public_key (wd_server w) = (reply, sv)"
  shows "enroll_client si i token device public_key fmt w =
    hs_reply si i (sv_config (wd_server w)) fmt reply (w\<lparr>wd_server := sv\<rparr>)"
proof -
  let ?now = "si_unix si (wd_clock w)" and ?cfg = "refreshed (si_unix si (wd_clock w)) i (sv_config (wd_server w))"
  let ?sv = "(wd_server w)\<lparr>sv_config := ?cfg\<rparr>"
  note unf = enroll_client_def [folded refreshed_def] Let_def enroll_effect_def
  show ?thesis
  proof (cases "enrollment_verdict (si_crypto si) ?cfg ?now i token device public_key")
    case (EnrollRefuse counted)
    then show ?thesis
      using assms by (auto simp: unf hs_reply_def refuse_unrecordable_enrollment_def REFUSED_def)
  next
    case EnrollAccept
    then obtain c where c: "au_clients ?cfg i = Some c" "ca_pending_enrollment c = Some token"
      unfolding enrollment_verdict_accept by blast
    show ?thesis
    proof (cases "credential_to_issue si device public_key")
      case (Inl reason)
      then show ?thesis using EnrollAccept assms by (auto simp: unf hs_reply_def)
    next
      case (Inr issued)
      obtain slot cfg1 where iss: "issue_enrolled_secret ?now i issued ?cfg = (slot, cfg1)" by (metis prod.exhaust)
      have "undo_enrolled_secret i slot token cfg1 = ?cfg" by (rule undo_issue [OF c iss])
      then show ?thesis
        using EnrollAccept Inr assms iss
        by (cases "store_issued si ?now i issued (sv_document (wd_server w))") (auto simp: unf hs_reply_def)
    qed
  qed
qed


section \<open>The credentials in memory and on disk\<close>

text \<open>A configuration without its counters and without the dates of issue, which the file and the memory write apart.\<close>

definition device_creds :: "device_auth \<Rightarrow> device_auth" where
  "device_creds d = (device_without d)\<lparr>da_created_at := []\<rparr>"

definition client_creds :: "client_auth \<Rightarrow> client_auth" where
  "client_creds c =
     (client_without c)\<lparr>ca_created_at := [], ca_devices := (\<lambda>name. map_option device_creds (ca_devices c name))\<rparr>"

definition creds :: "(string \<rightharpoonup> client_auth) \<Rightarrow> (string \<rightharpoonup> client_auth)" where
  "creds clients = (\<lambda>i. map_option client_creds (clients i))"

definition agrees :: "crypto \<Rightarrow> u64 \<Rightarrow> 'id auth_server \<Rightarrow> bool" where
  "agrees cr t sv \<longleftrightarrow>
     (\<exists>cfg. auth_view cr t (sv_document sv) = Inr cfg \<and> creds (au_clients cfg) = creds (au_clients (sv_config sv)))"

lemma device_creds_without [simp]: "device_creds (device_without d) = device_creds d"
  by (simp add: device_creds_def device_without_def)

lemma client_creds_without: "client_creds (client_without c) = client_creds c"
  by (simp add: client_creds_def client_without_def option.map_comp comp_def)

lemma client_creds_cong: "client_without c = client_without c' \<Longrightarrow> client_creds c = client_creds c'"
  by (metis client_creds_without)

lemma client_creds_simps:
  "client_creds (c\<lparr>ca_secret := s\<rparr>) = (client_creds c)\<lparr>ca_secret := s\<rparr>"
  "client_creds (c\<lparr>ca_pending_enrollment := p\<rparr>) = (client_creds c)\<lparr>ca_pending_enrollment := p\<rparr>"
  "client_creds (c\<lparr>ca_devices := (ca_devices c)(d \<mapsto> x)\<rparr>) =
     (client_creds c)\<lparr>ca_devices := (ca_devices (client_creds c))(d \<mapsto> device_creds x)\<rparr>"
  "ca_pending_enrollment (client_creds c) = ca_pending_enrollment c"
  by (simp_all add: client_creds_def client_without_def fun_upd_def fun_eq_iff)

lemma client_without_enrollment [simp]:
  "client_without (refresh_enrollment_lockout now c) = client_without c"
  "client_without (record_enrollment_failure m d now c) = client_without c"
  "client_without (record_enrollment_success c) = client_without c"
  by (simp_all add: client_without_def refresh_enrollment_lockout_def record_enrollment_failure_def
      record_enrollment_success_def Let_def)

lemma creds_upd_client:
  "creds (au_clients (upd_client i f cfg)) =
     (case au_clients cfg i of None \<Rightarrow> creds (au_clients cfg) | Some c \<Rightarrow> (creds (au_clients cfg))(i \<mapsto> client_creds (f c)))"
  by (auto simp: creds_def upd_client_lookup fun_eq_iff split: option.splits)

lemma creds_upd_same:
  assumes "\<And>c. au_clients cfg i = Some c \<Longrightarrow> client_without (f c) = client_without c"
  shows "creds (au_clients (upd_client i f cfg)) = creds (au_clients cfg)"
proof (cases "au_clients cfg i")
  case (Some c)
  then have "client_creds (f c) = client_creds c" using assms client_creds_cong by blast
  moreover have "creds (au_clients cfg) i = Some (client_creds c)" using Some by (simp add: creds_def)
  ultimately show ?thesis using Some by (simp add: creds_upd_client fun_upd_idem)
qed (simp add: creds_upd_client)

lemma creds_refreshed [simp]: "creds (au_clients (refreshed now i cfg)) = creds (au_clients cfg)"
  unfolding refreshed_def by (rule creds_upd_same) simp

lemma creds_counted: "creds (au_clients (count_enrollment_failure i m d now cfg)) = creds (au_clients cfg)"
  unfolding count_enrollment_failure_def by (rule creds_upd_same) simp

lemma creds_without_counters: "without_counters a = without_counters b \<Longrightarrow> creds (au_clients a) = creds (au_clients b)"
proof -
  assume "without_counters a = without_counters b"
  then have "map_option client_without (au_clients a i) = map_option client_without (au_clients b i)" for i
    by (metis without_counters_client(4))
  then have "map_option client_creds (au_clients a i) = map_option client_creds (au_clients b i)" for i
    by (metis (no_types, lifting) client_creds_without option.map_comp comp_apply option.map_cong0)
  then show ?thesis by (simp add: creds_def)
qed

lemma accepted_attempt_creds:
  assumes "accepted_attempt now req None cfg = (res, cfg', dirty)"
  shows "creds (au_clients cfg') = creds (au_clients cfg)"
proof (cases "au_clients cfg (rq_client_id req)")
  case None
  then have "cfg' = cfg" using assms by (auto simp: accepted_attempt_def Let_def split: option.splits if_splits prod.splits)
  then show ?thesis by simp
next
  case (Some c)
  obtain ok c' d where ad: "admit now (rq_device_id req) None c = (ok, c', d)" by (metis prod.exhaust)
  obtain b c2 where st: "stamp now (rq_device_id req) c = (b, c2)" by (metis prod.exhaust)
  have "client_without c' = client_without c"
    using ad st stamp_spec [OF st] by (auto simp: admit_def take_step_def Let_def split: if_splits)
  moreover have "cfg' = upd_client (rq_client_id req) (\<lambda>_. c') cfg"
    using accepted_attempt_local [OF Some ad] assms by simp
  ultimately show ?thesis using Some creds_upd_same [of cfg "rq_client_id req" "\<lambda>_. c'"] by simp
qed

lemma authenticate_creds:
  assumes "authenticate cr totp now req cfg = (res, cfg', dirty)"
  shows "creds (au_clients cfg') = creds (au_clients cfg)"
proof (cases "au_enabled cfg")
  case True
  then show ?thesis using authenticate_keeps [OF _ assms] creds_without_counters by blast
next
  case False
  let ?cfg = "upd_client (rq_client_id req) (refresh_lockout now) cfg"
  have "accepted_attempt now req None ?cfg = (res, cfg', dirty)"
    using False assms by (simp add: authenticate_def verify_response_def Let_def)
  then have "creds (au_clients cfg') = creds (au_clients ?cfg)" by (rule accepted_attempt_creds)
  also have "\<dots> = creds (au_clients cfg)" by (rule creds_upd_same) simp
  finally show ?thesis .
qed

text \<open>The credential that is issued in memory is the one the edit of the file puts there.\<close>

fun canonical :: "crypto \<Rightarrow> issued_credential \<Rightarrow> bool" where
  "canonical cr (DeviceKey name key) \<longleftrightarrow> canonical_key cr key = key"
| "canonical cr _ \<longleftrightarrow> True"

lemma to_issue_canonical: "hex_round_trips (si_crypto si) \<Longrightarrow> credential_to_issue si device key = Inr issued \<Longrightarrow> canonical (si_crypto si) issued"
  using parse_canonical by (auto simp: credential_to_issue_def canonical_key_def split: option.splits sum.splits)

lemma issued_matches_edit:
  assumes "au_clients mem i = Some c" and "creds (au_clients cfg) = creds (au_clients mem)" and "canonical cr issued"
  shows "creds (edited cr made t (store_edit i issued) (au_clients cfg)) =
    creds (au_clients (snd (issue_enrolled_secret now i issued mem)))"
proof -
  from assms(1, 2) obtain c' where c': "au_clients cfg i = Some c'" "client_creds c' = client_creds c"
    by (auto simp: creds_def fun_eq_iff dest!: spec [of _ i])
  have look: "creds (clients(i \<mapsto> x)) = (creds clients)(i \<mapsto> client_creds x)" for clients x
    by (simp add: creds_def fun_eq_iff)
  have dates: "device_creds (d\<lparr>da_created_at := x\<rparr>) = device_creds d" for d x
    by (simp add: device_creds_def device_without_def)
  show ?thesis
    using assms(1, 3) c' by (cases issued)
      (simp_all add: issue_enrolled_secret_def upd_client_def look client_creds_simps assms(2) issued_device_def
        device_creds_def device_without_def)
qed

section \<open>What a handshake keeps\<close>

definition keeps :: "('id auth_server \<Rightarrow> bool) \<Rightarrow> ('id world \<Rightarrow> 'a ended \<times> 'id world) \<Rightarrow> bool" where
  "keeps P m \<longleftrightarrow> (\<forall>w. P (wd_server w) \<longrightarrow> P (wd_server (snd (m w))))"

lemma keeps_bind: "keeps P m \<Longrightarrow> (\<And>a. keeps P (f a)) \<Longrightarrow> keeps P (hs_bind m f)"
  unfolding keeps_def hs_bind_def
  by (auto split: prod.split ended.split)

lemma same_server:
  "wd_server (snd (hs_send si m fmt w)) = wd_server w" "wd_server (snd (hs_receive si w)) = wd_server w"
  "wd_server (snd (grace_after_refusal si w)) = wd_server w"
    apply (simp add: hs_send_def split: prod.split sum.split)
   apply (simp add: hs_receive_def split: prod.split)
  apply (simp add: grace_after_refusal_def Let_def split: prod.split)
  done

lemma keeps_fail [simp]: "keeps P (hs_fail e)"
  by (simp add: keeps_def hs_fail_def)

lemma keeps_done [simp]: "keeps P (Pair (HsDone a))"
  by (simp add: keeps_def)

lemma keeps_send [simp]: "keeps P (hs_send si m fmt)"
  unfolding keeps_def same_server by simp

lemma keeps_receive [simp]: "keeps P (hs_receive si)"
  unfolding keeps_def same_server by simp

lemma keeps_grace [simp]: "keeps P (grace_after_refusal si)"
  unfolding keeps_def same_server by simp

lemma keeps_message [simp]: "keeps P (hs_message si otherwise)"
  unfolding hs_message_def
  by (intro keeps_bind keeps_receive) (simp add: keeps_def split: sum.split prod.split)

lemma keeps_reply [simp]: "keeps P (hs_reply si i cfg fmt reply)"
  by (cases reply) (simp_all add: hs_reply_def refuse_unrecordable_enrollment_def keeps_bind)

lemma keeps_enroll:
  assumes "\<And>now sv. P sv \<Longrightarrow> P (snd (enroll_effect si now i token device key sv))"
  shows "keeps P (enroll_client si i token device key fmt)"
  unfolding keeps_def
proof (intro allI impI)
  fix w :: "'a world"
  assume w: "P (wd_server w)"
  obtain reply sv where e: "enroll_effect si (si_unix si (wd_clock w)) i token device key (wd_server w) = (reply, sv)"
    by (metis prod.exhaust)
  then have "P sv" using assms [OF w] by (metis snd_conv)
  then show "P (wd_server (snd (enroll_client si i token device key fmt w)))"
    unfolding enroll_client_effect [OF e]
    using keeps_reply [unfolded keeps_def, rule_format, of P "w\<lparr>wd_server := sv\<rparr>"] by simp
qed

lemma keeps_verdict:
  assumes "\<And>w. P (wd_server w) \<Longrightarrow> P (wd_server (snd (authenticate_peer si req w)))"
  shows "keeps P (hs_verdict si i req fmt)"
  unfolding keeps_def
proof (intro allI impI)
  fix w :: "'a world"
  assume w: "P (wd_server w)"
  obtain r w1 where a: "authenticate_peer si req w = (r, w1)" by (metis prod.exhaust)
  then have p: "P (wd_server w1)" using assms [OF w] by simp
  have "keeps P (\<lambda>w1. case r of
        Some (acl, g) \<Rightarrow>
          hs_bind (hs_send si AuthOk fmt) (\<lambda>_.
            Pair (HsDone \<lparr>ap_client_id = i, ap_device = rq_device_id req, ap_acl = acl, ap_guard = g\<rparr>)) w1
      | None \<Rightarrow>
          hs_bind (hs_send si (AuthFailed FAIL_REASON) fmt) (\<lambda>_.
          hs_bind (grace_after_refusal si) (\<lambda>_.
            hs_fail (Rejected (''authentication failed for client '' @ [CHR 0x27] @ i @ [CHR 0x27] @ '': '' @
              FAIL_REASON)))) w1)"
    by (cases r) (simp_all add: keeps_bind split_beta)
  then show "P (wd_server (snd (hs_verdict si i req fmt w)))"
    using p by (simp add: hs_verdict_def a keeps_def)
qed


lemma keeps_split: "(\<And>a b. keeps P (f a b)) \<Longrightarrow> keeps P (case x of (a, b) \<Rightarrow> f a b)"
  by (cases x) simp

lemma keeps_opening:
  assumes "\<And>now i token device key sv. is_presentable_client_id i \<Longrightarrow> (\<And>d. device = Some d \<Longrightarrow> is_presentable_device_id d) \<Longrightarrow>
      P sv \<Longrightarrow> P (snd (enroll_effect si now i token device key sv))"
  shows "keeps P (hs_opening si)"
proof -
  have enroll: "keeps P (enroll_client si i token device key fmt)"
    if "unpresentable (EnrollStart i token device key) = None" for i token device key fmt
    using that by (intro keeps_enroll assms) (auto simp: unpresentable_def split: if_splits)
  have start: "keeps P (case m of
                     AuthStart i _ _ _ \<Rightarrow>
                       if i = client_id then Pair (HsDone (client_id, reply_format m asked_in))
                       else hs_fail (Rejected (''AUTH_START names client '' @ [CHR 0x27] @ i @ [CHR 0x27] @
                         '' but the enrollment was for '' @ [CHR 0x27] @ client_id @ [CHR 0x27]))
                   | _ \<Rightarrow> hs_fail (NotStarted ''expected AUTH_START after ENROLL_START''))" for m client_id asked_in
    by (cases m) simp_all
  have "keeps P (let fmt = reply_format start start_format in
       case unpresentable start of
         Some reason \<Rightarrow> hs_fail (Rejected reason)
       | None \<Rightarrow>
           (case start of
              AuthStart client_id _ _ _ \<Rightarrow> Pair (HsDone (client_id, fmt))
            | EnrollStart client_id token device_id public_key \<Rightarrow>
                hs_bind (enroll_client si client_id token device_id public_key fmt) (\<lambda>_.
                hs_bind (hs_message si ''expected AUTH_START after ENROLL_START'') (\<lambda>(m, asked_in).
                  (case m of
                     AuthStart i _ _ _ \<Rightarrow>
                       if i = client_id then Pair (HsDone (client_id, reply_format m asked_in))
                       else hs_fail (Rejected (''AUTH_START names client '' @ [CHR 0x27] @ i @ [CHR 0x27] @
                         '' but the enrollment was for '' @ [CHR 0x27] @ client_id @ [CHR 0x27]))
                   | _ \<Rightarrow> hs_fail (NotStarted ''expected AUTH_START after ENROLL_START''))))
            | _ \<Rightarrow> hs_fail (NotStarted ''expected AUTH_START message'')))" for start start_format
  proof (cases "unpresentable start")
    case None
    then show ?thesis
      by (cases start) (simp_all add: Let_def keeps_bind keeps_split start enroll)
  qed (simp add: Let_def)
  then show ?thesis unfolding hs_opening_def by (intro keeps_bind keeps_message keeps_split)
qed

lemma keeps_handshake:
  assumes "\<And>now i token device key sv. is_presentable_client_id i \<Longrightarrow> (\<And>d. device = Some d \<Longrightarrow> is_presentable_device_id d) \<Longrightarrow>
      P sv \<Longrightarrow> P (snd (enroll_effect si now i token device key sv))"
    and "\<And>req w. P (wd_server w) \<Longrightarrow> P (wd_server (snd (authenticate_peer si req w)))"
  shows "keeps P (perform_authentication si)"
proof -
  have "keeps P (hs_opening si)" using assms(1) by (rule keeps_opening)
  moreover have "keeps P (case m of
          AuthResponse resp_client_id timestamp totp_code signature resp_device_id \<Rightarrow>
            if resp_client_id \<noteq> client_id then hs_fail (Rejected ''client ID mismatch in AUTH_RESPONSE'')
            else if (case resp_device_id of Some name \<Rightarrow> \<not> is_presentable_device_id name | None \<Rightarrow> False)
            then hs_fail (Rejected ''device id is not printable ASCII'')
            else
              hs_verdict si client_id
                \<lparr>rq_client_id = client_id, rq_device_id = resp_device_id, rq_nonce = si_nonce si, rq_timestamp = timestamp,
                 rq_signature = signature, rq_code = totp_code\<rparr> response_format
        | _ \<Rightarrow> hs_fail (NotStarted ''expected AUTH_RESPONSE message''))" for m client_id response_format
    by (cases m) (simp_all add: keeps_verdict assms(2))
  ultimately show ?thesis
    unfolding perform_authentication_def by (intro keeps_bind keeps_message keeps_send keeps_split)
qed

section \<open>Properties\<close>

lemma sv_persist_simps [simp]:
  "sv_config (sv_persist si sv) = sv_config sv" "sv_document (sv_persist si sv) = sv_document sv"
  "sv_epoch (sv_persist si sv) = sv_epoch sv" "sv_peers (sv_persist si sv) = sv_peers sv"
  by (simp_all add: sv_persist_def)

lemma agrees_creds:
  "agrees cr t sv \<Longrightarrow> sv_document sv' = sv_document sv \<Longrightarrow> creds (au_clients (sv_config sv')) = creds (au_clients (sv_config sv)) \<Longrightarrow>
     agrees cr t sv'"
  by (simp add: agrees_def)

lemma enrollment_saved_simps:
  "sv_document (enrollment_saved si now i doc sv) = doc" "sv_epoch (enrollment_saved si now i doc sv) = sv_epoch sv + 1"
  "sv_peers (enrollment_saved si now i doc sv) = sv_peers sv"
  "creds (au_clients (sv_config (enrollment_saved si now i doc sv))) = creds (au_clients (sv_config sv))"
proof -
  have "creds (au_clients (upd_client i (\<lambda>c. record_enrollment_success (client_record_success now c)) cfg)) = creds (au_clients cfg)" for cfg
    by (rule creds_upd_same) simp
  then show "sv_document (enrollment_saved si now i doc sv) = doc" "sv_epoch (enrollment_saved si now i doc sv) = sv_epoch sv + 1"
    "sv_peers (enrollment_saved si now i doc sv) = sv_peers sv"
    "creds (au_clients (sv_config (enrollment_saved si now i doc sv))) = creds (au_clients (sv_config sv))"
    by (simp_all add: enrollment_saved_def bump_enroll_epoch_def Let_def)
qed

lemma store_issued_Inr:
  "store_issued si now i issued doc = Inr doc' \<longleftrightarrow>
     si_write_fails si = None \<and> run_edit (si_crypto si) now (store_edit i issued) doc = Inr doc'"
  by (auto simp: store_issued_def split: option.splits sum.splits)

lemma enroll_effect_cases:
  obtains (refused) counted where
      "enrollment_verdict (si_crypto si) (refreshed now i (sv_config sv)) now i token device key = EnrollRefuse counted"
      "enroll_effect si now i token device key sv =
         (ReplyRefused, let cfg = refreshed now i (sv_config sv) in
           if counted then sv_persist si (sv\<lparr>sv_config :=
             count_enrollment_failure i (au_max_attempts cfg) (au_lockout_duration cfg) now cfg\<rparr>)
           else sv\<lparr>sv_config := cfg\<rparr>)"
  | (unsaved) reply where
      "enrollment_verdict (si_crypto si) (refreshed now i (sv_config sv)) now i token device key = EnrollAccept"
      "enroll_effect si now i token device key sv = (reply, sv\<lparr>sv_config := refreshed now i (sv_config sv)\<rparr>)"
      "(\<exists>reason. reply = ReplyUnrecordable reason \<and> credential_to_issue si device key = Inl reason) \<or>
       (\<exists>e issued. reply = ReplyUnsaved e \<and> credential_to_issue si device key = Inr issued \<and>
         store_issued si now i issued (sv_document sv) = Inl e)"
  | (issued) issued doc where
      "enrollment_verdict (si_crypto si) (refreshed now i (sv_config sv)) now i token device key = EnrollAccept"
      "credential_to_issue si device key = Inr issued" "store_issued si now i issued (sv_document sv) = Inr doc"
      "enroll_effect si now i token device key sv =
         (ReplyIssued issued, enrollment_saved si now i doc
           (sv\<lparr>sv_config := snd (issue_enrolled_secret now i issued (refreshed now i (sv_config sv)))\<rparr>))"
proof (cases "enrollment_verdict (si_crypto si) (refreshed now i (sv_config sv)) now i token device key")
  case (EnrollRefuse counted)
  then show ?thesis by (intro refused [of counted]) (simp_all add: enroll_effect_def Let_def)
next
  case EnrollAccept
  show ?thesis
  proof (cases "credential_to_issue si device key")
    case (Inl reason)
    then show ?thesis using EnrollAccept by (intro unsaved) (simp_all add: enroll_effect_def Let_def)
  next
    case (Inr c)
    show ?thesis
    proof (cases "store_issued si now i c (sv_document sv)")
      case (Inl e)
      then show ?thesis using EnrollAccept Inr by (intro unsaved) (simp_all add: enroll_effect_def Let_def)
    next
      case doc: (Inr doc)
      show ?thesis by (rule issued [OF EnrollAccept Inr doc]) (simp add: EnrollAccept Inr doc enroll_effect_def Let_def)
    qed
  qed
qed

lemma enroll_agrees:
  assumes "hex_round_trips (si_crypto si)" and "\<And>d. device = Some d \<Longrightarrow> is_presentable_device_id d" and "agrees (si_crypto si) t sv"
  shows "agrees (si_crypto si) t (snd (enroll_effect si now i token device key sv))"
proof -
  let ?cfg = "refreshed now i (sv_config sv)"
  note kept = agrees_creds [OF assms(3)]
  show ?thesis
  proof (cases rule: enroll_effect_cases [where si = si and now = now and i = i and sv = sv and token = token and device = device and key = key])
    case (refused counted)
    then show ?thesis by (auto simp: Let_def creds_counted intro!: kept)
  next
    case (unsaved reply)
    then show ?thesis by (auto intro!: kept)
  next
    case (issued issued doc)
    from assms(3) obtain cfg where cfg: "auth_view (si_crypto si) t (sv_document sv) = Inr cfg"
      "creds (au_clients cfg) = creds (au_clients ?cfg)" by (auto simp: agrees_def)
    from issued(1) obtain c where c: "au_clients ?cfg i = Some c" unfolding enrollment_verdict_accept by blast
    have "au_clients cfg i \<noteq> None" using c cfg(2) by (auto simp: creds_def fun_eq_iff dest!: spec [of _ i])
    then have "edit_applies (au_clients cfg) (store_edit i issued)"
      using issued(2) assms(2) by (auto simp: credential_to_issue_def split: option.splits sum.splits)
    moreover have "run_edit (si_crypto si) now (store_edit i issued) (sv_document sv) = Inr doc"
      using issued(3) store_issued_Inr by blast
    ultimately have "auth_view (si_crypto si) t doc =
        Inr (cfg\<lparr>au_clients := edited (si_crypto si) now t (store_edit i issued) (au_clients cfg)\<rparr>)"
      using edits_refined [OF assms(1) cfg(1)] by blast
    moreover have "creds (edited (si_crypto si) now t (store_edit i issued) (au_clients cfg)) =
        creds (au_clients (snd (issue_enrolled_secret now i issued ?cfg)))"
      by (rule issued_matches_edit [OF c cfg(2) to_issue_canonical [OF assms(1) issued(2)]])
    ultimately show ?thesis
      using issued(4) by (simp add: agrees_def enrollment_saved_simps)
  qed
qed

end
