(* ===== verification/Nexa_Invite.thy ===== *)
theory Nexa_Invite
  imports Nexa_Enroll
begin

text \<open>
  What enrollments and handshakes guarantee: the file and the memory agree, an invitation is redeemed at most once and
  guessed at only so often, and a peer that is turned away learns nothing from how. The definitions are those of
  \<open>Nexa_Enroll\<close>.
\<close>

section \<open>Memory and file\<close>


section \<open>The contract of an invitation\<close>

text \<open>
  What an enrollment comes down to for the client it names: the token that is out, the guard against guessing it, and the
  guard of the client's own codes, which shuts the enrollment too.
\<close>

record invite =
  iv_token :: "string option"
  iv_tries :: guard
  iv_own :: guard

definition redeem :: "u32 \<Rightarrow> u64 \<Rightarrow> u64 \<Rightarrow> bool \<Rightarrow> string \<Rightarrow> invite \<Rightarrow> bool \<times> invite" where
  "redeem m d now usable token iv =
     (let own = guard_at now (iv_own iv); tries = guard_at now (iv_tries iv);
          iv = iv\<lparr>iv_own := own, iv_tries := tries\<rparr>
      in
      case (own, tries, iv_token iv) of
        (GOpen _, GOpen _, Some t) \<Rightarrow>
          if t = [] then (False, iv)
          else if t \<noteq> token then (False, iv\<lparr>iv_tries := guard_fail m d now tries\<rparr>)
          else if usable then (True, \<lparr>iv_token = None, iv_tries = GOpen 0, iv_own = GOpen 0\<rparr>)
          else (False, iv)
      | _ \<Rightarrow> (False, iv))"

definition invite_of :: "client_auth \<Rightarrow> invite" where
  "invite_of c =
     \<lparr>iv_token = ca_pending_enrollment c, iv_tries = guard_of (ca_enrollment_failed_attempts c) (ca_enrollment_locked_until c),
      iv_own = guard_of (ca_failed_attempts c) (ca_locked_until c)\<rparr>"

text \<open>Whether the device may be given a credential, and the credential could be written.\<close>

definition usable :: "('id, 'j) site \<Rightarrow> u64 \<Rightarrow> string \<Rightarrow> string option \<Rightarrow> string option \<Rightarrow> client_auth \<Rightarrow> toml_table \<Rightarrow> bool" where
  "usable si now i device key c doc \<longleftrightarrow>
     (\<forall>name d. device = Some name \<and> ca_devices c name = Some d \<longrightarrow> holds_the_key_on_file (si_crypto si) d key) \<and>
     (\<exists>issued doc'. credential_to_issue si device key = Inr issued \<and> store_issued si now i issued doc = Inr doc')"

definition refresh_both :: "u64 \<Rightarrow> client_auth \<Rightarrow> client_auth" where
  "refresh_both now c = refresh_enrollment_lockout now (refresh_lockout now c)"

lemma refresh_both_simps [simp]:
  "ca_pending_enrollment (refresh_both now c) = ca_pending_enrollment c" "ca_devices (refresh_both now c) = ca_devices c"
  by (simp_all add: refresh_both_def refresh_enrollment_lockout_def refresh_lockout_def)

lemma refresh_apart:
  "ca_enrollment_failed_attempts (refresh_lockout now c) = ca_enrollment_failed_attempts c"
  "ca_enrollment_locked_until (refresh_lockout now c) = ca_enrollment_locked_until c"
  "ca_failed_attempts (refresh_enrollment_lockout now c) = ca_failed_attempts c"
  "ca_locked_until (refresh_enrollment_lockout now c) = ca_locked_until c"
  "is_locked_out (refresh_enrollment_lockout now c) now = is_locked_out c now"
  by (simp_all add: refresh_enrollment_lockout_def refresh_lockout_def is_locked_out_def)

lemma invite_refresh:
  "invite_of (refresh_both now c) =
     (invite_of c)\<lparr>iv_own := guard_at now (iv_own (invite_of c)), iv_tries := guard_at now (iv_tries (invite_of c))\<rparr>"
  using own_lock.guard_refresh [of now c] token_lock.guard_refresh [of now "refresh_lockout now c"]
  by (simp add: invite_of_def refresh_both_def refresh_apart)
     (simp add: refresh_enrollment_lockout_def refresh_lockout_def)

lemma locked_refresh_both:
  "is_locked_out (refresh_both now c) now \<longleftrightarrow> (\<exists>u. guard_at now (iv_own (invite_of c)) = GShut u)"
  "is_enrollment_locked_out (refresh_both now c) now \<longleftrightarrow> (\<exists>u. guard_at now (iv_tries (invite_of c)) = GShut u)"
  using own_lock.locked_refresh [of now c] token_lock.locked_refresh [of now "refresh_lockout now c"]
  by (simp_all add: invite_of_def refresh_both_def refresh_apart)

lemma invite_counted:
  assumes "\<not> is_enrollment_locked_out (refresh_both now c) now"
  shows "invite_of (record_enrollment_failure m d now (refresh_both now c)) =
    (invite_of (refresh_both now c))\<lparr>iv_tries := guard_fail m d now (guard_at now (iv_tries (invite_of c)))\<rparr>"
  using token_lock.guard_fails [of now "refresh_lockout now c" m d] assms
  by (simp add: invite_of_def refresh_both_def refresh_apart record_enrollment_failure_def Let_def)

lemma not_shut: "(\<nexists>u. g = GShut u) \<longleftrightarrow> (\<exists>n. g = GOpen n)"
  by (cases g) auto


lemma refreshed_both: "refreshed now i cfg = upd_client i (refresh_both now) cfg"
  by (simp add: refreshed_def refresh_both_def [abs_def])

lemma reply_done: "hs_reply si i cfg fmt reply w = (HsDone (), w') \<Longrightarrow> \<exists>issued. reply = ReplyIssued issued"
  by (cases reply) (auto simp: hs_reply_def refuse_unrecordable_enrollment_def hs_bind_def hs_fail_def
      split: prod.splits ended.splits)

lemma issue_client:
  assumes "au_clients cfg i = Some c"
  obtains c' where "snd (issue_enrolled_secret now i issued cfg) = upd_client i (\<lambda>_. c') cfg"
    and "ca_pending_enrollment c' = None" and "ca_failed_attempts c' = ca_failed_attempts c" and "ca_locked_until c' = ca_locked_until c"
    and "ca_enrollment_failed_attempts c' = ca_enrollment_failed_attempts c"
    and "ca_enrollment_locked_until c' = ca_enrollment_locked_until c"
  using assms that by (cases issued) (simp_all add: issue_enrolled_secret_def)

lemma saved_invite:
  assumes "au_clients (sv_config sv) i = Some c" and "ca_pending_enrollment c = None"
  shows "\<exists>c'. sv_config (enrollment_saved si now i doc sv) = upd_client i (\<lambda>_. c') (sv_config sv) \<and>
    invite_of c' = \<lparr>iv_token = None, iv_tries = GOpen 0, iv_own = GOpen 0\<rparr>"
proof (cases "counters_dirty c")
  case True
  have "upd_client i (\<lambda>c. record_enrollment_success (client_record_success now c)) (sv_config sv) =
      upd_client i (\<lambda>_. record_enrollment_success (client_record_success now c)) (sv_config sv)"
    by (rule upd_client_cong) (simp add: assms(1))
  then show ?thesis
    using True assms
    by (intro exI [of _ "record_enrollment_success (client_record_success now c)"])
      (simp add: enrollment_saved_def bump_enroll_epoch_def Let_def invite_of_def record_enrollment_success_def
        client_record_success_def guard_of_def)
next
  case False
  then show ?thesis
    using assms
    by (intro exI [of _ c])
      (simp add: enrollment_saved_def bump_enroll_epoch_def Let_def invite_of_def counters_dirty_def guard_of_def upd_client_same)
qed

lemma upd_client_const: "au_clients cfg i = Some c \<Longrightarrow> upd_client i f cfg = upd_client i (\<lambda>_. f c) cfg"
  by (rule upd_client_cong) simp

lemma redeem_denied:
  assumes "(\<exists>u. guard_at now (iv_own iv) = GShut u) \<or> (\<exists>u. guard_at now (iv_tries iv) = GShut u) \<or> iv_token iv = None \<or> iv_token iv = Some []"
  shows "redeem m d now ok token iv = (False, iv\<lparr>iv_own := guard_at now (iv_own iv), iv_tries := guard_at now (iv_tries iv)\<rparr>)"
  using assms by (auto simp: redeem_def Let_def split: guard.split option.split)

lemma redeem_open:
  assumes "\<nexists>u. guard_at now (iv_own iv) = GShut u" and "\<nexists>u. guard_at now (iv_tries iv) = GShut u"
    and "iv_token iv = Some t" and "t \<noteq> []"
  shows "redeem m d now ok token iv =
    (let iv' = iv\<lparr>iv_own := guard_at now (iv_own iv), iv_tries := guard_at now (iv_tries iv)\<rparr> in
     if t \<noteq> token then (False, iv'\<lparr>iv_tries := guard_fail m d now (guard_at now (iv_tries iv))\<rparr>)
     else if ok then (True, \<lparr>iv_token = None, iv_tries = GOpen 0, iv_own = GOpen 0\<rparr>) else (False, iv'))"
proof -
  from assms(1, 2) obtain a b where "guard_at now (iv_own iv) = GOpen a" "guard_at now (iv_tries iv) = GOpen b"
    unfolding not_shut by blast
  then show ?thesis using assms(3, 4) by (simp add: redeem_def Let_def)
qed

lemma verdict_refused_not_counted:
  assumes "enrollment_verdict cr cfg now i token device key = EnrollRefuse False" and "au_clients cfg i = Some c"
  shows "is_locked_out c now \<or> is_enrollment_locked_out c now \<or> ca_pending_enrollment c = None \<or> ca_pending_enrollment c = Some [] \<or>
    (token \<noteq> [] \<and> ca_pending_enrollment c = Some token \<and>
      (\<exists>name d. device = Some name \<and> ca_devices c name = Some d \<and> \<not> holds_the_key_on_file cr d key))"
  using assms by (auto simp: enrollment_verdict_def constant_time_eq_iff split: option.splits if_splits bind_splits)

lemma invite_of_sel [simp]: "iv_token (invite_of c) = ca_pending_enrollment c"
  by (simp add: invite_of_def)

lemma effect_refused:
  assumes "au_clients (sv_config sv) i = Some c"
    and "enrollment_verdict (si_crypto si) (refreshed now i (sv_config sv)) now i token device key = EnrollRefuse counted"
  shows "(False, invite_of (if counted then record_enrollment_failure m d now (refresh_both now c) else refresh_both now c)) =
    redeem m d now (usable si now i device key c doc) token (invite_of c)"
proof -
  let ?c = "refresh_both now c"
  have c: "au_clients (refreshed now i (sv_config sv)) i = Some ?c" using assms(1) by (simp add: refreshed_both upd_client_lookup)
  show ?thesis
  proof (cases counted)
    case True
    with assms(2) c obtain t where t: "\<not> is_locked_out ?c now" "\<not> is_enrollment_locked_out ?c now"
      "ca_pending_enrollment c = Some t" "t \<noteq> []" "t \<noteq> token"
      by (auto simp: enrollment_verdict_counted)
    then show ?thesis
      unfolding locked_refresh_both
      using True by (simp add: redeem_open invite_counted [OF t(2)] invite_refresh Let_def)
  next
    case False
    with verdict_refused_not_counted [OF _ c] assms(2) consider
        (shut) "is_locked_out ?c now \<or> is_enrollment_locked_out ?c now \<or> ca_pending_enrollment c = None \<or> ca_pending_enrollment c = Some []"
      | (taken) name e where "\<not> is_locked_out ?c now" "\<not> is_enrollment_locked_out ?c now" "token \<noteq> []"
        "ca_pending_enrollment c = Some token" "device = Some name" "ca_devices c name = Some e"
        "\<not> holds_the_key_on_file (si_crypto si) e key"
      by auto blast
    then show ?thesis
    proof cases
      case shut
      then show ?thesis
        unfolding locked_refresh_both using False by (simp add: redeem_denied invite_refresh)
    next
      case taken
      then have "\<not> usable si now i device key c doc" by (auto simp: usable_def)
      then show ?thesis
        using taken(1-4) unfolding locked_refresh_both using False by (simp add: redeem_open invite_refresh Let_def)
    qed
  qed
qed


lemma effect_refines:
  assumes "au_clients (sv_config sv) i = Some c" and "enroll_effect si now i token device key sv = (reply, sv')"
  shows "\<exists>c'. sv_config sv' = upd_client i (\<lambda>_. c') (sv_config sv) \<and>
    ((\<exists>issued. reply = ReplyIssued issued), invite_of c') =
      redeem (au_max_attempts (sv_config sv)) (au_lockout_duration (sv_config sv)) now
        (usable si now i device key c (sv_document sv)) token (invite_of c) \<and>
    sv_peers sv' = sv_peers sv \<and>
    (if \<exists>issued. reply = ReplyIssued issued then sv_epoch sv' = sv_epoch sv + 1
     else sv_epoch sv' = sv_epoch sv \<and> sv_document sv' = sv_document sv \<and> client_without c' = client_without c)"
proof -
  let ?c = "refresh_both now c" and ?cfg = "refreshed now i (sv_config sv)"
  have c: "au_clients ?cfg i = Some ?c" using assms(1) by (simp add: refreshed_both upd_client_lookup)
  have cfg: "?cfg = upd_client i (\<lambda>_. ?c) (sv_config sv)" unfolding refreshed_both by (rule upd_client_const [OF assms(1)])
  have wo: "client_without ?c = client_without c" by (simp add: refresh_both_def)
  show ?thesis
  proof (cases rule: enroll_effect_cases [where si = si and now = now and i = i and sv = sv and token = token and device = device and key = key])
    case (refused counted)
    let ?c' = "if counted then record_enrollment_failure (au_max_attempts (sv_config sv)) (au_lockout_duration (sv_config sv)) now ?c else ?c"
    have "sv_config sv' = upd_client i (\<lambda>_. ?c') (sv_config sv)"
      using refused(2) assms(2) by (cases counted) (simp_all add: Let_def count_enrollment_failure_def cfg comp_def)
    moreover have "client_without ?c' = client_without c" using wo by simp
    ultimately show ?thesis
      using refused(2) assms(2) effect_refused [OF assms(1) refused(1)]
      by (intro exI [of _ ?c']) (simp add: Let_def split: if_splits)
  next
    case (unsaved reply')
    then have right: "\<not> is_locked_out ?c now" "\<not> is_enrollment_locked_out ?c now" "ca_pending_enrollment c = Some token" "token \<noteq> []"
      using c by (auto simp: enrollment_verdict_accept)
    have "\<not> usable si now i device key c (sv_document sv)" "\<nexists>issued. reply' = ReplyIssued issued"
      using unsaved(3) by (auto simp: usable_def)
    then show ?thesis
      using right unsaved(2) assms(2) cfg wo unfolding locked_refresh_both
      by (intro exI [of _ ?c]) (simp add: redeem_open invite_refresh Let_def)
  next
    case (issued issued doc)
    then have right: "\<not> is_locked_out ?c now" "\<not> is_enrollment_locked_out ?c now" "ca_pending_enrollment c = Some token" "token \<noteq> []"
      and "usable si now i device key c (sv_document sv)"
      using c by (auto simp: enrollment_verdict_accept usable_def)
    moreover obtain c1 where c1: "snd (issue_enrolled_secret now i issued ?cfg) = upd_client i (\<lambda>_. c1) ?cfg" "ca_pending_enrollment c1 = None"
      using c by (rule issue_client)
    let ?sv = "sv\<lparr>sv_config := snd (issue_enrolled_secret now i issued ?cfg)\<rparr>"
    have "au_clients (sv_config ?sv) i = Some c1" using c c1(1) by (simp add: upd_client_lookup)
    from saved_invite [OF this c1(2)] obtain c2 where
      "sv_config (enrollment_saved si now i doc ?sv) = upd_client i (\<lambda>_. c2) (sv_config ?sv)"
      "invite_of c2 = \<lparr>iv_token = None, iv_tries = GOpen 0, iv_own = GOpen 0\<rparr>" by blast
    ultimately show ?thesis
      using issued(4) assms(2) c1(1) unfolding locked_refresh_both
      by (intro exI [of _ c2]) (simp add: redeem_open Let_def enrollment_saved_simps cfg comp_def)
  qed
qed

lemma enrollment_refined:
  assumes "au_clients (sv_config (wd_server w)) i = Some c" and "enroll_client si i token device key fmt w = (r, w')"
  shows "\<exists>c'. sv_config (wd_server w') = upd_client i (\<lambda>_. c') (sv_config (wd_server w)) \<and>
    (sv_epoch (wd_server w') \<noteq> sv_epoch (wd_server w), invite_of c') =
      redeem (au_max_attempts (sv_config (wd_server w))) (au_lockout_duration (sv_config (wd_server w)))
        (si_unix si (wd_clock w)) (usable si (si_unix si (wd_clock w)) i device key c (sv_document (wd_server w))) token (invite_of c) \<and>
    (sv_epoch (wd_server w') = sv_epoch (wd_server w) \<longrightarrow>
      sv_document (wd_server w') = sv_document (wd_server w) \<and> client_without c' = client_without c \<and> r \<noteq> HsDone ())"
proof -
  let ?now = "si_unix si (wd_clock w)"
  obtain reply sv' where e: "enroll_effect si ?now i token device key (wd_server w) = (reply, sv')" by (metis prod.exhaust)
  note run = assms(2) [unfolded enroll_client_effect [OF e]]
  have "wd_server w' = sv'"
    using keeps_reply [unfolded keeps_def, rule_format, of "\<lambda>s. s = sv'" "w\<lparr>wd_server := sv'\<rparr>"] run by (metis snd_conv world.select_convs(1) world.surjective world.update_convs(1))
  moreover have "r \<noteq> HsDone ()" if "\<nexists>issued. reply = ReplyIssued issued"
    using that reply_done run by blast
  ultimately show ?thesis using effect_refines [OF assms(1) e] by (auto split: if_splits)
qed



definition sample_site :: "(nat, unit) site" where
  "sample_site =
     \<lparr>si_crypto = hex_crypto, si_totp = sample_totp, si_encode = (\<lambda>_. Inl ()), si_decode = (\<lambda>_. Inl ()),
      si_codec_text = (\<lambda>_. []), si_key_text = (\<lambda>_. []), si_store_text = (\<lambda>_. []), si_unix = (\<lambda>_. 900),
      si_deadline = 5 * 10 ^ 9, si_nonce = [7], si_secret = ''ABCD'', si_write_fails = None, si_persists = True,
      si_endpoint = 1, si_path = DirectPath\<rparr>"

definition sample_server :: "nat auth_server" where
  "sample_server =
     \<lparr>sv_config = sample_loaded, sv_document = sample_doc, sv_state = \<lparr>rs_clients = Map.empty\<rparr>, sv_epoch = 0,
      sv_peers = registry_new\<rparr>"

definition sample_world :: "reader_events \<Rightarrow> nat world" where
  "sample_world rd =
     \<lparr>wd_server = sample_server, wd_stream = \<lparr>st_reads = rd, st_written = [], st_room = None, st_error = []\<rparr>, wd_clock = 0\<rparr>"

text \<open>A peer that sends one message, in the binary format.\<close>

definition sample_frame :: "auth_message \<Rightarrow> bytes" where
  "sample_frame m = (case to_payload (\<lambda>_. Inl ()) m FmtBinary of
     Inr bs \<Rightarrow> le_bytes 4 (of_nat (length bs) :: u32) @ bs | Inl (_ :: unit codec_error) \<Rightarrow> [])"

definition sample_enroll :: reader_events where
  "sample_enroll = [(0, Inr (sample_frame (EnrollStart ''alice'' ''tok'' (Some ''phone'') None)))]"

lemma sample_agrees: "agrees hex_crypto 5 sample_server"
  using sample_doc_view by (auto simp: agrees_def sample_server_def)



section \<open>An invitation is redeemed once\<close>

text \<open>A run of enrollments, each on a stream of its own; whether a credential was issued is seen from the epoch.\<close>

record ('id, 'j) enroll_event =
  ee_site :: "('id, 'j) site"
  ee_stream :: auth_stream
  ee_clock :: nat
  ee_format :: format
  ee_client_id :: string
  ee_token :: string
  ee_device :: "string option"
  ee_public_key :: "string option"

definition enroll_at :: "('id, 'j) enroll_event \<Rightarrow> 'id auth_server \<Rightarrow> unit ended \<times> 'id world" where
  "enroll_at ev sv =
     enroll_client (ee_site ev) (ee_client_id ev) (ee_token ev) (ee_device ev) (ee_public_key ev) (ee_format ev)
       \<lparr>wd_server = sv, wd_stream = ee_stream ev, wd_clock = ee_clock ev\<rparr>"

fun enroll_run :: "('id, 'j) enroll_event list \<Rightarrow> 'id auth_server \<Rightarrow> (string \<times> bool) list" where
  "enroll_run [] sv = []"
| "enroll_run (ev # evs) sv =
     (let sv' = wd_server (snd (enroll_at ev sv))
      in (ee_client_id ev, sv_epoch sv' \<noteq> sv_epoch sv) # enroll_run evs sv')"

definition issued_to :: "string \<Rightarrow> (string \<times> bool) list \<Rightarrow> nat" where
  "issued_to i outs = length (filter (\<lambda>(j, issued). j = i \<and> issued) outs)"

definition tokens_out :: "string \<Rightarrow> 'id auth_server \<Rightarrow> nat" where
  "tokens_out i sv =
     (case Option.bind (au_clients (sv_config sv) i) ca_pending_enrollment of None \<Rightarrow> 0 | Some _ \<Rightarrow> 1)"

lemma redeem_token:
  "redeem m d now ok token iv = (b, iv') \<Longrightarrow> if b then iv_token iv \<noteq> None \<and> iv_token iv' = None else iv_token iv' = iv_token iv"
  by (auto simp: redeem_def Let_def split: guard.splits option.splits if_splits)

lemma reply_server: "wd_server (snd (hs_reply si i cfg fmt reply w)) = wd_server w"
  using keeps_reply [of "\<lambda>s. s = wd_server w" si i cfg fmt reply] unfolding keeps_def by blast

lemma unknown_enrollment:
  assumes "au_clients (sv_config (wd_server w)) i = None" and "enroll_client si i token device key fmt w = (r, w')"
  shows "wd_server w' = wd_server w"
proof -
  have "refreshed now i (sv_config (wd_server w)) = sv_config (wd_server w)" for now
    using assms(1) by (simp add: refreshed_def upd_client_def)
  then have "enroll_effect si (si_unix si (wd_clock w)) i token device key (wd_server w) = (ReplyRefused, wd_server w)"
    using assms(1) by (simp add: enroll_effect_def Let_def enrollment_verdict_def)
  from enroll_client_effect [OF this, of fmt] assms(2) have "w' = snd (hs_reply si i (sv_config (wd_server w)) fmt ReplyRefused w)"
    by (metis snd_conv world.surjective world.update_convs(1))
  then show ?thesis by (simp add: reply_server)
qed

lemma enrollment_tokens:
  assumes "enroll_client si i token device key fmt w = (r, w')"
  shows "tokens_out j (wd_server w') + issued_to j [(i, sv_epoch (wd_server w') \<noteq> sv_epoch (wd_server w))] \<le> tokens_out j (wd_server w)"
proof (cases "au_clients (sv_config (wd_server w)) i")
  case None
  then show ?thesis using unknown_enrollment [OF None assms] by (simp add: issued_to_def)
next
  case (Some c)
  let ?ok = "usable si (si_unix si (wd_clock w)) i device key c (sv_document (wd_server w))"
  from enrollment_refined [OF Some assms] obtain c' where c': "sv_config (wd_server w') = upd_client i (\<lambda>_. c') (sv_config (wd_server w))"
    "(sv_epoch (wd_server w') \<noteq> sv_epoch (wd_server w), invite_of c') =
      redeem (au_max_attempts (sv_config (wd_server w))) (au_lockout_duration (sv_config (wd_server w)))
        (si_unix si (wd_clock w)) ?ok token (invite_of c)" by blast
  from redeem_token [OF c'(2) [symmetric]] show ?thesis
    using c'(1) Some by (auto simp: tokens_out_def issued_to_def upd_client_lookup split: option.splits if_splits)
qed

text \<open>
  C7: A token is good for one enrollment. In any run of enrollments, by whomever, for whichever clients and however the writes
  and the answers fail, at most one credential is issued to a client for the token that is out at the beginning, and none
  when there is no token out.
\<close>

theorem token_redeemed_once: "issued_to i (enroll_run evs sv) \<le> tokens_out i sv"
proof (induction evs arbitrary: sv)
  case (Cons ev evs)
  obtain r w where run: "enroll_at ev sv = (r, w)" by (metis prod.exhaust)
  show ?case
    using Cons.IH [of "wd_server w"] enrollment_tokens [OF run [unfolded enroll_at_def], of i] by (auto simp: run Let_def issued_to_def split: if_splits)
qed (simp add: issued_to_def)


section \<open>What a peer that is turned away can see\<close>

text \<open>What a peer sees of a run: the bytes on its stream, what is left of what it sent, and the moment.\<close>

definition sees :: "'id world \<Rightarrow> auth_stream \<times> nat" where
  "sees w = (wd_stream w, wd_clock w)"

definition same_run :: "('id world \<Rightarrow> 'a ended \<times> 'id world) \<Rightarrow> 'id world \<Rightarrow> 'id world \<Rightarrow> bool" where
  "same_run m w1 w2 \<longleftrightarrow> fst (m w1) = fst (m w2) \<and> sees (snd (m w1)) = sees (snd (m w2))"

lemma same_bind:
  assumes "same_run m w1 w2"
    and "\<And>a v1 v2. m w1 = (HsDone a, v1) \<Longrightarrow> m w2 = (HsDone a, v2) \<Longrightarrow> sees v1 = sees v2 \<Longrightarrow> same_run (f a) v1 v2"
  shows "same_run (hs_bind m f) w1 w2"
proof -
  obtain r1 v1 r2 v2 where m: "m w1 = (r1, v1)" "m w2 = (r2, v2)" by (metis prod.exhaust)
  then have "r1 = r2" "sees v1 = sees v2" using assms(1) by (simp_all add: same_run_def)
  then show ?thesis using m assms(2) [of _ v1 v2] by (cases r2) (simp_all add: same_run_def hs_bind_def)
qed

lemma same_fail: "sees w1 = sees w2 \<Longrightarrow> same_run (hs_fail e) w1 w2"
  by (simp add: same_run_def hs_fail_def)

lemma same_done: "sees w1 = sees w2 \<Longrightarrow> same_run (Pair (HsDone a)) w1 w2"
  by (simp add: same_run_def)

lemma same_send: "sees w1 = sees w2 \<Longrightarrow> same_run (hs_send si m fmt) w1 w2"
  by (simp add: same_run_def hs_send_def sees_def split: prod.split sum.split)

lemma same_receive: "sees w1 = sees w2 \<Longrightarrow> same_run (hs_receive si) w1 w2"
  by (simp add: same_run_def hs_receive_def sees_def split: prod.split)

lemma same_grace: "sees w1 = sees w2 \<Longrightarrow> same_run (grace_after_refusal si) w1 w2"
  by (simp add: same_run_def grace_after_refusal_def sees_def Let_def split: prod.split)

lemma same_message: "sees w1 = sees w2 \<Longrightarrow> same_run (hs_message si otherwise) w1 w2"
  unfolding hs_message_def
  by (rule same_bind [OF same_receive]) (auto simp: same_run_def split: sum.split)

lemma same_refusal: "sees w1 = sees w2 \<Longrightarrow> same_run (hs_reply si i cfg fmt ReplyRefused) w1 w2"
  unfolding hs_reply_def refuse_unrecordable_enrollment_def
  by (simp, rule same_bind [OF same_send]) (simp_all add: same_fail)

text \<open>The server has no use for the token.\<close>

definition token_refused :: "('id, 'j) site \<Rightarrow> string \<Rightarrow> string \<Rightarrow> string option \<Rightarrow> string option \<Rightarrow> 'id world \<Rightarrow> bool" where
  "token_refused si i token device key w \<longleftrightarrow>
     enrollment_verdict (si_crypto si) (refreshed (si_unix si (wd_clock w)) i (sv_config (wd_server w)))
       (si_unix si (wd_clock w)) i token device key \<noteq> EnrollAccept"

lemma refused_effect:
  assumes "token_refused si i token device key w"
  obtains sv where "enroll_effect si (si_unix si (wd_clock w)) i token device key (wd_server w) = (ReplyRefused, sv)"
    and "sv_peers sv = sv_peers (wd_server w)"
  using assms
  by (cases "enrollment_verdict (si_crypto si) (refreshed (si_unix si (wd_clock w)) i (sv_config (wd_server w)))
       (si_unix si (wd_clock w)) i token device key")
    (simp_all add: token_refused_def enroll_effect_def Let_def)

lemma same_enroll:
  assumes "sees w1 = sees w2" and "token_refused si i token device key w1" and "token_refused si i token device key w2"
  shows "same_run (enroll_client si i token device key fmt) w1 w2"
proof -
  obtain sv1 where 1: "enroll_effect si (si_unix si (wd_clock w1)) i token device key (wd_server w1) = (ReplyRefused, sv1)"
    using assms(2) by (rule refused_effect)
  obtain sv2 where 2: "enroll_effect si (si_unix si (wd_clock w2)) i token device key (wd_server w2) = (ReplyRefused, sv2)"
    using assms(3) by (rule refused_effect)
  have "sees (w1\<lparr>wd_server := sv1\<rparr>) = sees (w2\<lparr>wd_server := sv2\<rparr>)" using assms(1) by (simp add: sees_def)
  from same_refusal [OF this, of si i "sv_config (wd_server w1)" fmt] show ?thesis
    by (simp add: same_run_def enroll_client_effect [OF 1] enroll_client_effect [OF 2] hs_reply_def)
qed

lemma insert_changes_registry: "registry_insert i path identity now reg = (g, reg') \<Longrightarrow> reg' \<noteq> reg"
proof
  assume "registry_insert i path identity now reg = (g, reg')" "reg' = reg"
  then have "pr_next_id reg = pr_next_id reg + 1" by (metis (no_types, lifting) registry_insert_def Let_def peer_registry.select_convs(2) peer_registry.surjective peer_registry.update_convs(1,2) snd_conv)
  then show False by simp
qed


lemma authenticate_peer_sees: "sees (snd (authenticate_peer si req w)) = sees w"
  by (simp add: authenticate_peer_def sees_def Let_def split: prod.split sum.split)

lemma authenticate_peer_registers:
  assumes "authenticate_peer si req w = (Some r, w')"
  shows "sv_peers (wd_server w') \<noteq> sv_peers (wd_server w)"
  using assms
  by (auto simp: authenticate_peer_def Let_def split: prod.splits sum.splits if_splits dest: insert_changes_registry)

lemma same_verdict:
  assumes "sees w1 = sees w2" and "fst (authenticate_peer si req w1) = None" and "fst (authenticate_peer si req w2) = None"
  shows "same_run (hs_verdict si i req fmt) w1 w2"
proof -
  obtain v1 v2 where v: "authenticate_peer si req w1 = (None, v1)" "authenticate_peer si req w2 = (None, v2)"
    using assms(2, 3) by (metis prod.collapse)
  then have "sees v1 = sees v2" using assms(1) authenticate_peer_sees by (metis snd_conv)
  then have "same_run (hs_bind (hs_send si (AuthFailed FAIL_REASON) fmt) (\<lambda>_.
          hs_bind (grace_after_refusal si) (\<lambda>_.
            hs_fail (Rejected (''authentication failed for client '' @ [CHR 0x27] @ i @ [CHR 0x27] @ '': '' @
              FAIL_REASON))))) v1 v2"
    by (intro same_bind same_send same_grace same_fail)
  then show ?thesis by (simp add: same_run_def hs_verdict_def v)
qed

lemma verdict_none:
  assumes "sv_peers (wd_server (snd (hs_verdict si i req fmt w))) = sv_peers (wd_server w)"
  shows "fst (authenticate_peer si req w) = None"
proof (rule ccontr)
  assume "fst (authenticate_peer si req w) \<noteq> None"
  then obtain acl g v where v: "authenticate_peer si req w = (Some (acl, g), v)" by (metis option.exhaust prod.exhaust fst_conv)
  have "keeps (\<lambda>s. sv_peers s = sv_peers (wd_server v)) (hs_bind (hs_send si AuthOk fmt) (\<lambda>_.
            Pair (HsDone \<lparr>ap_client_id = i, ap_device = rq_device_id req, ap_acl = acl, ap_guard = g\<rparr>)))"
    by (intro keeps_bind) simp_all
  then have "sv_peers (wd_server (snd (hs_verdict si i req fmt w))) = sv_peers (wd_server v)"
    by (simp add: hs_verdict_def v keeps_def)
  then show False using assms authenticate_peer_registers [OF v] by simp
qed

definition answered :: "('id, 'j) site \<Rightarrow> string \<Rightarrow> auth_message \<Rightarrow> format \<Rightarrow> 'id world \<Rightarrow> 'id authenticated_peer ended \<times> 'id world" where
  "answered si client_id m response_format =
     (case m of
        AuthResponse resp_client_id timestamp totp_code signature resp_device_id \<Rightarrow>
          if resp_client_id \<noteq> client_id then hs_fail (Rejected ''client ID mismatch in AUTH_RESPONSE'')
          else if (case resp_device_id of Some name \<Rightarrow> \<not> is_presentable_device_id name | None \<Rightarrow> False)
          then hs_fail (Rejected ''device id is not printable ASCII'')
          else
            hs_verdict si client_id
              \<lparr>rq_client_id = client_id, rq_device_id = resp_device_id, rq_nonce = si_nonce si, rq_timestamp = timestamp,
               rq_signature = signature, rq_code = totp_code\<rparr> response_format
      | _ \<Rightarrow> hs_fail (NotStarted ''expected AUTH_RESPONSE message''))"

lemma perform_answered:
  "perform_authentication si =
     hs_bind (hs_opening si) (\<lambda>(client_id, fmt).
     hs_bind (hs_send si (AuthChallenge (si_nonce si)) fmt) (\<lambda>_.
     hs_bind (hs_message si ''expected AUTH_RESPONSE message'') (\<lambda>(m, response_format). answered si client_id m response_format)))"
  by (simp add: perform_authentication_def answered_def)

lemma same_answered:
  assumes "sees w1 = sees w2"
    and "sv_peers (wd_server (snd (answered si i m fmt w1))) = sv_peers (wd_server w1)"
    and "sv_peers (wd_server (snd (answered si i m fmt w2))) = sv_peers (wd_server w2)"
  shows "same_run (answered si i m fmt) w1 w2"
proof (cases m)
  case (AuthResponse resp_client_id timestamp totp_code signature resp_device_id)
  show ?thesis
  proof (cases "resp_client_id \<noteq> i \<or> (case resp_device_id of Some name \<Rightarrow> \<not> is_presentable_device_id name | None \<Rightarrow> False)")
    case True
    then show ?thesis using AuthResponse assms(1) by (auto simp: answered_def intro: same_fail)
  next
    case False
    then have "answered si i m fmt = hs_verdict si i \<lparr>rq_client_id = i, rq_device_id = resp_device_id, rq_nonce = si_nonce si,
        rq_timestamp = timestamp, rq_signature = signature, rq_code = totp_code\<rparr> fmt"
      using AuthResponse by (simp add: answered_def)
    then show ?thesis using assms by (simp add: same_verdict verdict_none)
  qed
qed (use assms(1) in \<open>simp_all add: answered_def same_fail\<close>)

text \<open>The peer offers no token that the server accepts.\<close>

definition no_good_token :: "('id, 'j) site \<Rightarrow> 'id world \<Rightarrow> bool" where
  "no_good_token si w \<longleftrightarrow>
     (\<forall>i token device key fmt v.
        hs_message si ''the first stream is not an AUTH_START'' w = (HsDone (EnrollStart i token device key, fmt), v) \<longrightarrow>
        token_refused si i token device key v)"

lemma refused_enroll_fails:
  assumes "token_refused si i token device key w"
  shows "enroll_client si i token device key fmt w \<noteq> (HsDone (), v)"
proof -
  obtain sv where "enroll_effect si (si_unix si (wd_clock w)) i token device key (wd_server w) = (ReplyRefused, sv)"
    using assms by (rule refused_effect)
  from enroll_client_effect [OF this, of fmt] show ?thesis
    using reply_done [of si i "sv_config (wd_server w)" fmt ReplyRefused "w\<lparr>wd_server := sv\<rparr>" v] by auto
qed

definition opening_cont :: "('id, 'j) site \<Rightarrow> auth_message \<Rightarrow> format \<Rightarrow> 'id world \<Rightarrow> (string \<times> format) ended \<times> 'id world" where
  "opening_cont si start start_format =
     (let fmt = reply_format start start_format in
       case unpresentable start of
         Some reason \<Rightarrow> hs_fail (Rejected reason)
       | None \<Rightarrow>
           (case start of
              AuthStart client_id _ _ _ \<Rightarrow> Pair (HsDone (client_id, fmt))
            | EnrollStart client_id token device_id public_key \<Rightarrow>
                hs_bind (enroll_client si client_id token device_id public_key fmt) (\<lambda>_.
                hs_bind (hs_message si ''expected AUTH_START after ENROLL_START'') (\<lambda>(m, asked_in).
                  (case m of
                     AuthStart i _ _ _ \<Rightarrow>
                       if i = client_id then Pair (HsDone (client_id, reply_format m asked_in))
                       else hs_fail (Rejected (''AUTH_START names client '' @ [CHR 0x27] @ i @ [CHR 0x27] @
                         '' but the enrollment was for '' @ [CHR 0x27] @ client_id @ [CHR 0x27]))
                   | _ \<Rightarrow> hs_fail (NotStarted ''expected AUTH_START after ENROLL_START''))))
            | _ \<Rightarrow> hs_fail (NotStarted ''expected AUTH_START message'')))"

lemma opening_bind:
  "hs_opening si = hs_bind (hs_message si ''the first stream is not an AUTH_START'') (\<lambda>(start, f). opening_cont si start f)"
  by (simp add: hs_opening_def opening_cont_def)

lemma same_opening:
  assumes "sees w1 = sees w2" and "no_good_token si w1" and "no_good_token si w2"
  shows "same_run (hs_opening si) w1 w2"
  unfolding opening_bind
proof (rule same_bind [OF same_message [OF assms(1)]])
  fix a v1 v2
  assume m: "hs_message si ''the first stream is not an AUTH_START'' w1 = (HsDone a, v1)"
    "hs_message si ''the first stream is not an AUTH_START'' w2 = (HsDone a, v2)" and v: "sees v1 = sees v2"
  obtain start f where a: "a = (start, f)" by (cases a)
  have "same_run (opening_cont si start f) v1 v2"
  proof (cases "\<exists>i token device key. start = EnrollStart i token device key \<and> unpresentable start = None")
    case True
    then obtain i token device key where start: "start = EnrollStart i token device key" "unpresentable start = None" by blast
    have refused: "token_refused si i token device key v1" "token_refused si i token device key v2"
      using assms(2, 3) m a start unfolding no_good_token_def by blast+
    have "same_run (hs_bind (enroll_client si i token device key fmt) k) v1 v2" for fmt and k :: "unit \<Rightarrow> _"
      by (rule same_bind [OF same_enroll [OF v refused]]) (use refused_enroll_fails [OF refused(1)] in auto)
    then show ?thesis using start by (simp add: opening_cont_def)
  next
    case False
    then show ?thesis
      using v by (cases "unpresentable start"; cases start) (auto simp: opening_cont_def same_fail same_done)
  qed
  then show "same_run (case a of (start, f) \<Rightarrow> opening_cont si start f) v1 v2" by (simp add: a)
qed

lemma opening_keeps_peers: "hs_opening si w = (r, v) \<Longrightarrow> sv_peers (wd_server v) = sv_peers (wd_server w)"
proof -
  have "sv_peers (snd (enroll_effect si now i token device key sv)) = sv_peers sv" for now i token device key sv
    by (rule enroll_effect_cases [where si = si and now = now and i = i and sv = sv and token = token and device = device and key = key])
      (auto simp: Let_def enrollment_saved_simps)
  then have "keeps (\<lambda>s. sv_peers s = sv_peers (wd_server w)) (hs_opening si)" by (intro keeps_opening) simp
  moreover assume "hs_opening si w = (r, v)"
  ultimately show ?thesis by (auto simp: keeps_def)
qed

lemma bind_Done: "m w = (HsDone a, v) \<Longrightarrow> hs_bind m f w = f a v"
  by (simp add: hs_bind_def)

lemma message_server: "wd_server (snd (hs_message si otherwise w)) = wd_server w"
  using keeps_message [of "\<lambda>s. s = wd_server w" si otherwise] unfolding keeps_def by blast

lemma to_answer:
  assumes "hs_opening si w = (HsDone (i, fmt), u)" and "hs_send si (AuthChallenge (si_nonce si)) fmt u = (HsDone (), v)"
    and "hs_message si ''expected AUTH_RESPONSE message'' v = (HsDone (m, f), x)"
    and "sv_peers (wd_server (snd (perform_authentication si w))) = sv_peers (wd_server w)"
  shows "sv_peers (wd_server (snd (answered si i m f x))) = sv_peers (wd_server x)"
proof -
  have "perform_authentication si w = answered si i m f x"
    unfolding perform_answered using assms(1-3) by (simp add: bind_Done)
  moreover have "sv_peers (wd_server x) = sv_peers (wd_server w)"
    using opening_keeps_peers [OF assms(1)] same_server(1) [of si "AuthChallenge (si_nonce si)" fmt u] assms(2)
      message_server [of si "''expected AUTH_RESPONSE message''" v] assms(3) by simp
  ultimately show ?thesis using assms(4) by simp
qed



text \<open>The bytes of an \<open>AUTH_START\<close> for alice, in the binary format, and a server that knows nobody.\<close>

definition sample_start :: reader_events where
  "sample_start = [(0, Inr [18, 0, 0, 0, 1, 1, 0, 5, 0, 97, 108, 105, 99, 101, 0, 0, 0, 0, 0, 0, 0, 0])]"

definition empty_world :: "reader_events \<Rightarrow> nat world" where
  "empty_world rd = (sample_world rd)\<lparr>wd_server := sample_server\<lparr>sv_config := sample_loaded\<lparr>au_clients := Map.empty\<rparr>\<rparr>\<rparr>"

lemma sample_start_payload:
  "from_payload dec [1, 1, 0, 5, 0, 97, 108, 105, 99, 101, 0, 0, 0, 0, 0, 0, 0, 0] =
    Inr (AuthStart ''alice'' 0 None None, FmtBinary)"
proof -
  let ?m = "AuthStart ''alice'' 0 None None"
  have "msg_text_ok ?m" by (simp add: msg_text_ok_def str_ok_def as_bytes_def byte_of_char_def)
  moreover have "msg_fits ?m" by (simp add: msg_fits_def)
  moreover have "msg_bytes ?m = [1, 0, 5, 0, 97, 108, 105, 99, 101, 0, 0, 0, 0, 0, 0, 0, 0]"
    by (simp add: put_string_def flag_if_def kind_defs as_bytes_def byte_of_char_def codec_simps put_opt_def)
  ultimately have "from_binary [1, 0, 5, 0, 97, 108, 105, 99, 101, 0, 0, 0, 0, 0, 0, 0, 0] = Inr ?m"
    using from_binary_put [of ?m "[]"] by simp
  then show ?thesis by (simp add: from_payload_def VERSION_JSON_def VERSION_BINARY_def)
qed

lemma sample_challenge: "to_payload enc (AuthChallenge [7]) FmtBinary = Inr [1, 2, 0, 1, 0, 0, 0, 7]"
  by (simp add: to_payload_def wr_defs kind_defs VERSION_BINARY_def codec_simps)

lemma read_bytes_enough: "len \<le> length buf \<Longrightarrow> read_bytes len buf deadline now rd = (Some (Inr buf), now, rd)"
  by (simp add: read_bytes.simps)

lemma read_bytes_never: "0 < len \<Longrightarrow> read_bytes len [] deadline now [] = (None, max now deadline, [])"
  by (subst read_bytes.simps) (simp add: read_by_def)

lemma read_bytes_at_once:
  assumes "t \<le> deadline" and "now \<le> t" and "0 < len" and "len \<le> length bs"
  shows "read_bytes len [] deadline now ((t, Inr bs) # rd) =
    (Some (Inr (take len bs)), t, if len < length bs then (t, Inr (drop len bs)) # rd else rd)"
  using assms by (subst read_bytes.simps) (auto simp: read_by_def read_bytes_enough)

lemma sample_start_read:
  "read_auth_message deadline 0 sample_start =
    (Some (Inr [1, 1, 0, 5, 0, 97, 108, 105, 99, 101, 0, 0, 0, 0, 0, 0, 0, 0]), 0, [])"
  by (simp add: read_auth_message_def sample_start_def read_bytes_at_once MAX_AUTH_MESSAGE_def Let_def)

lemma silent_read: "read_auth_message deadline now [] = (None, max now deadline, [])"
  by (simp add: read_auth_message_def read_bytes_never)

lemma silent_after_start:
  assumes "wd_stream w = wd_stream (sample_world sample_start)" and "wd_clock w = 0"
  shows "no_good_token sample_site w \<and>
    sv_peers (wd_server (snd (perform_authentication sample_site w))) = sv_peers (wd_server w)"
proof -
  let ?v = "w\<lparr>wd_clock := 0, wd_stream := (wd_stream w)\<lparr>st_reads := []\<rparr>\<rparr>"
  let ?st = "(wd_stream ?v)\<lparr>st_written := le_bytes 4 (8 :: u32) @ [1, 2, 0, 1, 0, 0, 0, 7]\<rparr>"
  let ?u = "?v\<lparr>wd_stream := ?st\<rparr>"
  have m: "hs_message sample_site s w = (HsDone (AuthStart ''alice'' 0 None None, FmtBinary), ?v)" for s
    using assms by (simp add: hs_message_def hs_bind_def hs_receive_def sample_start_read sample_start_payload sample_world_def
        sample_site_def)
  have s: "hs_send sample_site (AuthChallenge (si_nonce sample_site)) FmtBinary ?v = (HsDone (), ?u)"
    using assms(1) by (simp add: hs_send_def write_auth_message_def sample_challenge write_all_def sample_world_def sample_site_def)
  define u where "u = ?u"
  obtain x where q: "hs_message sample_site ''expected AUTH_RESPONSE message'' u = (HsTimeout, x)"
    and x: "wd_server x = wd_server w"
    by (simp add: u_def hs_message_def hs_bind_def hs_receive_def silent_read)
  have "unpresentable (AuthStart ''alice'' 0 None None) = None" by code_simp
  then have "hs_opening sample_site w = (HsDone (''alice'', FmtBinary), ?v)"
    by (simp add: opening_bind hs_bind_def m opening_cont_def reply_format_def announced_version_def unwrap_or_def)
  then have "perform_authentication sample_site w = (HsTimeout, x)"
    unfolding perform_answered by (simp add: hs_bind_def s [folded u_def] q)
  then show ?thesis by (simp add: no_good_token_def m x)
qed


end
