(* ===== verification/Spec2Isabelle.thy ===== *)
theory Spec2Isabelle
  imports Nexa_Host Nexa_L4_Wire Nexa_Tls Nexa_Alpn Nexa_Auth_Wire Nexa_Backend Nexa_Pool Nexa_Acl
    Nexa_Timing Nexa_Routes Nexa_Config Nexa_Router Nexa_Limits Nexa_Stream Nexa_Dns Nexa_Passthrough Nexa_L4_Flow Nexa_Auth Nexa_Invite
begin

text \<open>
  A verification development of nexapipe.
\<close>

end
